(* ===== verification/Prelude.thy ===== *)
theory Prelude
  imports
    Main
    "HOL-Library.Word"
    "HOL-Library.List_Lexorder"
    "HOL-Library.Product_Lexorder"
    "HOL-Library.Signed_Division"
    "HOL-Library.Monad_Syntax"
begin

text \<open>
  Shared vocabulary of the development.

  Conventions.
  \<^item> Go's \<open>int64\<close>, \<open>int32\<close> and \<open>int\<close> are integers; the wrap-around of two's complement is
    written out with \<open>wrap64\<close> and \<open>wrap32\<close> wherever an addition, subtraction or product is
    computed at that width. \<open>in64\<close> and \<open>in32\<close> say that an integer is in the range.
  \<^item> A Go panic (an explicit one, an index out of range, a nil dereference) is the value
    \<open>None\<close> of an option; the computations that may panic are composed with the option monad.
  \<^item> A Go \<open>error\<close> result is a value of the component's own error type, \<open>None\<close> being the nil
    error.
  \<^item> A pointer that may be nil is an option as well.
  \<^item> Division is Go's: \<open>sdiv\<close> truncates towards zero.
\<close>

named_theorems int_range "range facts and unfoldings of the machine integers"
named_theorems go_monad "equations and splits of the panic monad"

type_synonym bytes = "8 word list"

section \<open>Machine integers\<close>

abbreviation MaxInt64 :: int where "MaxInt64 \<equiv> 9223372036854775807"
abbreviation MinInt64 :: int where "MinInt64 \<equiv> - 9223372036854775808"
abbreviation MaxInt32 :: int where "MaxInt32 \<equiv> 2147483647"
abbreviation MinInt32 :: int where "MinInt32 \<equiv> - 2147483648"

definition in64 :: "int \<Rightarrow> bool" where
  [int_range]: "in64 x \<longleftrightarrow> MinInt64 \<le> x \<and> x \<le> MaxInt64"

definition in32 :: "int \<Rightarrow> bool" where
  [int_range]: "in32 x \<longleftrightarrow> MinInt32 \<le> x \<and> x \<le> MaxInt32"

definition wrap64 :: "int \<Rightarrow> int" where
  "wrap64 x = (x + 9223372036854775808) mod 18446744073709551616 - 9223372036854775808"

definition wrap32 :: "int \<Rightarrow> int" where
  "wrap32 x = (x + 2147483648) mod 4294967296 - 2147483648"

lemma wrap64_id [simp]: "in64 x \<Longrightarrow> wrap64 x = x"
  by (simp add: in64_def wrap64_def)

lemma wrap32_id [simp]: "in32 x \<Longrightarrow> wrap32 x = x"
  by (simp add: in32_def wrap32_def)

lemma in64_wrap64 [simp]: "in64 (wrap64 x)"
proof -
  have "0 \<le> (x + 9223372036854775808) mod 18446744073709551616"
    and "(x + 9223372036854775808) mod 18446744073709551616 < (18446744073709551616::int)"
    by simp_all
  then show ?thesis by (simp add: in64_def wrap64_def)
qed

lemma in32_wrap32 [simp]: "in32 (wrap32 x)"
proof -
  have "0 \<le> (x + 2147483648) mod 4294967296"
    and "(x + 2147483648) mod 4294967296 < (4294967296::int)"
    by simp_all
  then show ?thesis by (simp add: in32_def wrap32_def)
qed

lemma wrap64_cong: "\<exists>k. wrap64 x = x + k * 18446744073709551616"
proof -
  have "(x + 9223372036854775808) mod 18446744073709551616 =
      x + 9223372036854775808
        - ((x + 9223372036854775808) div 18446744073709551616) * 18446744073709551616"
    by (simp add: minus_div_mult_eq_mod)
  then have "wrap64 x = x
      + (- ((x + 9223372036854775808) div 18446744073709551616)) * 18446744073709551616"
    by (simp add: wrap64_def)
  then show ?thesis by blast
qed

text \<open>The wrap-around is the one of 64-bit words.\<close>

lemma wrap64_word: "wrap64 x = sint (word_of_int x :: 64 word)"
proof -
  obtain k where k: "wrap64 x = x + k * 18446744073709551616"
    using wrap64_cong by blast
  have "take_bit 64 (wrap64 x) = take_bit 64 x"
    by (simp add: k take_bit_eq_mod)
  then have "(word_of_int (wrap64 x) :: 64 word) = word_of_int x"
    by (simp add: word_of_int_eq_iff)
  moreover have "sint (word_of_int (wrap64 x) :: 64 word) = wrap64 x"
    using in64_wrap64 [of x] by (simp add: in64_def sint_sbintrunc' signed_take_bit_int_eq_self)
  ultimately show ?thesis by simp
qed

lemma sdiv_nonneg: "0 \<le> (a::int) \<Longrightarrow> 0 \<le> b \<Longrightarrow> a sdiv b = a div b"
  by (cases "a = 0"; cases "b = 0") (auto simp: signed_divide_int_def)

section \<open>Slices and panics\<close>

text \<open>Reading and writing a slice at an index: out of range is a panic.\<close>

definition slice_get :: "'a list \<Rightarrow> int \<Rightarrow> 'a option" where
  "slice_get xs i = (if 0 \<le> i \<and> i < int (length xs) then Some (xs ! nat i) else None)"

definition slice_set :: "'a list \<Rightarrow> int \<Rightarrow> 'a \<Rightarrow> 'a list option" where
  "slice_set xs i v =
     (if 0 \<le> i \<and> i < int (length xs) then Some (xs[nat i := v]) else None)"

text \<open>Go's \<open>copy(dst, src)\<close>: the common prefix is overwritten.\<close>

definition slice_copy :: "'a list \<Rightarrow> 'a list \<Rightarrow> 'a list" where
  "slice_copy dst src = take (length dst) src @ drop (length src) dst"

lemma slice_get_nat [simp]:
  "slice_get xs (int n) = (if n < length xs then Some (xs ! n) else None)"
  by (simp add: slice_get_def)

lemma slice_set_nat [simp]:
  "slice_set xs (int n) v = (if n < length xs then Some (xs[n := v]) else None)"
  by (simp add: slice_set_def)

lemma slice_get_Some_iff:
  "slice_get xs i = Some v \<longleftrightarrow> 0 \<le> i \<and> i < int (length xs) \<and> v = xs ! nat i"
  by (auto simp: slice_get_def)

lemma slice_set_Some_iff:
  "slice_set xs i v = Some ys \<longleftrightarrow> 0 \<le> i \<and> i < int (length xs) \<and> ys = xs[nat i := v]"
  by (auto simp: slice_set_def)

lemma length_slice_copy [simp]: "length (slice_copy dst src) = length dst"
  by (simp add: slice_copy_def)

lemma nth_slice_copy:
  "i < length dst \<Longrightarrow> slice_copy dst src ! i = (if i < length src then src ! i else dst ! i)"
  by (auto simp: slice_copy_def nth_append min_def)

declare Option.bind_eq_Some_conv [go_monad]
declare Option.bind_eq_None_conv [go_monad]

text \<open>\<open>bytes.Compare\<close> is the lexicographic order on byte strings.\<close>

definition bytes_Compare :: "bytes \<Rightarrow> bytes \<Rightarrow> int" where
  "bytes_Compare a b = (if a < b then -1 else if a = b then 0 else 1)"

lemma bytes_Compare_less [simp]: "bytes_Compare a b < 0 \<longleftrightarrow> a < b"
  by (auto simp: bytes_Compare_def)

lemma bytes_Compare_eq [simp]: "bytes_Compare a b = 0 \<longleftrightarrow> a = b"
  by (auto simp: bytes_Compare_def)

section \<open>Sums over lists\<close>

lemma sum_list_nonneg_le:
  fixes f :: "'a \<Rightarrow> int"
  assumes "\<And>x. x \<in> set xs \<Longrightarrow> 0 \<le> f x" and "x \<in> set xs"
  shows "f x \<le> sum_list (map f xs)"
  using assms
proof (induction xs)
  case Nil
  then show ?case by simp
next
  case (Cons a xs)
  have "0 \<le> sum_list (map f xs)"
    using Cons.prems(1) by (intro sum_list_nonneg) auto
  with Cons show ?case by (cases "x = a") force+
qed

lemma sum_list_map_upt: "sum_list (map f xs) = (\<Sum>i<length xs. f (xs ! i))"
  by (simp add: sum_list_sum_nth atLeast0LessThan)

end
