(* ===== verification/External.thy ===== *)
theory External
  imports Prelude
begin

text \<open>
  The code the engine calls but does not contain: public keys and their signature scheme, and the
  encoding of a \<open>time.Time\<close> by the protobuf runtime. The functions that use it take an
  \<open>ext_env\<close>; a theorem that relies on a property of it names the property as a hypothesis.

  \<open>pkAddress\<close> and \<open>pkVerify\<close> are the methods \<open>Address()\<close> and \<open>VerifySignature(msg, sig)\<close> of
  \<open>crypto.PubKey\<close>, whose \<open>Type()\<close> is a field here. \<open>stdTimeMarshal\<close> is \<open>StdTimeMarshalTo\<close> of the
  gogo/protobuf runtime, \<open>None\<close> its error on a year outside 1 to 9999. An instant is the integer
  number of nanoseconds since the zero value of \<open>time.Time\<close>.
\<close>

record PubKey =
  pk_type :: string
  pk_bytes :: bytes

record ext_env =
  pkAddress :: "PubKey \<Rightarrow> bytes"
  pkVerify :: "PubKey \<Rightarrow> bytes \<Rightarrow> bytes \<Rightarrow> bool"
  stdTimeMarshal :: "int \<Rightarrow> bytes option"

type_synonym timestamp = int

text \<open>What the code relies on: different instants have different encodings.\<close>

definition time_injective :: "ext_env \<Rightarrow> bool" where
  "time_injective ce \<longleftrightarrow>
     (\<forall>s t b. stdTimeMarshal ce s = Some b \<longrightarrow> stdTimeMarshal ce t = Some b \<longrightarrow> s = t)"

text \<open>An instance for the witnesses: addresses are the key bytes, a signature is the message with
  the key in front, an instant is written in unary.\<close>

definition demo_env :: ext_env where
  "demo_env = \<lparr>pkAddress = pk_bytes, pkVerify = (\<lambda>pk msg sig. sig = pk_bytes pk @ msg),
     stdTimeMarshal = (\<lambda>t. if t < 0 then None else Some (replicate (nat t) 1))\<rparr>"

lemma demo_env_time: "time_injective demo_env"
  by (auto simp: time_injective_def demo_env_def replicate_eq_replicate split: if_splits)

end
