(* ===== verification/Proto_Wire.thy ===== *)
theory Proto_Wire
  imports External
begin

text \<open>
  The protobuf encoding of the messages that are signed: \<open>proto/tendermint/types/canonical.pb.go\<close>,
  the marshalling of \<open>PartSetHeader\<close> in \<open>types.pb.go\<close>, and the length prefix of
  \<open>libs/protoio/writer.go\<close>. The generated code fills a buffer of the right size from the end; the
  definitions build the same bytes from the front. An optional field is written only when its
  value is not the default, and the tags of a message grow, which makes every encoding here
  uniquely readable.
\<close>

section \<open>Primitive fields\<close>

text \<open>\<open>encodeVarintCanonical\<close>, \<open>encodeVarintTypes\<close> and \<open>binary.PutUvarint\<close>.\<close>

fun varint :: "nat \<Rightarrow> bytes" where
  "varint v = (if v \<ge> 128 then word_of_nat (v mod 128 + 128) # varint (v div 128) else [word_of_nat v])"

declare varint.simps [simp del]

text \<open>\<open>uint64\<close> of a signed integer, and its little-endian bytes.\<close>

definition u64 :: "int \<Rightarrow> nat" where
  "u64 x = nat (x mod 2 ^ 64)"

fun le_bytes :: "nat \<Rightarrow> nat \<Rightarrow> bytes" where
  "le_bytes 0 v = []"
| "le_bytes (Suc k) v = word_of_nat (v mod 256) # le_bytes k (v div 256)"

definition pb_varint :: "8 word \<Rightarrow> nat \<Rightarrow> bytes" where
  "pb_varint tag v = (if v = 0 then [] else tag # varint v)"

definition pb_fixed64 :: "8 word \<Rightarrow> int \<Rightarrow> bytes" where
  "pb_fixed64 tag x = (if x = 0 then [] else tag # le_bytes 8 (u64 x))"

definition pb_msg :: "8 word \<Rightarrow> bytes \<Rightarrow> bytes" where
  "pb_msg tag bz = tag # varint (length bz) @ bz"

definition pb_bytes :: "8 word \<Rightarrow> bytes \<Rightarrow> bytes" where
  "pb_bytes tag bz = (if bz = [] then [] else pb_msg tag bz)"

definition MarshalDelimited :: "bytes \<Rightarrow> bytes" where
  "MarshalDelimited msg = varint (length msg) @ msg"

section \<open>Messages\<close>

record PartSetHeader =
  psh_Total :: nat
  psh_Hash :: bytes

record CanonicalBlockID =
  cbid_Hash :: bytes
  cbid_PartSetHeader :: PartSetHeader

record CanonicalVote =
  cv_Type :: int
  cv_Height :: int
  cv_Round :: int
  cv_BlockID :: "CanonicalBlockID option"
  cv_Timestamp :: timestamp
  cv_ChainID :: bytes

record CanonicalProposal =
  cp_Type :: int
  cp_Height :: int
  cp_Round :: int
  cp_POLRound :: int
  cp_BlockID :: "CanonicalBlockID option"
  cp_Timestamp :: timestamp
  cp_ChainID :: bytes

record CanonicalVoteExtension =
  ce_Extension :: bytes
  ce_Height :: int
  ce_Round :: int
  ce_ChainId :: bytes

definition PartSetHeader_Marshal :: "PartSetHeader \<Rightarrow> bytes" where
  "PartSetHeader_Marshal m = pb_varint 0x08 (psh_Total m) @ pb_bytes 0x12 (psh_Hash m)"

definition CanonicalBlockID_Marshal :: "CanonicalBlockID \<Rightarrow> bytes" where
  "CanonicalBlockID_Marshal m =
     pb_bytes 0x0a (cbid_Hash m) @ pb_msg 0x12 (PartSetHeader_Marshal (cbid_PartSetHeader m))"

definition pb_block_id :: "8 word \<Rightarrow> CanonicalBlockID option \<Rightarrow> bytes" where
  "pb_block_id tag b = (case b of None \<Rightarrow> [] | Some m \<Rightarrow> pb_msg tag (CanonicalBlockID_Marshal m))"

definition CanonicalVote_Marshal :: "ext_env \<Rightarrow> CanonicalVote \<Rightarrow> bytes option" where
  "CanonicalVote_Marshal ce m =
     do {
       t \<leftarrow> stdTimeMarshal ce (cv_Timestamp m);
       Some (pb_varint 0x08 (u64 (cv_Type m)) @ pb_fixed64 0x11 (cv_Height m) @
         pb_fixed64 0x19 (cv_Round m) @ pb_block_id 0x22 (cv_BlockID m) @
         pb_msg 0x2a t @ pb_bytes 0x32 (cv_ChainID m))
     }"

definition CanonicalProposal_Marshal :: "ext_env \<Rightarrow> CanonicalProposal \<Rightarrow> bytes option" where
  "CanonicalProposal_Marshal ce m =
     do {
       t \<leftarrow> stdTimeMarshal ce (cp_Timestamp m);
       Some (pb_varint 0x08 (u64 (cp_Type m)) @ pb_fixed64 0x11 (cp_Height m) @
         pb_fixed64 0x19 (cp_Round m) @ pb_varint 0x20 (u64 (cp_POLRound m)) @
         pb_block_id 0x2a (cp_BlockID m) @ pb_msg 0x32 t @ pb_bytes 0x3a (cp_ChainID m))
     }"

definition CanonicalVoteExtension_Marshal :: "CanonicalVoteExtension \<Rightarrow> bytes" where
  "CanonicalVoteExtension_Marshal m =
     pb_bytes 0x0a (ce_Extension m) @ pb_fixed64 0x11 (ce_Height m) @
     pb_fixed64 0x19 (ce_Round m) @ pb_bytes 0x22 (ce_ChainId m)"

section \<open>Unique readability\<close>

lemma byte_of_nat: "k < 256 \<Longrightarrow> unat (word_of_nat k :: 8 word) = k"
  by (simp add: unsigned_of_nat take_bit_eq_mod)

lemma byte_of_nat_inj: "(word_of_nat k :: 8 word) = word_of_nat l \<Longrightarrow> k < 256 \<Longrightarrow> l < 256 \<Longrightarrow> k = l"
  by (metis byte_of_nat)

lemma varint_Cons: "\<exists>b bs. varint v = b # bs"
  by (simp add: varint.simps)

lemma varint_inj: "varint v @ r = varint w @ s \<Longrightarrow> v = w \<and> r = s"
proof (induction v arbitrary: w rule: less_induct)
  case (less v)
  have u: "unat (word_of_nat k :: 8 word) = k" if "k < 256" for k
    using that by (rule byte_of_nat)
  have hi: "unat (word_of_nat (k mod 128 + 128) :: 8 word) = k mod 128 + 128" for k
    using pos_mod_bound [of 128 "int k"] by (intro u) (simp add: less_diff_conv [symmetric])
  show ?case
  proof (cases "v \<ge> 128")
    case True
    have "w \<ge> 128"
    proof (rule ccontr)
      assume "\<not> w \<ge> 128"
      then have "(word_of_nat (v mod 128 + 128) :: 8 word) = word_of_nat w"
        using less.prems True by (simp add: varint.simps [of v] varint.simps [of w])
      then have "v mod 128 + 128 = w" using hi [of v] u [of w] \<open>\<not> w \<ge> 128\<close> by simp
      then show False using \<open>\<not> w \<ge> 128\<close> by simp
    qed
    then have eq: "(word_of_nat (v mod 128 + 128) :: 8 word) = word_of_nat (w mod 128 + 128)"
      and rest: "varint (v div 128) @ r = varint (w div 128) @ s"
      using less.prems True by (simp_all add: varint.simps [of v] varint.simps [of w])
    have "v div 128 = w div 128 \<and> r = s" using less.IH [OF _ rest] True by simp
    moreover have "v mod 128 = w mod 128" using eq hi [of v] hi [of w] by simp
    ultimately show ?thesis by (metis div_mult_mod_eq)
  next
    case False
    have "\<not> w \<ge> 128"
    proof
      assume "w \<ge> 128"
      then have "(word_of_nat (w mod 128 + 128) :: 8 word) = word_of_nat v"
        using less.prems False by (simp add: varint.simps [of v] varint.simps [of w])
      then have "w mod 128 + 128 = v" using hi [of w] u [of v] False by simp
      then show False using False by simp
    qed
    then have "(word_of_nat v :: 8 word) = word_of_nat w \<and> r = s"
      using less.prems False unfolding varint.simps [of v] varint.simps [of w] by simp
    then show ?thesis using byte_of_nat_inj [of v w] False \<open>\<not> w \<ge> 128\<close> by simp
  qed
qed

lemma length_le_bytes [simp]: "length (le_bytes k v) = k"
  by (induction k arbitrary: v) auto

lemma le_bytes_inj: "le_bytes k v = le_bytes k w \<Longrightarrow> v < 256 ^ k \<Longrightarrow> w < 256 ^ k \<Longrightarrow> v = w"
proof (induction k arbitrary: v w)
  case 0
  then show ?case by simp
next
  case (Suc k)
  have "(word_of_nat (v mod 256) :: 8 word) = word_of_nat (w mod 256)"
    and rest: "le_bytes k (v div 256) = le_bytes k (w div 256)"
    using Suc.prems(1) by (simp_all only: le_bytes.simps list.inject)
  then have "v mod 256 = w mod 256" by (intro byte_of_nat_inj) simp_all
  moreover have "v div 256 < 256 ^ k" "w div 256 < 256 ^ k"
    using Suc.prems(2,3) by (simp_all add: less_mult_imp_div_less mult.commute)
  then have "v div 256 = w div 256" by (rule Suc.IH [OF rest])
  ultimately show ?case by (metis div_mult_mod_eq)
qed

lemma u64_inj: "in64 x \<Longrightarrow> in64 y \<Longrightarrow> u64 x = u64 y \<Longrightarrow> x = y"
proof -
  assume "in64 x" "in64 y" "u64 x = u64 y"
  then have "x mod 2 ^ 64 = y mod 2 ^ 64"
    unfolding u64_def by (subst (asm) eq_nat_nat_iff) simp_all
  then have "wrap64 x = wrap64 y" unfolding wrap64_def by (simp add: mod_add_cong)
  then show "x = y" using \<open>in64 x\<close> \<open>in64 y\<close> by simp
qed

lemma u64_0 [simp]: "u64 0 = 0"
  by (simp add: u64_def)

lemma u64_eq_0_iff: "in64 x \<Longrightarrow> u64 x = 0 \<longleftrightarrow> x = 0"
  using u64_inj [of x 0] by (auto simp: in64_def)

lemma u64_less: "u64 x < 256 ^ 8"
  by (simp add: u64_def)

text \<open>What follows a field has a bigger tag, or there is nothing.\<close>

definition above :: "8 word \<Rightarrow> bytes \<Rightarrow> bool" where
  "above tag r \<longleftrightarrow> r = [] \<or> tag < hd r"

lemma above_simps [simp]:
  "above t []"
  "t < t' \<Longrightarrow> above t (t' # r)"
  "t < t' \<Longrightarrow> above t (pb_msg t' bz @ r)"
  "t < t' \<Longrightarrow> above t (pb_varint t' v @ r) \<longleftrightarrow> v \<noteq> 0 \<or> above t r"
  "t < t' \<Longrightarrow> above t (pb_fixed64 t' x @ r) \<longleftrightarrow> x \<noteq> 0 \<or> above t r"
  "t < t' \<Longrightarrow> above t (pb_bytes t' bz @ r) \<longleftrightarrow> bz \<noteq> [] \<or> above t r"
  "t < t' \<Longrightarrow> above t (pb_bytes t' bz)"
  "t < t' \<Longrightarrow> above t (pb_block_id t' b @ r) \<longleftrightarrow> b \<noteq> None \<or> above t r"
  by (auto simp: above_def pb_msg_def pb_varint_def pb_fixed64_def pb_bytes_def pb_block_id_def
      split: option.splits)

lemma pb_msg_inj: "pb_msg t a @ r = pb_msg t b @ s \<Longrightarrow> a = b \<and> r = s"
  using varint_inj [of "length a" "a @ r" "length b" "b @ s"] by (auto simp: pb_msg_def)

lemma above_conflict: "above t r \<Longrightarrow> t # x \<noteq> r"
  by (auto simp: above_def)

lemma pb_varint_inj:
  "pb_varint t v @ r = pb_varint t w @ s \<Longrightarrow> above t r \<Longrightarrow> above t s \<Longrightarrow> v = w \<and> r = s"
  using varint_inj [of v r w s] by (auto simp: pb_varint_def above_def split: if_splits)

lemma pb_fixed64_inj:
  assumes "pb_fixed64 t x @ r = pb_fixed64 t y @ s" and "above t r" and "above t s" and "in64 x" and "in64 y"
  shows "x = y \<and> r = s"
  using assms le_bytes_inj [of 8 "u64 x" "u64 y"] u64_less u64_inj [of x y]
  by (auto simp: pb_fixed64_def above_def split: if_splits)

lemma pb_bytes_inj:
  "pb_bytes t a @ r = pb_bytes t b @ s \<Longrightarrow> above t r \<Longrightarrow> above t s \<Longrightarrow> a = b \<and> r = s"
  using pb_msg_inj [of t a r b s] by (auto simp: pb_bytes_def pb_msg_def above_def split: if_splits)

lemma PartSetHeader_Marshal_inj: "PartSetHeader_Marshal m = PartSetHeader_Marshal m' \<Longrightarrow> m = m'"
proof -
  assume eq: "PartSetHeader_Marshal m = PartSetHeader_Marshal m'"
  then have *: "psh_Total m = psh_Total m' \<and> pb_bytes 0x12 (psh_Hash m) = pb_bytes 0x12 (psh_Hash m')"
    unfolding PartSetHeader_Marshal_def by (rule pb_varint_inj) simp_all
  then have "psh_Hash m = psh_Hash m'" using pb_bytes_inj [of "0x12" "psh_Hash m" "[]" "psh_Hash m'" "[]"] by simp
  with * show ?thesis by simp
qed

lemma CanonicalBlockID_Marshal_inj: "CanonicalBlockID_Marshal m = CanonicalBlockID_Marshal m' \<Longrightarrow> m = m'"
proof -
  let ?p = "\<lambda>m. pb_msg 0x12 (PartSetHeader_Marshal (cbid_PartSetHeader m))"
  assume "CanonicalBlockID_Marshal m = CanonicalBlockID_Marshal m'"
  then have *: "cbid_Hash m = cbid_Hash m' \<and> ?p m = ?p m'"
    unfolding CanonicalBlockID_Marshal_def
    by (rule pb_bytes_inj) (simp_all add: above_def pb_msg_def)
  then have "PartSetHeader_Marshal (cbid_PartSetHeader m) = PartSetHeader_Marshal (cbid_PartSetHeader m')"
    using pb_msg_inj [of "0x12" _ "[]" _ "[]"] by auto
  with * show ?thesis by (auto dest: PartSetHeader_Marshal_inj)
qed

lemma pb_block_id_inj:
  "pb_block_id t a @ r = pb_block_id t b @ s \<Longrightarrow> above t r \<Longrightarrow> above t s \<Longrightarrow> a = b \<and> r = s"
  by (cases a; cases b)
     (auto simp: pb_block_id_def above_def pb_msg_def [of t "CanonicalBlockID_Marshal _"]
       dest!: pb_msg_inj [unfolded pb_msg_def, simplified] CanonicalBlockID_Marshal_inj)

lemma MarshalDelimited_inj: "MarshalDelimited a = MarshalDelimited b \<Longrightarrow> a = b"
  using varint_inj [of "length a" a "length b" b] by (simp add: MarshalDelimited_def)

text \<open>The numeric fields hold values of their Go types.\<close>

definition cv_range :: "CanonicalVote \<Rightarrow> bool" where
  "cv_range m \<longleftrightarrow> in64 (cv_Type m) \<and> in64 (cv_Height m) \<and> in64 (cv_Round m)"

definition ce_range :: "CanonicalVoteExtension \<Rightarrow> bool" where
  "ce_range m \<longleftrightarrow> in64 (ce_Height m) \<and> in64 (ce_Round m)"

lemma CanonicalVote_Marshal_inj:
  assumes "time_injective ce" and "cv_range m" and "cv_range m'"
    and "CanonicalVote_Marshal ce m = Some b" and "CanonicalVote_Marshal ce m' = Some b"
  shows "m = m'"
proof -
  obtain t t' where t: "stdTimeMarshal ce (cv_Timestamp m) = Some t" "stdTimeMarshal ce (cv_Timestamp m') = Some t'"
    using assms(4,5) by (auto simp: CanonicalVote_Marshal_def split: bind_splits)
  let ?tail = "\<lambda>t m. pb_msg 0x2a t @ pb_bytes 0x32 (cv_ChainID m)"
  let ?blk = "\<lambda>t m. pb_block_id 0x22 (cv_BlockID m) @ ?tail t m"
  let ?rnd = "\<lambda>t m. pb_fixed64 0x19 (cv_Round m) @ ?blk t m"
  let ?hgt = "\<lambda>t m. pb_fixed64 0x11 (cv_Height m) @ ?rnd t m"
  have "pb_varint 0x08 (u64 (cv_Type m)) @ ?hgt t m = pb_varint 0x08 (u64 (cv_Type m')) @ ?hgt t' m'"
    using assms(4,5) t by (auto simp: CanonicalVote_Marshal_def)
  then have 1: "u64 (cv_Type m) = u64 (cv_Type m') \<and> ?hgt t m = ?hgt t' m'"
    by (rule pb_varint_inj) simp_all
  then have 2: "cv_Height m = cv_Height m' \<and> ?rnd t m = ?rnd t' m'"
    using assms(2,3) by (intro pb_fixed64_inj) (auto simp: cv_range_def)
  then have 3: "cv_Round m = cv_Round m' \<and> ?blk t m = ?blk t' m'"
    using assms(2,3) by (intro pb_fixed64_inj) (auto simp: cv_range_def)
  then have 4: "cv_BlockID m = cv_BlockID m' \<and> ?tail t m = ?tail t' m'"
    by (intro pb_block_id_inj) auto
  then have 5: "t = t' \<and> pb_bytes 0x32 (cv_ChainID m) = pb_bytes 0x32 (cv_ChainID m')"
    by (intro pb_msg_inj) auto
  then have "cv_ChainID m = cv_ChainID m'" using pb_bytes_inj [of "0x32" _ "[]" _ "[]"] by simp
  moreover have "cv_Type m = cv_Type m'" using 1 u64_inj assms(2,3) by (auto simp: cv_range_def)
  moreover have "cv_Timestamp m = cv_Timestamp m'"
    using t 5 assms(1) unfolding time_injective_def by blast
  ultimately show ?thesis using 2 3 4 by simp
qed

lemma CanonicalVoteExtension_Marshal_inj:
  assumes "ce_range m" and "ce_range m'"
    and "CanonicalVoteExtension_Marshal m = CanonicalVoteExtension_Marshal m'"
  shows "m = m'"
proof -
  let ?rnd = "\<lambda>m. pb_fixed64 0x19 (ce_Round m) @ pb_bytes 0x22 (ce_ChainId m)"
  let ?hgt = "\<lambda>m. pb_fixed64 0x11 (ce_Height m) @ ?rnd m"
  have "ce_Extension m = ce_Extension m' \<and> ?hgt m = ?hgt m'"
    using assms(3) unfolding CanonicalVoteExtension_Marshal_def by (rule pb_bytes_inj) simp_all
  moreover from this have "ce_Height m = ce_Height m' \<and> ?rnd m = ?rnd m'"
    using assms(1,2) by (intro pb_fixed64_inj) (auto simp: ce_range_def)
  moreover from this have "ce_Round m = ce_Round m' \<and> pb_bytes 0x22 (ce_ChainId m) = pb_bytes 0x22 (ce_ChainId m')"
    using assms(1,2) by (intro pb_fixed64_inj) (auto simp: ce_range_def)
  moreover from this have "ce_ChainId m = ce_ChainId m'" using pb_bytes_inj [of "0x22" _ "[]" _ "[]"] by simp
  ultimately show ?thesis by simp
qed

text \<open>Messages of different kinds never have the same encoding: the first field tells them apart.\<close>

lemma vote_proposal_Marshal:
  assumes "CanonicalVote_Marshal ce m = Some b" and "CanonicalProposal_Marshal ce p = Some b"
    and "in64 (cv_Type m)" and "in64 (cp_Type p)"
  shows "cv_Type m = cp_Type p"
proof -
  obtain t t' where t: "stdTimeMarshal ce (cv_Timestamp m) = Some t" "stdTimeMarshal ce (cp_Timestamp p) = Some t'"
    using assms(1,2) by (auto simp: CanonicalVote_Marshal_def CanonicalProposal_Marshal_def split: bind_splits)
  then have "pb_varint 0x08 (u64 (cv_Type m)) @ pb_fixed64 0x11 (cv_Height m) @
         pb_fixed64 0x19 (cv_Round m) @ pb_block_id 0x22 (cv_BlockID m) @
         pb_msg 0x2a t @ pb_bytes 0x32 (cv_ChainID m)
     = pb_varint 0x08 (u64 (cp_Type p)) @ pb_fixed64 0x11 (cp_Height p) @
         pb_fixed64 0x19 (cp_Round p) @ pb_varint 0x20 (u64 (cp_POLRound p)) @
         pb_block_id 0x2a (cp_BlockID p) @ pb_msg 0x32 t' @ pb_bytes 0x3a (cp_ChainID p)"
    using assms(1,2) by (simp add: CanonicalVote_Marshal_def CanonicalProposal_Marshal_def)
  then have "u64 (cv_Type m) = u64 (cp_Type p)" by (intro pb_varint_inj [THEN conjunct1]) auto
  then show ?thesis using u64_inj assms(3,4) by blast
qed

lemma vote_extension_Marshal:
  assumes "CanonicalVote_Marshal ce m = Some b" and "in64 (cv_Type m)" and "cv_Type m \<noteq> 0"
  shows "b \<noteq> CanonicalVoteExtension_Marshal e"
proof -
  have "above 0x08 (CanonicalVoteExtension_Marshal e)" by (simp add: CanonicalVoteExtension_Marshal_def)
  moreover obtain r where "b = 0x08 # r"
    using assms u64_eq_0_iff [of "cv_Type m"]
    by (auto simp: CanonicalVote_Marshal_def pb_varint_def split: bind_splits)
  then have "\<not> above 0x08 b" by (simp add: above_def)
  ultimately show ?thesis by metis
qed

end
