(* ===== verification/Safe_Math.thy ===== *)
theory Safe_Math
  imports Prelude
begin

text \<open>
  The checked arithmetic of the engine: \<open>libs/math/safemath.go\<close>, \<open>libs/math/math.go\<close>, the
  fractions of \<open>libs/math/fraction.go\<close>, and the clipping helpers at the end of
  \<open>types/validator_set.go\<close>. Every comparison is written with the machine operation the code
  performs, so that the lemmas also say that the guards themselves do not overflow.
\<close>

section \<open>libs/math\<close>

datatype math_error = ErrOverflowInt32 | ErrOverflowUint8 | ErrOverflowInt8

definition SafeAddInt32 :: "int \<Rightarrow> int \<Rightarrow> int option" where
  "SafeAddInt32 a b =
     (if b > 0 \<and> a > wrap32 (MaxInt32 - b) then None
      else if b < 0 \<and> a < wrap32 (MinInt32 - b) then None
      else Some (wrap32 (a + b)))"

definition SafeSubInt32 :: "int \<Rightarrow> int \<Rightarrow> int option" where
  "SafeSubInt32 a b =
     (if b > 0 \<and> a < wrap32 (MinInt32 + b) then None
      else if b < 0 \<and> a > wrap32 (MaxInt32 + b) then None
      else Some (wrap32 (a - b)))"

definition SafeConvertInt32 :: "int \<Rightarrow> int option" where
  "SafeConvertInt32 a =
     (if a > MaxInt32 then None else if a < MinInt32 then None else Some (wrap32 a))"

definition SafeConvertUint8 :: "int \<Rightarrow> math_error + int" where
  "SafeConvertUint8 a =
     (if a > 255 then Inl ErrOverflowUint8
      else if a < 0 then Inl ErrOverflowUint8
      else Inr (a mod 256))"

definition SafeConvertInt8 :: "int \<Rightarrow> math_error + int" where
  "SafeConvertInt8 a =
     (if a > 127 then Inl ErrOverflowInt8
      else if a < - 128 then Inl ErrOverflowInt8
      else Inr ((a + 128) mod 256 - 128))"

definition MaxInt :: "int \<Rightarrow> int \<Rightarrow> int" where
  "MaxInt a b = (if a > b then a else b)"

definition MinInt :: "int \<Rightarrow> int \<Rightarrow> int" where
  "MinInt a b = (if a < b then a else b)"

section \<open>Fractions\<close>

record Fraction =
  Numerator :: nat
  Denominator :: nat

datatype fraction_error = FractionFormat | FractionZeroDenominator | FractionOverflow

fun show_nat :: "nat \<Rightarrow> string" where
  "show_nat n = (if n < 10 then [char_of (48 + n)] else show_nat (n div 10) @ [char_of (48 + n mod 10)])"

declare show_nat.simps [simp del]

definition Fraction_String :: "Fraction \<Rightarrow> string" where
  "Fraction_String fr = show_nat (Numerator fr) @ ''/'' @ show_nat (Denominator fr)"

text \<open>\<open>strings.Split\<close> at one separator character.\<close>

fun split_char :: "char \<Rightarrow> string \<Rightarrow> string list" where
  "split_char sep [] = [[]]"
| "split_char sep (c # cs) =
     (if c = sep then [] # split_char sep cs
      else (case split_char sep cs of [] \<Rightarrow> [[c]] | w # ws \<Rightarrow> (c # w) # ws))"

definition is_digit_char :: "char \<Rightarrow> bool" where
  "is_digit_char c \<longleftrightarrow> 48 \<le> (of_char c :: nat) \<and> (of_char c :: nat) \<le> 57"

definition dec_val :: "string \<Rightarrow> nat" where
  "dec_val cs = foldl (\<lambda>n c. 10 * n + (of_char c - 48)) 0 cs"

text \<open>\<open>strconv.ParseUint(s, 10, 64)\<close>.\<close>

definition ParseUint64 :: "string \<Rightarrow> nat option" where
  "ParseUint64 s =
     (if s = [] \<or> \<not> list_all is_digit_char s then None
      else if dec_val s \<ge> 2 ^ 64 then None
      else Some (dec_val s))"

definition ParseFraction :: "string \<Rightarrow> fraction_error + Fraction" where
  "ParseFraction f =
     (let parts = split_char CHR ''/'' f
      in if length parts \<noteq> 2 then Inl FractionFormat
         else (case ParseUint64 (parts ! 0) of
             None \<Rightarrow> Inl FractionFormat
           | Some num \<Rightarrow>
             (case ParseUint64 (parts ! 1) of
                None \<Rightarrow> Inl FractionFormat
              | Some den \<Rightarrow>
                if den = 0 then Inl FractionZeroDenominator
                else if int num > MaxInt64 \<or> int den > MaxInt64 then Inl FractionOverflow
                else Inr \<lparr>Numerator = num, Denominator = den\<rparr>)))"

section \<open>The int64 helpers of types/validator\_set.go\<close>

definition safeAdd :: "int \<Rightarrow> int \<Rightarrow> int \<times> bool" where
  "safeAdd a b =
     (if b > 0 \<and> a > wrap64 (MaxInt64 - b) then (-1, True)
      else if b < 0 \<and> a < wrap64 (MinInt64 - b) then (-1, True)
      else (wrap64 (a + b), False))"

definition safeSub :: "int \<Rightarrow> int \<Rightarrow> int \<times> bool" where
  "safeSub a b =
     (if b > 0 \<and> a < wrap64 (MinInt64 + b) then (-1, True)
      else if b < 0 \<and> a > wrap64 (MaxInt64 + b) then (-1, True)
      else (wrap64 (a - b), False))"

definition safeAddClip :: "int \<Rightarrow> int \<Rightarrow> int" where
  "safeAddClip a b =
     (case safeAdd a b of (c, overflow) \<Rightarrow>
        if overflow then (if b < 0 then MinInt64 else MaxInt64) else c)"

definition safeSubClip :: "int \<Rightarrow> int \<Rightarrow> int" where
  "safeSubClip a b =
     (case safeSub a b of (c, overflow) \<Rightarrow>
        if overflow then (if b > 0 then MinInt64 else MaxInt64) else c)"

definition safeMul :: "int \<Rightarrow> int \<Rightarrow> int \<times> bool" where
  "safeMul a b =
     (if a = 0 \<or> b = 0 then (0, False)
      else let absOfB = (if b < 0 then wrap64 (- b) else b);
               absOfA = (if a < 0 then wrap64 (- a) else a)
           in if absOfA > MaxInt64 sdiv absOfB then (0, True)
              else (wrap64 (a * b), False))"

text \<open>The reference: saturation at the ends of the range.\<close>

definition clip64 :: "int \<Rightarrow> int" where
  "clip64 x = max MinInt64 (min MaxInt64 x)"

section \<open>Lemmas\<close>

lemma safeAdd_spec:
  assumes "in64 a" and "in64 b"
  shows "safeAdd a b = (if in64 (a + b) then (a + b, False) else (-1, True))"
proof -
  have 1: "b > 0 \<Longrightarrow> wrap64 (MaxInt64 - b) = MaxInt64 - b"
    using assms by (intro wrap64_id) (simp add: in64_def)
  have 2: "b < 0 \<Longrightarrow> wrap64 (MinInt64 - b) = MinInt64 - b"
    using assms by (intro wrap64_id) (simp add: in64_def)
  show ?thesis
    using assms by (auto simp: safeAdd_def 1 2 in64_def)
qed

lemma safeSub_spec:
  assumes "in64 a" and "in64 b"
  shows "safeSub a b = (if in64 (a - b) then (a - b, False) else (-1, True))"
proof -
  have 1: "b > 0 \<Longrightarrow> wrap64 (MinInt64 + b) = MinInt64 + b"
    using assms by (intro wrap64_id) (simp add: in64_def)
  have 2: "b < 0 \<Longrightarrow> wrap64 (MaxInt64 + b) = MaxInt64 + b"
    using assms by (intro wrap64_id) (simp add: in64_def)
  show ?thesis
    using assms by (auto simp: safeSub_def 1 2 in64_def)
qed

lemma safeAddClip_clip [int_range]: "in64 a \<Longrightarrow> in64 b \<Longrightarrow> safeAddClip a b = clip64 (a + b)"
  by (auto simp: safeAddClip_def safeAdd_spec clip64_def in64_def)

lemma safeSubClip_clip [int_range]: "in64 a \<Longrightarrow> in64 b \<Longrightarrow> safeSubClip a b = clip64 (a - b)"
  by (auto simp: safeSubClip_def safeSub_spec clip64_def in64_def)

lemma clip64_id [simp]: "in64 x \<Longrightarrow> clip64 x = x"
  by (simp add: clip64_def in64_def)

lemma in64_clip64 [simp]: "in64 (clip64 x)"
  by (auto simp: clip64_def in64_def)

lemma in64_safeAddClip [simp]: "in64 (safeAddClip a b)"
  by (auto simp: safeAddClip_def safeAdd_def in64_def [of MinInt64] in64_def [of MaxInt64])

lemma in64_safeSubClip [simp]: "in64 (safeSubClip a b)"
  by (auto simp: safeSubClip_def safeSub_def in64_def [of MinInt64] in64_def [of MaxInt64])

lemma MaxInt_eq [simp]: "MaxInt a b = max a b"
  by (simp add: MaxInt_def)

lemma MinInt_eq [simp]: "MinInt a b = min a b"
  by (simp add: MinInt_def)

lemma le_div_iff_mult_le:
  fixes a b m :: int
  assumes "0 < b"
  shows "a \<le> m div b \<longleftrightarrow> a * b \<le> m"
proof
  assume "a \<le> m div b"
  then have "a * b \<le> (m div b) * b"
    using assms by (simp add: mult_right_mono)
  also have "\<dots> \<le> m"
    using assms by (simp add: minus_mod_eq_div_mult [symmetric])
  finally show "a * b \<le> m" .
next
  assume "a * b \<le> m"
  then have "(a * b) div b \<le> m div b"
    using assms by (intro zdiv_mono1) auto
  then show "a \<le> m div b" using assms by simp
qed

lemma safeMul_spec:
  assumes "in64 a" and "in64 b" and "a \<noteq> MinInt64" and "b \<noteq> MinInt64"
  shows "safeMul a b = (if \<bar>a * b\<bar> \<le> MaxInt64 then (a * b, False) else (0, True))"
proof (cases "a = 0 \<or> b = 0")
  case True
  then show ?thesis by (auto simp: safeMul_def)
next
  case False
  have absA: "(if a < 0 then wrap64 (- a) else a) = \<bar>a\<bar>"
    using assms by (auto simp: in64_def)
  have absB: "(if b < 0 then wrap64 (- b) else b) = \<bar>b\<bar>"
    using assms by (auto simp: in64_def)
  have "\<bar>a\<bar> > MaxInt64 sdiv \<bar>b\<bar> \<longleftrightarrow> \<not> \<bar>a * b\<bar> \<le> MaxInt64"
    using False by (simp add: sdiv_nonneg not_less le_div_iff_mult_le abs_mult not_le [symmetric])
  moreover have "\<bar>a * b\<bar> \<le> MaxInt64 \<Longrightarrow> wrap64 (a * b) = a * b"
    by (intro wrap64_id) (auto simp: in64_def)
  ultimately show ?thesis
    using False by (simp add: safeMul_def absA absB Let_def)
qed

section \<open>Printing and parsing fractions\<close>

lemma split_char_notin: "sep \<notin> set cs \<Longrightarrow> split_char sep cs = [cs]"
  by (induction cs) auto

lemma split_char_once:
  "sep \<notin> set cs \<Longrightarrow> split_char sep (cs @ sep # ds) = cs # split_char sep ds"
  by (induction cs) auto

lemma show_nat_digits: "list_all is_digit_char (show_nat n) \<and> show_nat n \<noteq> []"
proof (induction n rule: show_nat.induct)
  case (1 n)
  show ?case
  proof (cases "n < 10")
    case True
    then show ?thesis by (simp add: show_nat.simps [of n] is_digit_char_def)
  next
    case False
    with "1.IH" show ?thesis by (simp add: show_nat.simps [of n] is_digit_char_def)
  qed
qed

lemma dec_val_snoc: "dec_val (cs @ [c]) = 10 * dec_val cs + (of_char c - 48)"
  by (simp add: dec_val_def)

lemma dec_val_show_nat: "dec_val (show_nat n) = n"
proof (induction n rule: show_nat.induct)
  case (1 n)
  show ?case
  proof (cases "n < 10")
    case True
    then show ?thesis by (simp add: show_nat.simps [of n] dec_val_def)
  next
    case False
    with "1.IH" show ?thesis by (simp add: show_nat.simps [of n] dec_val_snoc)
  qed
qed

lemma slash_notin_show_nat: "CHR ''/'' \<notin> set (show_nat n)"
  using show_nat_digits [of n] by (auto simp: list_all_iff is_digit_char_def)

lemma ParseUint64_show_nat: "n < 2 ^ 64 \<Longrightarrow> ParseUint64 (show_nat n) = Some n"
  using show_nat_digits [of n] by (simp add: ParseUint64_def dec_val_show_nat)

lemma ParseFraction_print:
  assumes "0 < d" and "int n \<le> MaxInt64" and "int d \<le> MaxInt64"
  shows "ParseFraction (Fraction_String \<lparr>Numerator = n, Denominator = d\<rparr>) =
    Inr \<lparr>Numerator = n, Denominator = d\<rparr>"
proof -
  have "split_char CHR ''/'' (show_nat n @ ''/'' @ show_nat d) = [show_nat n, show_nat d]"
    using slash_notin_show_nat [of n] slash_notin_show_nat [of d]
    by (simp add: split_char_once split_char_notin)
  moreover have "n < 2 ^ 64" "d < 2 ^ 64" using assms(2,3) by auto
  ultimately show ?thesis
    using assms by (simp add: ParseFraction_def Fraction_String_def ParseUint64_show_nat Let_def)
qed

lemma ParseFraction_range:
  assumes "ParseFraction s = Inr f"
  shows "0 < Denominator f" and "int (Numerator f) \<le> MaxInt64" and "int (Denominator f) \<le> MaxInt64"
  using assms by (auto simp: ParseFraction_def Let_def split: if_splits option.splits)

section \<open>Properties\<close>

text \<open>On 32-bit arguments \<open>SafeAddInt32\<close> and \<open>SafeSubInt32\<close> return the exact result, or panic
  precisely when it is outside the range; the guards themselves do not wrap.\<close>

theorem SafeAddSubInt32_exact:
  assumes "in32 a" and "in32 b"
  shows "SafeAddInt32 a b = (if in32 (a + b) then Some (a + b) else None) \<and>
     SafeSubInt32 a b = (if in32 (a - b) then Some (a - b) else None)"
proof -
  have "b > 0 \<Longrightarrow> wrap32 (MaxInt32 - b) = MaxInt32 - b" "b < 0 \<Longrightarrow> wrap32 (MinInt32 - b) = MinInt32 - b"
    "b > 0 \<Longrightarrow> wrap32 (MinInt32 + b) = MinInt32 + b" "b < 0 \<Longrightarrow> wrap32 (MaxInt32 + b) = MaxInt32 + b"
    using assms by (intro wrap32_id; simp add: in32_def)+
  then show ?thesis using assms by (auto simp: SafeAddInt32_def SafeSubInt32_def in32_def)
qed

theorem SafeAddSubInt32_exact_witness:
  "SafeAddInt32 2147483647 1 = None \<and> SafeSubInt32 5 7 = Some (- 2)"
  using SafeAddSubInt32_exact [of 2147483647 1] SafeAddSubInt32_exact [of 5 7] by (simp add: in32_def)

text \<open>C33. The clipping additions saturate: on 64-bit arguments they return the exact sum or
  difference cut to the range. The checked product is exact or reports an overflow, whenever
  neither factor is the smallest integer.\<close>

theorem clipped_arithmetic:
  assumes "in64 a" and "in64 b"
  shows "safeAddClip a b = clip64 (a + b) \<and> safeSubClip a b = clip64 (a - b) \<and>
     (a \<noteq> MinInt64 \<longrightarrow> b \<noteq> MinInt64 \<longrightarrow>
        safeMul a b = (if \<bar>a * b\<bar> \<le> MaxInt64 then (a * b, False) else (0, True)))"
  using assms by (simp add: safeAddClip_clip safeSubClip_clip safeMul_spec)

theorem clipped_arithmetic_witness:
  "safeAddClip MaxInt64 5 = MaxInt64 \<and> safeSubClip MinInt64 5 = MinInt64 \<and>
   safeMul MaxInt64 2 = (0, True) \<and> safeMul 6 (- 7) = (- 42, False)"
  using clipped_arithmetic [of MaxInt64 5] clipped_arithmetic [of MinInt64 5]
    clipped_arithmetic [of MaxInt64 2] clipped_arithmetic [of 6 "- 7"]
  by (simp add: in64_def clip64_def)


text \<open>C35. Printing a fraction and parsing the text gives the fraction back, for every fraction the
  parser accepts; in particular a parsed fraction has a positive denominator and both parts fit
  in an \<open>int64\<close>.\<close>

theorem ParseFraction_roundtrip:
  assumes "ParseFraction s = Inr f"
  shows "ParseFraction (Fraction_String f) = Inr f \<and> 0 < Denominator f \<and>
     int (Numerator f) \<le> MaxInt64 \<and> int (Denominator f) \<le> MaxInt64"
  using ParseFraction_range [OF assms] ParseFraction_print [of "Denominator f" "Numerator f"]
  by (cases f) simp

theorem ParseFraction_roundtrip_witness:
  "ParseFraction (Fraction_String \<lparr>Numerator = 1, Denominator = 3\<rparr>) = Inr \<lparr>Numerator = 1, Denominator = 3\<rparr>"
proof -
  have "ParseFraction ''01/3'' = Inr \<lparr>Numerator = 1, Denominator = 3\<rparr>"
    by (simp add: ParseFraction_def ParseUint64_def dec_val_def is_digit_char_def)
  from ParseFraction_roundtrip [OF this] show ?thesis by simp
qed

end
