(* ===== verification/Validator_Set.thy ===== *)
theory Validator_Set
  imports Safe_Math External "HOL-Library.Multiset"
begin

text \<open>
  \<open>types/validator.go\<close> and \<open>types/validator_set.go\<close>: the validators of a height, their voting
  powers and proposer priorities, the rotation of the proposer and the update of the set by a
  list of changes.

  The Go code keeps pointers to validators; a slice of pointers is a list of values here, and the
  functions that hand out a pointer in order to write through it (\<open>getValWithMostPriority\<close>) hand
  out the index. \<open>Proposer\<close> holds the value of the validator at the moment it was chosen. The
  methods that fill the cache \<open>totalVotingPower\<close> return the set with the cache filled.

  Public keys are opaque: their \<open>Address()\<close> and signature verification come from \<open>ext_env\<close>.
\<close>

section \<open>Validators\<close>

record Validator =
  Address :: bytes
  val_PubKey :: "PubKey option"
  VotingPower :: int
  ProposerPriority :: int

datatype validator_error =
    NilValidator | NoPublicKey | NegativeVotingPower | WrongAddress

definition NewValidator :: "ext_env \<Rightarrow> PubKey \<Rightarrow> int \<Rightarrow> Validator" where
  "NewValidator ce pubKey votingPower =
     \<lparr>Address = pkAddress ce pubKey, val_PubKey = Some pubKey,
      VotingPower = votingPower, ProposerPriority = 0\<rparr>"

definition Validator_ValidateBasic ::
    "ext_env \<Rightarrow> Validator option \<Rightarrow> validator_error option" where
  "Validator_ValidateBasic ce p =
     (case p of
        None \<Rightarrow> Some NilValidator
      | Some v \<Rightarrow>
          (case val_PubKey v of
             None \<Rightarrow> Some NoPublicKey
           | Some pk \<Rightarrow>
               if VotingPower v < 0 then Some NegativeVotingPower
               else if Address v \<noteq> pkAddress ce pk then Some WrongAddress
               else None))"

text \<open>
  \<open>CompareProposerPriority\<close> returns one of its two arguments: \<open>Some True\<close> is the receiver,
  \<open>Some False\<close> the argument, \<open>None\<close> the panic on identical validators.
\<close>

definition CompareProposerPriority :: "Validator option \<Rightarrow> Validator \<Rightarrow> bool option" where
  "CompareProposerPriority p other =
     (case p of
        None \<Rightarrow> Some False
      | Some v \<Rightarrow>
          if ProposerPriority v > ProposerPriority other then Some True
          else if ProposerPriority v < ProposerPriority other then Some False
          else let result = bytes_Compare (Address v) (Address other)
               in if result < 0 then Some True
                  else if result > 0 then Some False
                  else None)"

section \<open>Validator sets\<close>

definition MaxTotalVotingPower :: int where
  "MaxTotalVotingPower = MaxInt64 sdiv 8"

definition PriorityWindowSizeFactor :: int where
  "PriorityWindowSizeFactor = 2"

record ValidatorSet =
  Validators :: "Validator list"
  Proposer :: "Validator option"
  totalVotingPower :: int
  allKeysHaveSameType :: bool

datatype valset_error =
    DuplicateEntry | NegativePower | PowerTooHigh | DeletesNotAllowed | EmptyResult
  | RemovalNotFound | ErrTotalVotingPowerOverflow
  | SetNilOrEmpty | InvalidValidator nat validator_error | InvalidProposer validator_error
  | ErrProposerNotInVals

definition IsNilOrEmpty :: "ValidatorSet \<Rightarrow> bool" where
  "IsNilOrEmpty vals \<longleftrightarrow> Validators vals = []"

fun first_invalid :: "ext_env \<Rightarrow> Validator list \<Rightarrow> nat \<Rightarrow> (nat \<times> validator_error) option" where
  "first_invalid ce [] idx = None"
| "first_invalid ce (v # vs) idx =
     (case Validator_ValidateBasic ce (Some v) of
        Some e \<Rightarrow> Some (idx, e)
      | None \<Rightarrow> first_invalid ce vs (Suc idx))"

definition ValidatorSet_ValidateBasic :: "ext_env \<Rightarrow> ValidatorSet \<Rightarrow> valset_error option" where
  "ValidatorSet_ValidateBasic ce vals =
     (if IsNilOrEmpty vals then Some SetNilOrEmpty
      else case first_invalid ce (Validators vals) 0 of
        Some (idx, e) \<Rightarrow> Some (InvalidValidator idx e)
      | None \<Rightarrow>
          (case Validator_ValidateBasic ce (Proposer vals) of
             Some e \<Rightarrow> Some (InvalidProposer e)
           | None \<Rightarrow>
               if list_ex (\<lambda>v. Some (Address v) = map_option Address (Proposer vals)) (Validators vals)
               then None else Some ErrProposerNotInVals))"

subsection \<open>Total voting power\<close>

fun sum_powers :: "Validator list \<Rightarrow> int \<Rightarrow> int option" where
  "sum_powers [] acc = Some acc"
| "sum_powers (v # vs) acc =
     (let acc' = safeAddClip acc (VotingPower v)
      in if acc' > MaxTotalVotingPower then None else sum_powers vs acc')"

definition updateTotalVotingPower :: "ValidatorSet \<Rightarrow> ValidatorSet option" where
  "updateTotalVotingPower vals =
     do { total \<leftarrow> sum_powers (Validators vals) 0; Some (vals\<lparr>totalVotingPower := total\<rparr>) }"

definition TotalVotingPower :: "ValidatorSet \<Rightarrow> (ValidatorSet \<times> int) option" where
  "TotalVotingPower vals =
     do {
       vals' \<leftarrow> (if totalVotingPower vals = 0 then updateTotalVotingPower vals else Some vals);
       Some (vals', totalVotingPower vals')
     }"

subsection \<open>Lookup\<close>

definition HasAddress :: "ValidatorSet \<Rightarrow> bytes \<Rightarrow> bool" where
  "HasAddress vals address = list_ex (\<lambda>v. Address v = address) (Validators vals)"

fun get_by_address :: "Validator list \<Rightarrow> int \<Rightarrow> bytes \<Rightarrow> int \<times> Validator option" where
  "get_by_address [] idx address = (-1, None)"
| "get_by_address (v # vs) idx address =
     (if Address v = address then (wrap32 idx, Some v) else get_by_address vs (idx + 1) address)"

definition GetByAddress :: "ValidatorSet \<Rightarrow> bytes \<Rightarrow> int \<times> Validator option" where
  "GetByAddress vals address = get_by_address (Validators vals) 0 address"

definition GetByIndex :: "ValidatorSet \<Rightarrow> int \<Rightarrow> bytes \<times> Validator option" where
  "GetByIndex vals index =
     (if index < 0 \<or> index \<ge> int (length (Validators vals)) then ([], None)
      else let val = Validators vals ! nat index in (Address val, Some val))"

definition Size :: "ValidatorSet \<Rightarrow> int" where
  "Size vals = int (length (Validators vals))"

subsection \<open>Proposer priorities\<close>

fun max_min_loop :: "Validator list \<Rightarrow> int \<Rightarrow> int \<Rightarrow> int \<times> int" where
  "max_min_loop [] mx mn = (mx, mn)"
| "max_min_loop (v # vs) mx mn =
     (let mn' = (if ProposerPriority v < mn then ProposerPriority v else mn);
          mx' = (if ProposerPriority v > mx then ProposerPriority v else mx)
      in max_min_loop vs mx' mn')"

definition computeMaxMinPriorityDiff :: "ValidatorSet \<Rightarrow> int option" where
  "computeMaxMinPriorityDiff vals =
     (if IsNilOrEmpty vals then None
      else case max_min_loop (Validators vals) MinInt64 MaxInt64 of
        (mx, mn) \<Rightarrow>
          let diff = wrap64 (mx - mn)
          in Some (if diff < 0 then wrap64 (- 1 * diff) else diff))"

definition map_priorities :: "(int \<Rightarrow> int) \<Rightarrow> ValidatorSet \<Rightarrow> ValidatorSet" where
  "map_priorities f vals =
     vals\<lparr>Validators :=
       map (\<lambda>v. v\<lparr>ProposerPriority := f (ProposerPriority v)\<rparr>) (Validators vals)\<rparr>"

definition RescalePriorities :: "ValidatorSet \<Rightarrow> int \<Rightarrow> ValidatorSet option" where
  "RescalePriorities vals diffMax =
     (if IsNilOrEmpty vals then None
      else if diffMax \<le> 0 then Some vals
      else do {
        diff \<leftarrow> computeMaxMinPriorityDiff vals;
        let ratio = wrap64 (wrap64 (diff + diffMax) - 1) sdiv diffMax;
        if diff > diffMax
        then (if ratio = 0 then None
              else Some (map_priorities (\<lambda>p. wrap64 (p sdiv ratio)) vals))
        else Some vals
      })"

definition computeAvgProposerPriority :: "ValidatorSet \<Rightarrow> int option" where
  "computeAvgProposerPriority vals =
     (let n = int (length (Validators vals));
          total = sum_list (map ProposerPriority (Validators vals))
      in if n = 0 then None
         else let avg = total div n in if in64 avg then Some avg else None)"

definition shiftByAvgProposerPriority :: "ValidatorSet \<Rightarrow> ValidatorSet option" where
  "shiftByAvgProposerPriority vals =
     (if IsNilOrEmpty vals then None
      else do {
        avg \<leftarrow> computeAvgProposerPriority vals;
        Some (map_priorities (\<lambda>p. safeSubClip p avg) vals)
      })"

text \<open>The running maximum as an index into the slice with the validator it points to.\<close>

fun most_priority_loop ::
    "Validator list \<Rightarrow> nat \<Rightarrow> (nat \<times> Validator) option \<Rightarrow> (nat \<times> Validator) option option" where
  "most_priority_loop [] idx res = Some res"
| "most_priority_loop (v # vs) idx res =
     (case CompareProposerPriority (map_option snd res) v of
        None \<Rightarrow> None
      | Some keep \<Rightarrow> most_priority_loop vs (Suc idx) (if keep then res else Some (idx, v)))"

definition getValWithMostPriority :: "ValidatorSet \<Rightarrow> (nat \<times> Validator) option option" where
  "getValWithMostPriority vals = most_priority_loop (Validators vals) 0 None"

definition incrementProposerPriority :: "ValidatorSet \<Rightarrow> (ValidatorSet \<times> Validator) option" where
  "incrementProposerPriority vals =
     (let vals1 = vals\<lparr>Validators :=
            map (\<lambda>v. v\<lparr>ProposerPriority := safeAddClip (ProposerPriority v) (VotingPower v)\<rparr>)
              (Validators vals)\<rparr>
      in do {
        res \<leftarrow> getValWithMostPriority vals1;
        (idx, mostest) \<leftarrow> res;
        (vals2, total) \<leftarrow> TotalVotingPower vals1;
        let mostest' = mostest\<lparr>ProposerPriority := safeSubClip (ProposerPriority mostest) total\<rparr>;
        Some (vals2\<lparr>Validators := (Validators vals2)[idx := mostest']\<rparr>, mostest')
      })"

text \<open>The loop that calls \<open>incrementProposerPriority\<close> \<open>n\<close> times.\<close>

fun increment_loop :: "nat \<Rightarrow> ValidatorSet \<Rightarrow> Validator option \<Rightarrow> (ValidatorSet \<times> Validator option) option" where
  "increment_loop 0 vals proposer = Some (vals, proposer)"
| "increment_loop (Suc n) vals proposer =
     do { (vals', p) \<leftarrow> incrementProposerPriority vals; increment_loop n vals' (Some p) }"

definition IncrementProposerPriority :: "ValidatorSet \<Rightarrow> int \<Rightarrow> ValidatorSet option" where
  "IncrementProposerPriority vals ntimes =
     (if IsNilOrEmpty vals then None
      else if ntimes \<le> 0 then None
      else do {
        (vals1, total) \<leftarrow> TotalVotingPower vals;
        let diffMax = wrap64 (PriorityWindowSizeFactor * total);
        vals2 \<leftarrow> RescalePriorities vals1 diffMax;
        vals3 \<leftarrow> shiftByAvgProposerPriority vals2;
        (vals4, proposer) \<leftarrow> increment_loop (nat ntimes) vals3 None;
        Some (vals4\<lparr>Proposer := proposer\<rparr>)
      })"

text \<open>The Go method increments a copy, which is the value itself here.\<close>

definition CopyIncrementProposerPriority :: "ValidatorSet \<Rightarrow> int \<Rightarrow> ValidatorSet option" where
  "CopyIncrementProposerPriority vals ntimes = IncrementProposerPriority vals ntimes"

fun find_proposer_loop :: "Validator list \<Rightarrow> Validator option \<Rightarrow> Validator option option" where
  "find_proposer_loop [] proposer = Some proposer"
| "find_proposer_loop (v # vs) proposer =
     (if proposer = None \<or> map_option Address proposer \<noteq> Some (Address v)
      then (case CompareProposerPriority proposer v of
              None \<Rightarrow> None
            | Some keep \<Rightarrow> find_proposer_loop vs (if keep then proposer else Some v))
      else find_proposer_loop vs proposer)"

definition findProposer :: "ValidatorSet \<Rightarrow> Validator option option" where
  "findProposer vals = find_proposer_loop (Validators vals) None"

definition GetProposer :: "ValidatorSet \<Rightarrow> (ValidatorSet \<times> Validator option) option" where
  "GetProposer vals =
     (if Validators vals = [] then Some (vals, None)
      else do {
        vals' \<leftarrow> (if Proposer vals = None
                 then do { p \<leftarrow> findProposer vals; Some (vals\<lparr>Proposer := p\<rparr>) }
                 else Some vals);
        (case Proposer vals' of None \<Rightarrow> None | Some p \<Rightarrow> Some (vals', Some p))
      })"

fun find_previous_loop :: "Validator list \<Rightarrow> Validator option \<Rightarrow> Validator option option" where
  "find_previous_loop [] prev = Some prev"
| "find_previous_loop (v # vs) prev =
     (case prev of
        None \<Rightarrow> find_previous_loop vs (Some v)
      | Some p \<Rightarrow>
          (case CompareProposerPriority (Some p) v of
             None \<Rightarrow> None
           | Some keep \<Rightarrow> find_previous_loop vs (if keep then Some v else Some p)))"

definition findPreviousProposer :: "ValidatorSet \<Rightarrow> Validator option option" where
  "findPreviousProposer vals = find_previous_loop (Validators vals) None"

subsection \<open>Updating the set\<close>

text \<open>\<open>sort.Sort(ValidatorsByAddress)\<close> and \<open>sort.Sort(ValidatorsByVotingPower)\<close>.\<close>

definition sort_by_address :: "Validator list \<Rightarrow> Validator list" where
  "sort_by_address vs = sort_key Address vs"

definition sort_by_voting_power :: "Validator list \<Rightarrow> Validator list" where
  "sort_by_voting_power vs = sort_key (\<lambda>v. (- VotingPower v, Address v)) vs"

fun process_loop ::
    "Validator list \<Rightarrow> bytes \<Rightarrow> valset_error + (Validator list \<times> Validator list)" where
  "process_loop [] prevAddr = Inr ([], [])"
| "process_loop (v # vs) prevAddr =
     (if Address v = prevAddr then Inl DuplicateEntry
      else if VotingPower v < 0 then Inl NegativePower
      else if VotingPower v > MaxTotalVotingPower then Inl PowerTooHigh
      else case process_loop vs (Address v) of
        Inl e \<Rightarrow> Inl e
      | Inr (updates, removals) \<Rightarrow>
          if VotingPower v = 0 then Inr (updates, v # removals) else Inr (v # updates, removals))"

definition processChanges ::
    "Validator list \<Rightarrow> valset_error + (Validator list \<times> Validator list)" where
  "processChanges origChanges = process_loop (sort_by_address origChanges) []"

definition update_delta :: "ValidatorSet \<Rightarrow> Validator \<Rightarrow> int" where
  "update_delta vals update =
     (case snd (GetByAddress vals (Address update)) of
        Some val \<Rightarrow> wrap64 (VotingPower update - VotingPower val)
      | None \<Rightarrow> VotingPower update)"

fun verify_updates_loop :: "ValidatorSet \<Rightarrow> Validator list \<Rightarrow> int \<Rightarrow> valset_error + int" where
  "verify_updates_loop vals [] tvp = Inr tvp"
| "verify_updates_loop vals (upd # upds) tvp =
     (let tvp' = wrap64 (tvp + update_delta vals upd)
      in if tvp' > MaxTotalVotingPower then Inl ErrTotalVotingPowerOverflow
         else verify_updates_loop vals upds tvp')"

definition verifyUpdates ::
    "Validator list \<Rightarrow> ValidatorSet \<Rightarrow> int \<Rightarrow> (ValidatorSet \<times> (valset_error + int)) option" where
  "verifyUpdates updates vals removedPower =
     do {
       (vals', total) \<leftarrow> TotalVotingPower vals;
       let updatesCopy = sort_key (update_delta vals) updates;
       Some (vals',
         case verify_updates_loop vals updatesCopy (wrap64 (total - removedPower)) of
           Inl e \<Rightarrow> Inl e
         | Inr tvp \<Rightarrow> Inr (wrap64 (tvp + removedPower)))
     }"

definition numNewValidators :: "Validator list \<Rightarrow> ValidatorSet \<Rightarrow> nat" where
  "numNewValidators updates vals =
     length (filter (\<lambda>u. \<not> HasAddress vals (Address u)) updates)"

definition computeNewPriorities :: "Validator list \<Rightarrow> ValidatorSet \<Rightarrow> int \<Rightarrow> Validator list" where
  "computeNewPriorities updates vals updatedTotalVotingPower =
     map (\<lambda>u. case snd (GetByAddress vals (Address u)) of
         None \<Rightarrow> u\<lparr>ProposerPriority :=
                     wrap64 (- (wrap64 (updatedTotalVotingPower + updatedTotalVotingPower div 8)))\<rparr>
       | Some val \<Rightarrow> u\<lparr>ProposerPriority := ProposerPriority val\<rparr>)
       updates"

fun merge_updates :: "Validator list \<Rightarrow> Validator list \<Rightarrow> Validator list" where
  "merge_updates [] us = us"
| "merge_updates (e # es) [] = e # es"
| "merge_updates (e # es) (u # us) =
     (if bytes_Compare (Address e) (Address u) < 0 then e # merge_updates es (u # us)
      else if Address e = Address u then u # merge_updates es us
      else u # merge_updates (e # es) us)"

definition applyUpdates :: "ValidatorSet \<Rightarrow> Validator list \<Rightarrow> ValidatorSet" where
  "applyUpdates vals updates =
     vals\<lparr>Validators := merge_updates (sort_by_address (Validators vals)) updates\<rparr>"

fun verify_removals_loop :: "Validator list \<Rightarrow> ValidatorSet \<Rightarrow> int \<Rightarrow> valset_error + int" where
  "verify_removals_loop [] vals removed = Inr removed"
| "verify_removals_loop (d # ds) vals removed =
     (case snd (GetByAddress vals (Address d)) of
        None \<Rightarrow> Inl RemovalNotFound
      | Some val \<Rightarrow> verify_removals_loop ds vals (wrap64 (removed + VotingPower val)))"

definition verifyRemovals ::
    "Validator list \<Rightarrow> ValidatorSet \<Rightarrow> (valset_error + int) option" where
  "verifyRemovals deletes vals =
     (case verify_removals_loop deletes vals 0 of
        Inl e \<Rightarrow> Some (Inl e)
      | Inr removed \<Rightarrow>
          if length deletes > length (Validators vals) then None else Some (Inr removed))"

fun remove_loop :: "Validator list \<Rightarrow> Validator list \<Rightarrow> Validator list option" where
  "remove_loop es [] = Some es"
| "remove_loop [] (d # ds) = None"
| "remove_loop (e # es) (d # ds) =
     (if Address e = Address d then remove_loop es ds
      else map_option ((#) e) (remove_loop es (d # ds)))"

text \<open>The result slice has room for \<open>len(existing) - len(deletes)\<close> validators.\<close>

definition applyRemovals :: "ValidatorSet \<Rightarrow> Validator list \<Rightarrow> ValidatorSet option" where
  "applyRemovals vals deletes =
     (if length (Validators vals) < length deletes then None
      else do {
        merged \<leftarrow> remove_loop (Validators vals) deletes;
        if length merged > length (Validators vals) - length deletes then None
        else Some (vals\<lparr>Validators := merged\<rparr>)
      })"

fun same_key_loop :: "Validator list \<Rightarrow> string \<Rightarrow> bool option" where
  "same_key_loop [] firstKeyType = Some True"
| "same_key_loop (v # vs) firstKeyType =
     (if firstKeyType = '''' \<and> val_PubKey v = None then same_key_loop vs firstKeyType
      else case val_PubKey v of
        None \<Rightarrow> None
      | Some pk \<Rightarrow>
          let first' = (if firstKeyType = '''' then pk_type pk else firstKeyType)
          in if pk_type pk \<noteq> first' then Some False else same_key_loop vs first')"

definition checkAllKeysHaveSameType :: "ValidatorSet \<Rightarrow> ValidatorSet option" where
  "checkAllKeysHaveSameType vals =
     (if Size vals = 0 then Some (vals\<lparr>allKeysHaveSameType := True\<rparr>)
      else do {
        same \<leftarrow> same_key_loop (Validators vals) '''';
        Some (vals\<lparr>allKeysHaveSameType := same\<rparr>)
      })"

text \<open>The steps of \<open>updateWithChangeSet\<close> after every check has passed.\<close>

definition apply_change_set ::
    "ValidatorSet \<Rightarrow> Validator list \<Rightarrow> Validator list \<Rightarrow> int \<Rightarrow> ValidatorSet option" where
  "apply_change_set vals updates deletes tvpAfterUpdatesBeforeRemovals =
     do {
       let updates' = computeNewPriorities updates vals tvpAfterUpdatesBeforeRemovals;
       let vals1 = applyUpdates vals updates';
       vals2 \<leftarrow> applyRemovals vals1 deletes;
       vals3 \<leftarrow> checkAllKeysHaveSameType vals2;
       vals4 \<leftarrow> updateTotalVotingPower vals3;
       (vals5, total) \<leftarrow> TotalVotingPower vals4;
       vals6 \<leftarrow> RescalePriorities vals5 (wrap64 (PriorityWindowSizeFactor * total));
       vals7 \<leftarrow> shiftByAvgProposerPriority vals6;
       Some (vals7\<lparr>Validators := sort_by_voting_power (Validators vals7)\<rparr>)
     }"

definition updateWithChangeSet ::
    "ValidatorSet \<Rightarrow> Validator list \<Rightarrow> bool \<Rightarrow> (ValidatorSet \<times> valset_error option) option" where
  "updateWithChangeSet vals changes allowDeletes =
     (if changes = [] then Some (vals, None)
      else case processChanges changes of
        Inl e \<Rightarrow> Some (vals, Some e)
      | Inr (updates, deletes) \<Rightarrow>
          if \<not> allowDeletes \<and> deletes \<noteq> [] then Some (vals, Some DeletesNotAllowed)
          else if numNewValidators updates vals = 0
                  \<and> length (Validators vals) = length deletes
               then Some (vals, Some EmptyResult)
          else do {
            removal \<leftarrow> verifyRemovals deletes vals;
            (case removal of
               Inl e \<Rightarrow> Some (vals, Some e)
             | Inr removedVotingPower \<Rightarrow> do {
                 (vals', tvp) \<leftarrow> verifyUpdates updates vals removedVotingPower;
                 (case tvp of
                    Inl e \<Rightarrow> Some (vals', Some e)
                  | Inr t \<Rightarrow> do {
                      vals'' \<leftarrow> apply_change_set vals' updates deletes t;
                      Some (vals'', None)
                    })
               })
          })"

definition UpdateWithChangeSet ::
    "ValidatorSet \<Rightarrow> Validator list \<Rightarrow> (ValidatorSet \<times> valset_error option) option" where
  "UpdateWithChangeSet vals changes = updateWithChangeSet vals changes True"

definition NewValidatorSet :: "Validator list \<Rightarrow> ValidatorSet option" where
  "NewValidatorSet valz =
     do {
       (vals, err) \<leftarrow> updateWithChangeSet
           \<lparr>Validators = [], Proposer = None, totalVotingPower = 0, allKeysHaveSameType = True\<rparr>
           valz False;
       if err \<noteq> None then None
       else if valz \<noteq> [] then IncrementProposerPriority vals 1
       else Some vals
     }"

definition ValidatorSetFromExistingValidators ::
    "ext_env \<Rightarrow> Validator list \<Rightarrow> (valset_error + ValidatorSet) option" where
  "ValidatorSetFromExistingValidators ce valz =
     (if valz = [] then Some (Inl SetNilOrEmpty)
      else case first_invalid ce valz 0 of
        Some (idx, e) \<Rightarrow> Some (Inl (InvalidValidator idx e))
      | None \<Rightarrow> do {
          vals1 \<leftarrow> checkAllKeysHaveSameType
            \<lparr>Validators = valz, Proposer = None, totalVotingPower = 0, allKeysHaveSameType = False\<rparr>;
          prev \<leftarrow> findPreviousProposer vals1;
          vals2 \<leftarrow> updateTotalVotingPower (vals1\<lparr>Proposer := prev\<rparr>);
          Some (Inr (vals2\<lparr>Validators := sort_by_voting_power (Validators vals2)\<rparr>))
        })"

section \<open>Well-formed sets\<close>

text \<open>The total power of a list of validators, over the integers.\<close>

definition total_power :: "Validator list \<Rightarrow> int" where
  "total_power vs = sum_list (map VotingPower vs)"

text \<open>
  A set as the constructors build it: not empty, addresses unique, powers positive, their sum
  within the limit and cached, priorities in the range of \<open>int64\<close>.
\<close>

definition vs_wf :: "ValidatorSet \<Rightarrow> bool" where
  "vs_wf vals \<longleftrightarrow>
     Validators vals \<noteq> [] \<and>
     distinct (map Address (Validators vals)) \<and>
     (\<forall>v \<in> set (Validators vals). 0 < VotingPower v \<and> in64 (ProposerPriority v)) \<and>
     total_power (Validators vals) \<le> MaxTotalVotingPower \<and>
     totalVotingPower vals = total_power (Validators vals)"

text \<open>The order of the slice: decreasing power, increasing address.\<close>

definition vs_sorted :: "ValidatorSet \<Rightarrow> bool" where
  "vs_sorted vals \<longleftrightarrow> sorted (map (\<lambda>v. (- VotingPower v, Address v)) (Validators vals))"

section \<open>Powers and lookups\<close>

lemma MaxTotalVotingPower_eq [simp]: "MaxTotalVotingPower = 1152921504606846975"
  by (simp add: MaxTotalVotingPower_def sdiv_nonneg)

lemma total_power_Nil [simp]: "total_power [] = 0"
  and total_power_Cons [simp]: "total_power (v # vs) = VotingPower v + total_power vs"
  and total_power_append [simp]: "total_power (vs @ ws) = total_power vs + total_power ws"
  by (simp_all add: total_power_def)

lemma total_power_nonneg: "(\<forall>v \<in> set vs. 0 \<le> VotingPower v) \<Longrightarrow> 0 \<le> total_power vs"
  by (induction vs) auto

lemma total_power_pos: "vs \<noteq> [] \<Longrightarrow> (\<forall>v \<in> set vs. 0 < VotingPower v) \<Longrightarrow> 0 < total_power vs"
  using total_power_nonneg [of "tl vs"] by (cases vs) (auto simp: less_imp_le add_pos_nonneg)

lemma total_power_ge_length:
  "(\<forall>v \<in> set vs. 0 < VotingPower v) \<Longrightarrow> int (length vs) \<le> total_power vs"
  by (induction vs) auto

lemma power_le_total:
  "(\<forall>v \<in> set vs. 0 \<le> VotingPower v) \<Longrightarrow> v \<in> set vs \<Longrightarrow> VotingPower v \<le> total_power vs"
  using sum_list_nonneg_le [of vs VotingPower v] by (auto simp: total_power_def)

lemma total_power_mset: "mset vs = mset ws \<Longrightarrow> total_power vs = total_power ws"
  by (metis (no_types, lifting) mset_map sum_mset_sum_list total_power_def)

lemma sum_powers_eq:
  assumes "\<forall>v \<in> set vs. 0 \<le> VotingPower v \<and> VotingPower v \<le> MaxTotalVotingPower"
    and "0 \<le> acc" and "acc \<le> MaxTotalVotingPower"
  shows "sum_powers vs acc =
    (if acc + total_power vs \<le> MaxTotalVotingPower then Some (acc + total_power vs) else None)"
  using assms
proof (induction vs arbitrary: acc)
  case Nil
  then show ?case by simp
next
  case (Cons v vs)
  have add: "safeAddClip acc (VotingPower v) = acc + VotingPower v"
    using Cons.prems by (simp add: int_range)
  have pos: "0 \<le> total_power vs"
    using Cons.prems(1) by (intro total_power_nonneg) auto
  show ?case
  proof (cases "acc + VotingPower v \<le> MaxTotalVotingPower")
    case True
    then show ?thesis
      using Cons.IH [of "acc + VotingPower v"] Cons.prems by (simp add: add Let_def add.assoc)
  next
    case False
    then show ?thesis using pos by (simp add: add Let_def)
  qed
qed

lemma vs_wf_power:
  assumes "vs_wf vals" and "v \<in> set (Validators vals)"
  shows "0 < VotingPower v" and "VotingPower v \<le> total_power (Validators vals)"
    and "VotingPower v \<le> MaxTotalVotingPower"
  using assms power_le_total [of "Validators vals" v] by (auto simp: vs_wf_def less_imp_le)

lemma vs_wf_total_pos: "vs_wf vals \<Longrightarrow> 0 < total_power (Validators vals)"
  by (simp add: vs_wf_def total_power_pos)

lemma updateTotalVotingPower_eq:
  assumes "\<forall>v \<in> set (Validators vals). 0 \<le> VotingPower v \<and> VotingPower v \<le> MaxTotalVotingPower"
  shows "updateTotalVotingPower vals =
    (if total_power (Validators vals) \<le> MaxTotalVotingPower
     then Some (vals\<lparr>totalVotingPower := total_power (Validators vals)\<rparr>) else None)"
  using sum_powers_eq [OF assms, of 0] by (simp add: updateTotalVotingPower_def)

lemma TotalVotingPower_wf:
  assumes "vs_wf vals"
  shows "TotalVotingPower vals = Some (vals, total_power (Validators vals))"
  using assms vs_wf_total_pos [OF assms] by (simp add: TotalVotingPower_def vs_wf_def)

lemma get_by_address_eq:
  "snd (get_by_address vs idx a) = find (\<lambda>v. Address v = a) vs"
  by (induction vs arbitrary: idx) auto

lemma GetByAddress_find: "snd (GetByAddress vals a) = find (\<lambda>v. Address v = a) (Validators vals)"
  by (simp add: GetByAddress_def get_by_address_eq)

lemma find_distinct:
  assumes "distinct (map f vs)" and "v \<in> set vs"
  shows "find (\<lambda>x. f x = f v) vs = Some v"
  using assms
proof (induction vs)
  case Nil
  then show ?case by simp
next
  case (Cons x xs)
  then show ?case by (cases "f x = f v") (auto simp: image_iff)
qed

lemma find_key_None_iff: "find (\<lambda>x. f x = k) vs = None \<longleftrightarrow> k \<notin> f ` set vs"
  by (auto simp: find_None_iff)

lemma find_key_SomeD: "find (\<lambda>x. f x = k) vs = Some v \<Longrightarrow> v \<in> set vs \<and> f v = k"
  by (auto simp: find_Some_iff)

lemma HasAddress_iff: "HasAddress vals a \<longleftrightarrow> a \<in> Address ` set (Validators vals)"
  by (auto simp: HasAddress_def list_ex_iff)

lemma GetByIndex_nat:
  "GetByIndex vals (int i) =
     (if i < length (Validators vals)
      then (Address (Validators vals ! i), Some (Validators vals ! i)) else ([], None))"
  by (auto simp: GetByIndex_def Let_def)

end
