(* ===== verification/Vote.thy ===== *)
theory Vote
  imports Proto_Wire Validator_Set
begin

text \<open>
  Votes and what is made of them: \<open>BlockID\<close>, \<open>CommitSig\<close>, \<open>Commit\<close> and \<open>ExtendedCommit\<close> of
  \<open>types/block.go\<close>, \<open>PartSetHeader\<close> of \<open>types/part_set.go\<close>, \<open>Vote\<close> of \<open>types/vote.go\<close>, \<open>Proposal\<close> of
  \<open>types/proposal.go\<close> and the canonical forms of \<open>types/canonical.go\<close>. The conversions to the
  protobuf structs copy the fields and are the identity here. A function that can panic returns
  an option; a validation returns the error it reports.
\<close>

section \<open>Block identifiers\<close>

abbreviation PrevoteType :: int where "PrevoteType \<equiv> 1"
abbreviation PrecommitType :: int where "PrecommitType \<equiv> 2"
abbreviation ProposalType :: int where "ProposalType \<equiv> 32"

abbreviation tmhash_Size :: nat where "tmhash_Size \<equiv> 32"
abbreviation AddressSize :: nat where "AddressSize \<equiv> 20"
abbreviation MaxSignatureSize :: nat where "MaxSignatureSize \<equiv> 64"
abbreviation MaxVoteExtensionSize :: nat where "MaxVoteExtensionSize \<equiv> 1048576"

definition IsVoteTypeValid :: "int \<Rightarrow> bool" where
  "IsVoteTypeValid t \<longleftrightarrow> t = PrevoteType \<or> t = PrecommitType"

definition ValidateHash :: "bytes \<Rightarrow> bool" where
  "ValidateHash h \<longleftrightarrow> \<not> (length h > 0 \<and> length h \<noteq> tmhash_Size)"

definition PartSetHeader_IsZero :: "PartSetHeader \<Rightarrow> bool" where
  "PartSetHeader_IsZero psh \<longleftrightarrow> psh_Total psh = 0 \<and> length (psh_Hash psh) = 0"

definition PartSetHeader_Equals :: "PartSetHeader \<Rightarrow> PartSetHeader \<Rightarrow> bool" where
  "PartSetHeader_Equals psh other \<longleftrightarrow> psh_Total psh = psh_Total other \<and> psh_Hash psh = psh_Hash other"

definition PartSetHeader_ValidateBasic :: "PartSetHeader \<Rightarrow> bool" where
  "PartSetHeader_ValidateBasic psh = ValidateHash (psh_Hash psh)"

record BlockID =
  bid_Hash :: bytes
  bid_PartSetHeader :: PartSetHeader

definition zeroBlockID :: BlockID where
  "zeroBlockID = \<lparr>bid_Hash = [], bid_PartSetHeader = \<lparr>psh_Total = 0, psh_Hash = []\<rparr>\<rparr>"

definition BlockID_Equals :: "BlockID \<Rightarrow> BlockID \<Rightarrow> bool" where
  "BlockID_Equals b other \<longleftrightarrow>
     bid_Hash b = bid_Hash other \<and> PartSetHeader_Equals (bid_PartSetHeader b) (bid_PartSetHeader other)"

definition BlockID_Key :: "BlockID \<Rightarrow> bytes" where
  "BlockID_Key b = bid_Hash b @ PartSetHeader_Marshal (bid_PartSetHeader b)"

definition BlockID_ValidateBasic :: "BlockID \<Rightarrow> bool" where
  "BlockID_ValidateBasic b \<longleftrightarrow>
     ValidateHash (bid_Hash b) \<and> PartSetHeader_ValidateBasic (bid_PartSetHeader b)"

definition BlockID_IsZero :: "BlockID \<Rightarrow> bool" where
  "BlockID_IsZero b \<longleftrightarrow> length (bid_Hash b) = 0 \<and> PartSetHeader_IsZero (bid_PartSetHeader b)"

definition BlockID_IsComplete :: "BlockID \<Rightarrow> bool" where
  "BlockID_IsComplete b \<longleftrightarrow> length (bid_Hash b) = tmhash_Size \<and>
     psh_Total (bid_PartSetHeader b) > 0 \<and> length (psh_Hash (bid_PartSetHeader b)) = tmhash_Size"

section \<open>Votes\<close>

record Vote =
  vote_Type :: int
  vote_Height :: int
  vote_Round :: int
  vote_BlockID :: BlockID
  vote_Timestamp :: timestamp
  vote_ValidatorAddress :: bytes
  vote_ValidatorIndex :: int
  vote_Signature :: bytes
  vote_Extension :: bytes
  vote_ExtensionSignature :: bytes

datatype vote_error =
    ErrVoteUnexpectedStep | ErrVoteInvalidValidatorIndex | ErrVoteInvalidValidatorAddress
  | ErrVoteInvalidSignature | ErrVoteNonDeterministicSignature | ErrVoteNil
  | ErrVoteExtensionAbsent | ExpectedExtensionSignature | UnexpectedExtensionData
  | ErrVoteConflictingVotes Vote Vote
  | InvalidType | InvalidHeight | InvalidRound | WrongBlockID | BlockIDNotEmptyOrComplete
  | WrongAddressSize | NegativeIndex | SignatureMissing | SignatureTooBig
  | UnexpectedExtension | UnexpectedExtensionSignature | ExtensionSignatureTooBig
  | ExtensionSignatureAbsent

subsection \<open>Canonical forms and sign bytes\<close>

text \<open>A malformed block id makes \<open>CanonicalizeBlockID\<close> panic.\<close>

definition CanonicalizeBlockID :: "BlockID \<Rightarrow> CanonicalBlockID option option" where
  "CanonicalizeBlockID bid =
     (if \<not> BlockID_ValidateBasic bid then None
      else if BlockID_IsZero bid then Some None
      else Some (Some \<lparr>cbid_Hash = bid_Hash bid, cbid_PartSetHeader = bid_PartSetHeader bid\<rparr>))"

definition CanonicalizeVote :: "bytes \<Rightarrow> Vote \<Rightarrow> CanonicalVote option" where
  "CanonicalizeVote chainID vote =
     do {
       b \<leftarrow> CanonicalizeBlockID (vote_BlockID vote);
       Some \<lparr>cv_Type = vote_Type vote, cv_Height = vote_Height vote, cv_Round = vote_Round vote,
             cv_BlockID = b, cv_Timestamp = vote_Timestamp vote, cv_ChainID = chainID\<rparr>
     }"

definition CanonicalizeVoteExtension :: "bytes \<Rightarrow> Vote \<Rightarrow> CanonicalVoteExtension" where
  "CanonicalizeVoteExtension chainID vote =
     \<lparr>ce_Extension = vote_Extension vote, ce_Height = vote_Height vote, ce_Round = vote_Round vote,
      ce_ChainId = chainID\<rparr>"

definition VoteSignBytes :: "ext_env \<Rightarrow> bytes \<Rightarrow> Vote \<Rightarrow> bytes option" where
  "VoteSignBytes ce chainID vote =
     do {
       pb \<leftarrow> CanonicalizeVote chainID vote;
       bz \<leftarrow> CanonicalVote_Marshal ce pb;
       Some (MarshalDelimited bz)
     }"

definition VoteExtensionSignBytes :: "bytes \<Rightarrow> Vote \<Rightarrow> bytes" where
  "VoteExtensionSignBytes chainID vote =
     MarshalDelimited (CanonicalVoteExtension_Marshal (CanonicalizeVoteExtension chainID vote))"

record Proposal =
  prop_Type :: int
  prop_Height :: int
  prop_Round :: int
  prop_POLRound :: int
  prop_BlockID :: BlockID
  prop_Timestamp :: timestamp
  prop_Signature :: bytes

definition CanonicalizeProposal :: "bytes \<Rightarrow> Proposal \<Rightarrow> CanonicalProposal option" where
  "CanonicalizeProposal chainID p =
     do {
       b \<leftarrow> CanonicalizeBlockID (prop_BlockID p);
       Some \<lparr>cp_Type = ProposalType, cp_Height = prop_Height p, cp_Round = prop_Round p,
             cp_POLRound = prop_POLRound p, cp_BlockID = b, cp_Timestamp = prop_Timestamp p,
             cp_ChainID = chainID\<rparr>
     }"

definition ProposalSignBytes :: "ext_env \<Rightarrow> bytes \<Rightarrow> Proposal \<Rightarrow> bytes option" where
  "ProposalSignBytes ce chainID p =
     do {
       pb \<leftarrow> CanonicalizeProposal chainID p;
       bz \<leftarrow> CanonicalProposal_Marshal ce pb;
       Some (MarshalDelimited bz)
     }"

datatype proposal_error =
    PropInvalidType | PropNegativeHeight | PropNegativeRound | PropNegativePOLRound
  | PropWrongBlockID | PropIncompleteBlockID | PropSignatureMissing | PropSignatureTooBig

definition Proposal_ValidateBasic :: "Proposal \<Rightarrow> proposal_error option" where
  "Proposal_ValidateBasic p =
     (if prop_Type p \<noteq> ProposalType then Some PropInvalidType
      else if prop_Height p < 0 then Some PropNegativeHeight
      else if prop_Round p < 0 then Some PropNegativeRound
      else if prop_POLRound p < -1 then Some PropNegativePOLRound
      else if \<not> BlockID_ValidateBasic (prop_BlockID p) then Some PropWrongBlockID
      else if \<not> BlockID_IsComplete (prop_BlockID p) then Some PropIncompleteBlockID
      else if length (prop_Signature p) = 0 then Some PropSignatureMissing
      else if length (prop_Signature p) > MaxSignatureSize then Some PropSignatureTooBig
      else None)"

subsection \<open>Verification and validation\<close>

text \<open>The outer \<open>None\<close> is a panic, the inner one success.\<close>

definition Vote_Verify :: "ext_env \<Rightarrow> bytes \<Rightarrow> PubKey \<Rightarrow> Vote \<Rightarrow> vote_error option option" where
  "Vote_Verify ce chainID pubKey vote =
     (if pkAddress ce pubKey \<noteq> vote_ValidatorAddress vote then Some (Some ErrVoteInvalidValidatorAddress)
      else do {
        bz \<leftarrow> VoteSignBytes ce chainID vote;
        if \<not> pkVerify ce pubKey bz (vote_Signature vote) then Some (Some ErrVoteInvalidSignature)
        else Some None
      })"

definition VerifyVoteAndExtension :: "ext_env \<Rightarrow> bytes \<Rightarrow> PubKey \<Rightarrow> Vote \<Rightarrow> vote_error option option" where
  "VerifyVoteAndExtension ce chainID pubKey vote =
     do {
       err \<leftarrow> Vote_Verify ce chainID pubKey vote;
       (case err of
          Some e \<Rightarrow> Some (Some e)
        | None \<Rightarrow>
            if vote_Type vote = PrecommitType \<and> \<not> BlockID_IsZero (vote_BlockID vote)
            then (if length (vote_ExtensionSignature vote) = 0 then Some (Some ExpectedExtensionSignature)
                  else if \<not> pkVerify ce pubKey (VoteExtensionSignBytes chainID vote) (vote_ExtensionSignature vote)
                  then Some (Some ErrVoteInvalidSignature)
                  else Some None)
            else Some None)
     }"

definition VerifyExtension :: "ext_env \<Rightarrow> bytes \<Rightarrow> PubKey \<Rightarrow> Vote \<Rightarrow> vote_error option" where
  "VerifyExtension ce chainID pubKey vote =
     (if vote_Type vote \<noteq> PrecommitType \<or> BlockID_IsZero (vote_BlockID vote) then None
      else if \<not> pkVerify ce pubKey (VoteExtensionSignBytes chainID vote) (vote_ExtensionSignature vote)
      then Some ErrVoteInvalidSignature
      else None)"

definition Vote_ValidateBasic :: "Vote \<Rightarrow> vote_error option" where
  "Vote_ValidateBasic vote =
     (if \<not> IsVoteTypeValid (vote_Type vote) then Some InvalidType
      else if vote_Height vote \<le> 0 then Some InvalidHeight
      else if vote_Round vote < 0 then Some InvalidRound
      else if \<not> BlockID_ValidateBasic (vote_BlockID vote) then Some WrongBlockID
      else if \<not> BlockID_IsZero (vote_BlockID vote) \<and> \<not> BlockID_IsComplete (vote_BlockID vote)
      then Some BlockIDNotEmptyOrComplete
      else if length (vote_ValidatorAddress vote) \<noteq> AddressSize then Some WrongAddressSize
      else if vote_ValidatorIndex vote < 0 then Some NegativeIndex
      else if length (vote_Signature vote) = 0 then Some SignatureMissing
      else if length (vote_Signature vote) > MaxSignatureSize then Some SignatureTooBig
      else if (vote_Type vote \<noteq> PrecommitType \<or> BlockID_IsZero (vote_BlockID vote))
              \<and> length (vote_Extension vote) > 0 then Some UnexpectedExtension
      else if (vote_Type vote \<noteq> PrecommitType \<or> BlockID_IsZero (vote_BlockID vote))
              \<and> length (vote_ExtensionSignature vote) > 0 then Some UnexpectedExtensionSignature
      else if vote_Type vote = PrecommitType \<and> \<not> BlockID_IsZero (vote_BlockID vote)
              \<and> length (vote_ExtensionSignature vote) > MaxSignatureSize then Some ExtensionSignatureTooBig
      else if vote_Type vote = PrecommitType \<and> \<not> BlockID_IsZero (vote_BlockID vote)
              \<and> length (vote_ExtensionSignature vote) = 0 \<and> length (vote_Extension vote) \<noteq> 0
      then Some ExtensionSignatureAbsent
      else None)"

definition Vote_EnsureExtension :: "Vote \<Rightarrow> vote_error option" where
  "Vote_EnsureExtension vote =
     (if vote_Type vote \<noteq> PrecommitType then None
      else if BlockID_IsZero (vote_BlockID vote) then None
      else if length (vote_ExtensionSignature vote) > 0 then None
      else Some ErrVoteExtensionAbsent)"

section \<open>Commits\<close>

abbreviation BlockIDFlagAbsent :: int where "BlockIDFlagAbsent \<equiv> 1"
abbreviation BlockIDFlagCommit :: int where "BlockIDFlagCommit \<equiv> 2"
abbreviation BlockIDFlagNil :: int where "BlockIDFlagNil \<equiv> 3"

record CommitSig =
  cs_BlockIDFlag :: int
  cs_ValidatorAddress :: bytes
  cs_Timestamp :: timestamp
  cs_Signature :: bytes

datatype commit_error =
    UnknownBlockIDFlag | AddressPresent | TimePresent | SignaturePresent
  | CommitSigAddressSize | CommitSigNoSignature | CommitSigSignatureTooBig
  | CommitNegativeHeight | CommitNegativeRound | CommitForNilBlock | CommitNoSignatures
  | WrongCommitSig nat commit_error
  | CommitExtensionTooBig | CommitExtensionSignatureTooBig | CommitExtensionSignatureAbsent
  | ExtensionSignatureMissing | NonCommitExtension | NonCommitExtensionSignature
  | ExtensionDisabled | ExtensionSignatureDisabled

definition NewCommitSigAbsent :: CommitSig where
  "NewCommitSigAbsent =
     \<lparr>cs_BlockIDFlag = BlockIDFlagAbsent, cs_ValidatorAddress = [], cs_Timestamp = 0, cs_Signature = []\<rparr>"

definition CommitSig_BlockID :: "CommitSig \<Rightarrow> BlockID \<Rightarrow> BlockID option" where
  "CommitSig_BlockID cs commitBlockID =
     (if cs_BlockIDFlag cs = BlockIDFlagAbsent then Some zeroBlockID
      else if cs_BlockIDFlag cs = BlockIDFlagCommit then Some commitBlockID
      else if cs_BlockIDFlag cs = BlockIDFlagNil then Some zeroBlockID
      else None)"

definition CommitSig_ValidateBasic :: "CommitSig \<Rightarrow> commit_error option" where
  "CommitSig_ValidateBasic cs =
     (if cs_BlockIDFlag cs \<notin> {BlockIDFlagAbsent, BlockIDFlagCommit, BlockIDFlagNil}
      then Some UnknownBlockIDFlag
      else if cs_BlockIDFlag cs = BlockIDFlagAbsent
      then (if length (cs_ValidatorAddress cs) \<noteq> 0 then Some AddressPresent
            else if cs_Timestamp cs \<noteq> 0 then Some TimePresent
            else if length (cs_Signature cs) \<noteq> 0 then Some SignaturePresent
            else None)
      else (if length (cs_ValidatorAddress cs) \<noteq> AddressSize then Some CommitSigAddressSize
            else if length (cs_Signature cs) = 0 then Some CommitSigNoSignature
            else if length (cs_Signature cs) > MaxSignatureSize then Some CommitSigSignatureTooBig
            else None))"

text \<open>\<open>Vote.CommitSig\<close>; a nil vote is \<open>None\<close>.\<close>

definition Vote_CommitSig :: "Vote option \<Rightarrow> CommitSig option" where
  "Vote_CommitSig p =
     (case p of
        None \<Rightarrow> Some NewCommitSigAbsent
      | Some vote \<Rightarrow> do {
          flag \<leftarrow> (if BlockID_IsComplete (vote_BlockID vote) then Some BlockIDFlagCommit
                   else if BlockID_IsZero (vote_BlockID vote) then Some BlockIDFlagNil
                   else None);
          Some \<lparr>cs_BlockIDFlag = flag, cs_ValidatorAddress = vote_ValidatorAddress vote,
                cs_Timestamp = vote_Timestamp vote, cs_Signature = vote_Signature vote\<rparr>
        })"

record ExtendedCommitSig =
  ecs_CommitSig :: CommitSig
  ecs_Extension :: bytes
  ecs_ExtensionSignature :: bytes

definition NewExtendedCommitSigAbsent :: ExtendedCommitSig where
  "NewExtendedCommitSigAbsent =
     \<lparr>ecs_CommitSig = NewCommitSigAbsent, ecs_Extension = [], ecs_ExtensionSignature = []\<rparr>"

definition Vote_ExtendedCommitSig :: "Vote option \<Rightarrow> ExtendedCommitSig option" where
  "Vote_ExtendedCommitSig p =
     (case p of
        None \<Rightarrow> Some NewExtendedCommitSigAbsent
      | Some vote \<Rightarrow> do {
          cs \<leftarrow> Vote_CommitSig (Some vote);
          Some \<lparr>ecs_CommitSig = cs, ecs_Extension = vote_Extension vote,
                ecs_ExtensionSignature = vote_ExtensionSignature vote\<rparr>
        })"

definition ExtendedCommitSig_ValidateBasic :: "ExtendedCommitSig \<Rightarrow> commit_error option" where
  "ExtendedCommitSig_ValidateBasic ecs =
     (case CommitSig_ValidateBasic (ecs_CommitSig ecs) of
        Some e \<Rightarrow> Some e
      | None \<Rightarrow>
          if cs_BlockIDFlag (ecs_CommitSig ecs) = BlockIDFlagCommit
          then (if length (ecs_Extension ecs) > MaxVoteExtensionSize then Some CommitExtensionTooBig
                else if length (ecs_ExtensionSignature ecs) > MaxSignatureSize
                then Some CommitExtensionSignatureTooBig
                else None)
          else if length (ecs_ExtensionSignature ecs) = 0 \<and> length (ecs_Extension ecs) \<noteq> 0
          then Some CommitExtensionSignatureAbsent
          else None)"

definition ExtendedCommitSig_EnsureExtension :: "bool \<Rightarrow> ExtendedCommitSig \<Rightarrow> commit_error option" where
  "ExtendedCommitSig_EnsureExtension extEnabled ecs =
     (let flag = cs_BlockIDFlag (ecs_CommitSig ecs)
      in if extEnabled
         then (if flag = BlockIDFlagCommit \<and> length (ecs_ExtensionSignature ecs) = 0
               then Some ExtensionSignatureMissing
               else if flag \<noteq> BlockIDFlagCommit \<and> length (ecs_Extension ecs) \<noteq> 0
               then Some NonCommitExtension
               else if flag \<noteq> BlockIDFlagCommit \<and> length (ecs_ExtensionSignature ecs) \<noteq> 0
               then Some NonCommitExtensionSignature
               else None)
         else (if length (ecs_Extension ecs) \<noteq> 0 then Some ExtensionDisabled
               else if length (ecs_ExtensionSignature ecs) \<noteq> 0 then Some ExtensionSignatureDisabled
               else None))"

record Commit =
  com_Height :: int
  com_Round :: int
  com_BlockID :: BlockID
  com_Signatures :: "CommitSig list"

text \<open>\<open>Commit.GetVote\<close>; \<open>None\<close> is the index out of range or the unknown flag.\<close>

definition Commit_GetVote :: "Commit \<Rightarrow> int \<Rightarrow> Vote option" where
  "Commit_GetVote commit valIdx =
     do {
       cs \<leftarrow> slice_get (com_Signatures commit) valIdx;
       b \<leftarrow> CommitSig_BlockID cs (com_BlockID commit);
       Some \<lparr>vote_Type = PrecommitType, vote_Height = com_Height commit, vote_Round = com_Round commit,
             vote_BlockID = b, vote_Timestamp = cs_Timestamp cs,
             vote_ValidatorAddress = cs_ValidatorAddress cs, vote_ValidatorIndex = valIdx,
             vote_Signature = cs_Signature cs, vote_Extension = [], vote_ExtensionSignature = []\<rparr>
     }"

definition Commit_VoteSignBytes :: "ext_env \<Rightarrow> bytes \<Rightarrow> Commit \<Rightarrow> int \<Rightarrow> bytes option" where
  "Commit_VoteSignBytes ce chainID commit valIdx =
     do { v \<leftarrow> Commit_GetVote commit valIdx; VoteSignBytes ce chainID v }"

fun first_bad_sig :: "CommitSig list \<Rightarrow> nat \<Rightarrow> commit_error option" where
  "first_bad_sig [] i = None"
| "first_bad_sig (cs # css) i =
     (case CommitSig_ValidateBasic cs of
        Some e \<Rightarrow> Some (WrongCommitSig i e)
      | None \<Rightarrow> first_bad_sig css (Suc i))"

definition Commit_ValidateBasic :: "Commit \<Rightarrow> commit_error option" where
  "Commit_ValidateBasic commit =
     (if com_Height commit < 0 then Some CommitNegativeHeight
      else if com_Round commit < 0 then Some CommitNegativeRound
      else if com_Height commit \<ge> 1
      then (if BlockID_IsZero (com_BlockID commit) then Some CommitForNilBlock
            else if length (com_Signatures commit) = 0 then Some CommitNoSignatures
            else first_bad_sig (com_Signatures commit) 0)
      else None)"

record ExtendedCommit =
  ec_Height :: int
  ec_Round :: int
  ec_BlockID :: BlockID
  ec_ExtendedSignatures :: "ExtendedCommitSig list"

definition WrappedExtendedCommit :: "Commit \<Rightarrow> ExtendedCommit" where
  "WrappedExtendedCommit commit =
     \<lparr>ec_Height = com_Height commit, ec_Round = com_Round commit, ec_BlockID = com_BlockID commit,
      ec_ExtendedSignatures =
        map (\<lambda>s. \<lparr>ecs_CommitSig = s, ecs_Extension = [], ecs_ExtensionSignature = []\<rparr>) (com_Signatures commit)\<rparr>"

definition ToCommit :: "ExtendedCommit \<Rightarrow> Commit" where
  "ToCommit ec =
     \<lparr>com_Height = ec_Height ec, com_Round = ec_Round ec, com_BlockID = ec_BlockID ec,
      com_Signatures = map ecs_CommitSig (ec_ExtendedSignatures ec)\<rparr>"

fun first_bad_extension :: "bool \<Rightarrow> ExtendedCommitSig list \<Rightarrow> commit_error option" where
  "first_bad_extension extEnabled [] = None"
| "first_bad_extension extEnabled (ecs # ecss) =
     (case ExtendedCommitSig_EnsureExtension extEnabled ecs of
        Some e \<Rightarrow> Some e
      | None \<Rightarrow> first_bad_extension extEnabled ecss)"

definition EnsureExtensions :: "bool \<Rightarrow> ExtendedCommit \<Rightarrow> commit_error option" where
  "EnsureExtensions extEnabled ec = first_bad_extension extEnabled (ec_ExtendedSignatures ec)"

definition GetExtendedVote :: "ExtendedCommit \<Rightarrow> int \<Rightarrow> Vote option" where
  "GetExtendedVote ec valIndex =
     do {
       ecs \<leftarrow> slice_get (ec_ExtendedSignatures ec) valIndex;
       b \<leftarrow> CommitSig_BlockID (ecs_CommitSig ecs) (ec_BlockID ec);
       Some \<lparr>vote_Type = PrecommitType, vote_Height = ec_Height ec, vote_Round = ec_Round ec,
             vote_BlockID = b, vote_Timestamp = cs_Timestamp (ecs_CommitSig ecs),
             vote_ValidatorAddress = cs_ValidatorAddress (ecs_CommitSig ecs),
             vote_ValidatorIndex = valIndex, vote_Signature = cs_Signature (ecs_CommitSig ecs),
             vote_Extension = ecs_Extension ecs,
             vote_ExtensionSignature = ecs_ExtensionSignature ecs\<rparr>
     }"

section \<open>Lemmas\<close>

lemma first_bad_sig_None: "first_bad_sig css i = None \<longleftrightarrow> (\<forall>cs \<in> set css. CommitSig_ValidateBasic cs = None)"
  by (induction css arbitrary: i) (auto split: option.splits)

lemma BlockID_Equals_iff [simp]: "BlockID_Equals a b \<longleftrightarrow> a = b"
  by (cases a; cases b; cases "bid_PartSetHeader a"; cases "bid_PartSetHeader b")
     (auto simp: BlockID_Equals_def PartSetHeader_Equals_def)

lemma BlockID_IsZero_iff: "BlockID_IsZero b \<longleftrightarrow> b = zeroBlockID"
  by (cases b; cases "bid_PartSetHeader b")
     (auto simp: BlockID_IsZero_def PartSetHeader_IsZero_def zeroBlockID_def)

lemma complete_not_zero: "BlockID_IsComplete b \<Longrightarrow> \<not> BlockID_IsZero b"
  by (auto simp: BlockID_IsComplete_def BlockID_IsZero_def)

lemma complete_valid: "BlockID_IsComplete b \<Longrightarrow> BlockID_ValidateBasic b"
  by (auto simp: BlockID_IsComplete_def BlockID_ValidateBasic_def PartSetHeader_ValidateBasic_def ValidateHash_def)

lemma zero_valid: "BlockID_ValidateBasic zeroBlockID"
  by (simp add: BlockID_ValidateBasic_def PartSetHeader_ValidateBasic_def ValidateHash_def zeroBlockID_def)

lemma CanonicalizeBlockID_inj: "CanonicalizeBlockID a = Some c \<Longrightarrow> CanonicalizeBlockID b = Some c \<Longrightarrow> a = b"
  by (auto simp: CanonicalizeBlockID_def BlockID_IsZero_iff split: if_splits intro: BlockID.equality)

lemma CanonicalizeVote_inj:
  assumes "CanonicalizeVote c v = Some m" and "CanonicalizeVote c' v' = Some m"
  shows "c = c' \<and> vote_Type v = vote_Type v' \<and> vote_Height v = vote_Height v' \<and>
    vote_Round v = vote_Round v' \<and> vote_BlockID v = vote_BlockID v' \<and> vote_Timestamp v = vote_Timestamp v'"
  using assms by (auto simp: CanonicalizeVote_def split: bind_splits dest: CanonicalizeBlockID_inj)

lemma CanonicalizeVote_fields:
  "CanonicalizeVote c v = Some m \<Longrightarrow>
     cv_Type m = vote_Type v \<and> cv_Height m = vote_Height v \<and> cv_Round m = vote_Round v"
  by (auto simp: CanonicalizeVote_def split: bind_splits)

text \<open>The sign bytes depend on the signed fields only.\<close>

lemma VoteSignBytes_cong:
  assumes "vote_Type v = vote_Type v'" and "vote_Height v = vote_Height v'" and "vote_Round v = vote_Round v'"
    and "vote_BlockID v = vote_BlockID v'" and "vote_Timestamp v = vote_Timestamp v'"
  shows "VoteSignBytes ce c v = VoteSignBytes ce c v'"
  using assms by (simp add: VoteSignBytes_def CanonicalizeVote_def)

lemma VoteSignBytes_inj:
  assumes "time_injective ce" and "VoteSignBytes ce c v = Some b" and "VoteSignBytes ce c' v' = Some b"
    and "in32 (vote_Type v)" and "in64 (vote_Height v)" and "in32 (vote_Round v)"
    and "in32 (vote_Type v')" and "in64 (vote_Height v')" and "in32 (vote_Round v')"
  shows "c = c' \<and> vote_Type v = vote_Type v' \<and> vote_Height v = vote_Height v' \<and>
    vote_Round v = vote_Round v' \<and> vote_BlockID v = vote_BlockID v' \<and> vote_Timestamp v = vote_Timestamp v'"
proof -
  obtain m m' z z' where m: "CanonicalizeVote c v = Some m" "CanonicalVote_Marshal ce m = Some z" "MarshalDelimited z = b"
    "CanonicalizeVote c' v' = Some m'" "CanonicalVote_Marshal ce m' = Some z'" "MarshalDelimited z' = b"
    using assms(2,3) by (auto simp: VoteSignBytes_def split: bind_splits)
  have "cv_range m" "cv_range m'"
    using CanonicalizeVote_fields [OF m(1)] CanonicalizeVote_fields [OF m(4)] assms(4-)
    by (auto simp: cv_range_def in64_def in32_def)
  moreover have "z = z'" using m(3,6) MarshalDelimited_inj by metis
  ultimately have "m = m'" using CanonicalVote_Marshal_inj [OF assms(1)] m(2,5) by blast
  with m(1,4) show ?thesis using CanonicalizeVote_inj by blast
qed

lemma BlockID_Key_inj:
  assumes "BlockID_IsZero a \<or> BlockID_IsComplete a" and "BlockID_IsZero b \<or> BlockID_IsComplete b"
    and "BlockID_Key a = BlockID_Key b"
  shows "a = b"
proof -
  have len: "length (BlockID_Key x) = 0 \<longleftrightarrow> BlockID_IsZero x" if "BlockID_IsZero x \<or> BlockID_IsComplete x" for x
    using that by (auto simp: BlockID_IsZero_iff zeroBlockID_def BlockID_Key_def BlockID_IsComplete_def
        PartSetHeader_Marshal_def pb_varint_def pb_bytes_def)
  show ?thesis
  proof (cases "BlockID_IsZero a")
    case True
    then show ?thesis using assms len by (metis BlockID_IsZero_iff)
  next
    case False
    then have "\<not> BlockID_IsZero b" using assms len by metis
    with False assms have "length (bid_Hash a) = length (bid_Hash b)" by (simp add: BlockID_IsComplete_def)
    then have "bid_Hash a = bid_Hash b"
      "PartSetHeader_Marshal (bid_PartSetHeader a) = PartSetHeader_Marshal (bid_PartSetHeader b)"
      using assms(3) by (simp_all add: BlockID_Key_def)
    then show ?thesis using PartSetHeader_Marshal_inj by (intro BlockID.equality) auto
  qed
qed

section \<open>Properties\<close>

definition demo_block :: BlockID where
  "demo_block = \<lparr>bid_Hash = replicate 32 1, bid_PartSetHeader = \<lparr>psh_Total = 1, psh_Hash = replicate 32 2\<rparr>\<rparr>"

definition demo_vote :: "int \<Rightarrow> int \<Rightarrow> Vote" where
  "demo_vote typ round = \<lparr>vote_Type = typ, vote_Height = 1, vote_Round = round, vote_BlockID = demo_block,
     vote_Timestamp = 3, vote_ValidatorAddress = [1], vote_ValidatorIndex = 0, vote_Signature = [],
     vote_Extension = [], vote_ExtensionSignature = []\<rparr>"

lemma demo_vote_signs: "\<exists>b. VoteSignBytes demo_env [7] (demo_vote typ round) = Some b"
  by (simp add: VoteSignBytes_def CanonicalizeVote_def CanonicalizeBlockID_def CanonicalVote_Marshal_def
      BlockID_ValidateBasic_def ValidateHash_def PartSetHeader_ValidateBasic_def demo_vote_def
      demo_block_def demo_env_def)

text \<open>C13. The bytes a validator signs determine the vote: votes with the same sign bytes agree on the
  chain, the type, the height, the round, the block and the time. So a signature cannot be moved
  to another vote.\<close>

theorem VoteSignBytes_injective:
  assumes "time_injective ce" and "VoteSignBytes ce c v = Some b" and "VoteSignBytes ce c' v' = Some b"
    and "in32 (vote_Type v)" and "in64 (vote_Height v)" and "in32 (vote_Round v)"
    and "in32 (vote_Type v')" and "in64 (vote_Height v')" and "in32 (vote_Round v')"
  shows "c = c' \<and> vote_Type v = vote_Type v' \<and> vote_Height v = vote_Height v' \<and>
    vote_Round v = vote_Round v' \<and> vote_BlockID v = vote_BlockID v' \<and> vote_Timestamp v = vote_Timestamp v'"
  using VoteSignBytes_inj [OF assms] .

theorem VoteSignBytes_injective_witness:
  "VoteSignBytes demo_env [7] (demo_vote 1 0) \<noteq> VoteSignBytes demo_env [7] (demo_vote 1 1)"
proof
  assume eq: "VoteSignBytes demo_env [7] (demo_vote 1 0) = VoteSignBytes demo_env [7] (demo_vote 1 1)"
  obtain b where b: "VoteSignBytes demo_env [7] (demo_vote 1 0) = Some b"
    using demo_vote_signs by blast
  have "vote_Round (demo_vote 1 0) = vote_Round (demo_vote 1 1)"
    using VoteSignBytes_injective [OF demo_env_time b eq [symmetric, unfolded b]]
    by (simp add: demo_vote_def in32_def in64_def)
  then show False by (simp add: demo_vote_def)
qed

text \<open>C14. The three kinds of signed messages are separated: no vote has the sign bytes of a proposal
  or of a vote extension.\<close>

theorem sign_bytes_separated:
  assumes "VoteSignBytes ce c v = Some b" and "IsVoteTypeValid (vote_Type v)"
  shows "ProposalSignBytes ce c' p \<noteq> Some b \<and> VoteExtensionSignBytes c' v' \<noteq> b"
proof -
  obtain m z where m: "CanonicalizeVote c v = Some m" "CanonicalVote_Marshal ce m = Some z" "MarshalDelimited z = b"
    using assms(1) by (auto simp: VoteSignBytes_def split: bind_splits)
  have t: "in64 (cv_Type m)" "cv_Type m \<noteq> 0" "cv_Type m \<noteq> ProposalType"
    using CanonicalizeVote_fields [OF m(1)] assms(2) by (auto simp: IsVoteTypeValid_def in64_def)
  have "ProposalSignBytes ce c' p \<noteq> Some b"
  proof
    assume "ProposalSignBytes ce c' p = Some b"
    then obtain q z' where q: "CanonicalizeProposal c' p = Some q" "CanonicalProposal_Marshal ce q = Some z'"
        "MarshalDelimited z' = b"
      by (auto simp: ProposalSignBytes_def split: bind_splits)
    have "cp_Type q = ProposalType" using q(1) by (auto simp: CanonicalizeProposal_def split: bind_splits)
    moreover have "z' = z" using q(3) m(3) MarshalDelimited_inj by metis
    ultimately show False
      using vote_proposal_Marshal [OF m(2) _ t(1)] q(2) t(3) by (auto simp: in64_def)
  qed
  moreover have "VoteExtensionSignBytes c' v' \<noteq> b"
    using vote_extension_Marshal [OF m(2) t(1,2)] m(3) MarshalDelimited_inj
    by (metis VoteExtensionSignBytes_def)
  ultimately show ?thesis by blast
qed

theorem sign_bytes_separated_witness:
  "\<exists>b. VoteSignBytes demo_env [7] (demo_vote 1 0) = Some b \<and>
     VoteExtensionSignBytes [7] (demo_vote 1 0) \<noteq> b"
proof -
  obtain b where "VoteSignBytes demo_env [7] (demo_vote 1 0) = Some b"
    using demo_vote_signs by blast
  moreover from this have "VoteExtensionSignBytes [7] (demo_vote 1 0) \<noteq> b"
    using sign_bytes_separated [of demo_env "[7]" "demo_vote 1 0" b]
    by (simp add: IsVoteTypeValid_def demo_vote_def)
  ultimately show ?thesis by blast
qed

text \<open>C29. The key under which votes are filed determines the block, for the block ids that a validated
  vote can carry.\<close>

theorem BlockID_Key_injective:
  assumes "Vote_ValidateBasic v = None" and "Vote_ValidateBasic w = None"
    and "BlockID_Key (vote_BlockID v) = BlockID_Key (vote_BlockID w)"
  shows "vote_BlockID v = vote_BlockID w"
proof (rule BlockID_Key_inj [OF _ _ assms(3)])
  show "BlockID_IsZero (vote_BlockID v) \<or> BlockID_IsComplete (vote_BlockID v)"
    "BlockID_IsZero (vote_BlockID w) \<or> BlockID_IsComplete (vote_BlockID w)"
    using assms(1,2) by (auto simp: Vote_ValidateBasic_def split: if_splits)
qed

theorem BlockID_Key_injective_witness:
  "BlockID_Key demo_block \<noteq> BlockID_Key zeroBlockID"
proof
  let ?v = "(demo_vote 1 0)\<lparr>vote_ValidatorAddress := replicate 20 1, vote_Signature := [1]\<rparr>"
  let ?w = "?v\<lparr>vote_BlockID := zeroBlockID\<rparr>"
  assume "BlockID_Key demo_block = BlockID_Key zeroBlockID"
  then have "BlockID_Key (vote_BlockID ?v) = BlockID_Key (vote_BlockID ?w)" by (simp add: demo_vote_def)
  moreover have "Vote_ValidateBasic ?v = None" "Vote_ValidateBasic ?w = None"
    by (simp_all add: Vote_ValidateBasic_def IsVoteTypeValid_def demo_vote_def demo_block_def zeroBlockID_def
        BlockID_ValidateBasic_def ValidateHash_def PartSetHeader_ValidateBasic_def BlockID_IsComplete_def
        BlockID_IsZero_def PartSetHeader_IsZero_def)
  ultimately have "vote_BlockID ?v = vote_BlockID ?w" by (intro BlockID_Key_injective)
  then show False by (simp add: demo_vote_def demo_block_def zeroBlockID_def)
qed

end
