(* ===== verification/Bit_Array.thy ===== *)
theory Bit_Array
  imports Safe_Math
begin

unbundle bit_operations_syntax

text \<open>
  \<open>libs/bits/bit_array.go\<close>: bit arrays packed in 64-bit words. A nil \<open>*BitArray\<close> is \<open>None\<close>
  of an option; an operation that can index \<open>Elems\<close> out of range returns an option whose
  \<open>None\<close> is the panic. The mutex only serialises the operations, each of which is one step
  here. The theory proves that the packed representation implements a sequence of booleans
  (\<open>ba_nth\<close>).
\<close>

section \<open>The structure and its operations\<close>

record BitArray =
  Bits :: int
  Elems :: "64 word list"

text \<open>\<open>uint64(1) << uint(k)\<close>: a negative \<open>k\<close> becomes a shift count beyond the width.\<close>

definition shl1 :: "int \<Rightarrow> 64 word" where
  "shl1 k = (if 0 \<le> k then push_bit (nat k) 1 else 0)"

definition NewBitArray :: "int \<Rightarrow> BitArray option" where
  "NewBitArray n =
     (if n \<le> 0 then None
      else Some \<lparr>Bits = n, Elems = replicate (nat ((n + 63) sdiv 64)) 0\<rparr>)"

definition getIndex :: "BitArray \<Rightarrow> int \<Rightarrow> bool option" where
  "getIndex bA i =
     (if i \<ge> Bits bA then Some False
      else do {
        e \<leftarrow> slice_get (Elems bA) (i sdiv 64);
        Some ((e AND shl1 (i smod 64)) > 0)
      })"

definition GetIndex :: "BitArray option \<Rightarrow> int \<Rightarrow> bool option" where
  "GetIndex p i = (case p of None \<Rightarrow> Some False | Some bA \<Rightarrow> getIndex bA i)"

definition setIndex :: "BitArray \<Rightarrow> int \<Rightarrow> bool \<Rightarrow> (BitArray \<times> bool) option" where
  "setIndex bA i v =
     (if i \<ge> Bits bA then Some (bA, False)
      else do {
        e \<leftarrow> slice_get (Elems bA) (i sdiv 64);
        es \<leftarrow> slice_set (Elems bA) (i sdiv 64)
               (if v then e OR shl1 (i smod 64) else e AND NOT (shl1 (i smod 64)));
        Some (bA\<lparr>Elems := es\<rparr>, True)
      })"

definition SetIndex :: "BitArray option \<Rightarrow> int \<Rightarrow> bool \<Rightarrow> (BitArray option \<times> bool) option" where
  "SetIndex p i v =
     (case p of
        None \<Rightarrow> Some (None, False)
      | Some bA \<Rightarrow> do { (bA', ok) \<leftarrow> setIndex bA i v; Some (Some bA', ok) })"

text \<open>The loop of \<open>NewBitArrayFromFn\<close> over the indices from \<open>i\<close> on.\<close>

fun from_fn_loop :: "nat \<Rightarrow> nat \<Rightarrow> (nat \<Rightarrow> bool) \<Rightarrow> 64 word list \<Rightarrow> 64 word list" where
  "from_fn_loop i 0 fn es = es"
| "from_fn_loop i (Suc k) fn es =
     from_fn_loop (Suc i) k fn
       (if fn i then es[i div 64 := (es ! (i div 64)) OR push_bit (i mod 64) 1] else es)"

definition NewBitArrayFromFn :: "int \<Rightarrow> (nat \<Rightarrow> bool) \<Rightarrow> BitArray option" where
  "NewBitArrayFromFn n fn =
     (if n \<le> 0 then None
      else Some \<lparr>Bits = n,
        Elems = from_fn_loop 0 (nat n) fn (replicate (nat ((n + 63) sdiv 64)) 0)\<rparr>)"

definition BitArray_Size :: "BitArray option \<Rightarrow> int" where
  "BitArray_Size p = (case p of None \<Rightarrow> 0 | Some bA \<Rightarrow> Bits bA)"

definition copyBits :: "BitArray \<Rightarrow> int \<Rightarrow> BitArray" where
  "copyBits bA n =
     \<lparr>Bits = n, Elems = slice_copy (replicate (nat ((n + 63) sdiv 64)) 0) (Elems bA)\<rparr>"

text \<open>
  The element-wise loops \<open>for i := 0; i < k; i++ { c[i] = f(c[i], o[i]) }\<close>; the callers pass a
  \<open>k\<close>, and reading or writing beyond either slice panics.
\<close>

definition zip_prefix ::
    "nat \<Rightarrow> (64 word \<Rightarrow> 64 word \<Rightarrow> 64 word) \<Rightarrow> 64 word list \<Rightarrow> 64 word list \<Rightarrow> 64 word list option" where
  "zip_prefix k f cs os =
     (if k \<le> length cs \<and> k \<le> length os
      then Some (map2 f (take k cs) (take k os) @ drop k cs) else None)"

definition BitArray_Or :: "BitArray option \<Rightarrow> BitArray option \<Rightarrow> BitArray option option" where
  "BitArray_Or p q =
     (case (p, q) of
        (None, None) \<Rightarrow> Some None
      | (None, Some ob) \<Rightarrow> Some (Some ob)
      | (Some bA, None) \<Rightarrow> Some (Some bA)
      | (Some bA, Some ob) \<Rightarrow>
          let c = copyBits bA (MaxInt (Bits bA) (Bits ob));
              smaller = min (length (Elems bA)) (length (Elems ob))
          in do {
            es \<leftarrow> zip_prefix smaller (OR) (Elems c) (Elems ob);
            Some (Some (c\<lparr>Elems := es\<rparr>))
          })"

definition BitArray_And :: "BitArray option \<Rightarrow> BitArray option \<Rightarrow> BitArray option option" where
  "BitArray_And p q =
     (case (p, q) of
        (Some bA, Some ob) \<Rightarrow>
          let c = copyBits bA (MinInt (Bits bA) (Bits ob))
          in do {
            es \<leftarrow> zip_prefix (length (Elems c)) (AND) (Elems c) (Elems ob);
            Some (Some (c\<lparr>Elems := es\<rparr>))
          }
      | _ \<Rightarrow> Some None)"

definition BitArray_Not :: "BitArray option \<Rightarrow> BitArray option" where
  "BitArray_Not p =
     (case p of None \<Rightarrow> None | Some bA \<Rightarrow> Some (bA\<lparr>Elems := map NOT (Elems bA)\<rparr>))"

definition BitArray_Sub :: "BitArray option \<Rightarrow> BitArray option \<Rightarrow> BitArray option option" where
  "BitArray_Sub p q =
     (case (p, q) of
        (Some bA, Some ob) \<Rightarrow>
          let c = copyBits bA (Bits bA);
              smaller = min (length (Elems bA)) (length (Elems ob))
          in do {
            es \<leftarrow> zip_prefix smaller (\<lambda>x y. x AND NOT y) (Elems c) (Elems ob);
            Some (Some (c\<lparr>Elems := es\<rparr>))
          }
      | _ \<Rightarrow> Some None)"

definition IsEmpty :: "BitArray option \<Rightarrow> bool" where
  "IsEmpty p = (case p of None \<Rightarrow> True | Some bA \<Rightarrow> list_all (\<lambda>e. \<not> e > 0) (Elems bA))"

definition IsFull :: "BitArray option \<Rightarrow> bool option" where
  "IsFull p =
     (case p of
        None \<Rightarrow> Some True
      | Some bA \<Rightarrow>
          if Elems bA = [] then None
          else if \<not> list_all (\<lambda>e. NOT e = 0) (butlast (Elems bA)) then Some False
          else let lastElemBits = (Bits bA + 63) smod 64 + 1
               in Some ((last (Elems bA) + 1) AND (shl1 lastElemBits - 1) = 0))"

text \<open>\<open>bits.OnesCount64\<close>.\<close>

definition OnesCount64 :: "64 word \<Rightarrow> nat" where
  "OnesCount64 w = length (filter (bit w) [0..<64])"

definition getNumTrueIndices :: "BitArray \<Rightarrow> nat option" where
  "getNumTrueIndices bA =
     (let numElems = length (Elems bA);
          numFinalBits = Bits bA - (int numElems - 1) * 64
      in if numElems = 0 then (if numFinalBits \<le> 0 then Some 0 else None)
         else Some (sum_list (map OnesCount64 (butlast (Elems bA)))
           + length (filter (\<lambda>i. (last (Elems bA) AND shl1 (int i)) > 0) [0..<nat numFinalBits])))"

text \<open>
  \<open>getNthTrueIndex\<close>: the inner loop scans the bits of one word from \<open>j\<close> on, counting the set
  ones; it returns the index or the count it reached.
\<close>

fun nth_in_word :: "64 word \<Rightarrow> nat \<Rightarrow> nat list \<Rightarrow> nat \<Rightarrow> nat + nat" where
  "nth_in_word e n [] count = Inr count"
| "nth_in_word e n (j # js) count =
     (if e AND shl1 (int j) \<noteq> 0
      then (if count = n then Inl j else nth_in_word e n js (Suc count))
      else nth_in_word e n js count)"

fun nth_in_elems :: "64 word list \<Rightarrow> nat \<Rightarrow> nat \<Rightarrow> nat \<Rightarrow> int" where
  "nth_in_elems [] i n count = -1"
| "nth_in_elems (e # es) i n count =
     (if count + OnesCount64 e \<ge> n
      then (case nth_in_word e n [0..<64] count of
              Inl j \<Rightarrow> int (i * 64 + j)
            | Inr count' \<Rightarrow> nth_in_elems es (Suc i) n count')
      else nth_in_elems es (Suc i) n (count + OnesCount64 e))"

definition getNthTrueIndex :: "BitArray \<Rightarrow> nat \<Rightarrow> int" where
  "getNthTrueIndex bA n = nth_in_elems (Elems bA) 0 n 0"

text \<open>\<open>PickRandom\<close>, the random number generator \<open>cmtrand.Intn\<close> being a parameter.\<close>

definition PickRandom :: "(nat \<Rightarrow> nat) \<Rightarrow> BitArray option \<Rightarrow> (int \<times> bool) option" where
  "PickRandom Intn p =
     (case p of
        None \<Rightarrow> Some (0, False)
      | Some bA \<Rightarrow> do {
          num \<leftarrow> getNumTrueIndices bA;
          if num = 0 then Some (0, False)
          else let index = getNthTrueIndex bA (Intn num)
               in if index = -1 then Some (0, False) else Some (index, True)
        })"

text \<open>\<open>Update\<close> overwrites the receiver's words in place.\<close>

definition BitArray_Update :: "BitArray option \<Rightarrow> BitArray option \<Rightarrow> BitArray option" where
  "BitArray_Update p q =
     (case (p, q) of
        (Some bA, Some ob) \<Rightarrow> Some (bA\<lparr>Elems := slice_copy (Elems bA) (Elems ob)\<rparr>)
      | _ \<Rightarrow> p)"

definition MarshalJSON_bits :: "BitArray option \<Rightarrow> string option" where
  "MarshalJSON_bits p =
     (case p of
        None \<Rightarrow> Some ''null''
      | Some bA \<Rightarrow> do {
          bs \<leftarrow> those (map (\<lambda>i. getIndex bA (int i)) [0..<nat (Bits bA)]);
          Some (CHR 0x22 # map (\<lambda>b. if b then CHR ''x'' else CHR ''_'') bs @ [CHR 0x22])
        })"

text \<open>
  \<open>UnmarshalJSON\<close>, with the regular expression \<open>"([_x]*)"\<close> written out; \<open>Inl ()\<close> is the format
  error.
\<close>

definition bits_match :: "string \<Rightarrow> string option" where
  "bits_match b =
     (if length b \<ge> 2 \<and> hd b = CHR 0x22 \<and> last b = CHR 0x22
         \<and> list_all (\<lambda>c. c = CHR ''_'' \<or> c = CHR ''x'') (butlast (tl b))
      then Some (butlast (tl b)) else None)"

fun set_bits_loop :: "string \<Rightarrow> nat \<Rightarrow> BitArray option \<Rightarrow> BitArray option option" where
  "set_bits_loop [] i p = Some p"
| "set_bits_loop (c # cs) i p =
     (if c = CHR ''x'' then do { (p', ok) \<leftarrow> SetIndex p (int i) True; set_bits_loop cs (Suc i) p' }
      else set_bits_loop cs (Suc i) p)"

definition UnmarshalJSON_bits :: "string \<Rightarrow> (unit + BitArray) option" where
  "UnmarshalJSON_bits b =
     (if b = ''null'' then Some (Inr \<lparr>Bits = 0, Elems = []\<rparr>)
      else case bits_match b of
        None \<Rightarrow> Some (Inl ())
      | Some bits \<Rightarrow>
          (case NewBitArray (int (length bits)) of
             None \<Rightarrow> Some (Inr \<lparr>Bits = 0, Elems = []\<rparr>)
           | Some bA2 \<Rightarrow> do {
               p \<leftarrow> set_bits_loop bits 0 (Some bA2);
               map_option Inr p
             }))"

section \<open>The abstraction\<close>

definition ba_wf :: "BitArray \<Rightarrow> bool" where
  "ba_wf bA \<longleftrightarrow> 0 < Bits bA \<and> length (Elems bA) = nat ((Bits bA + 63) div 64)"

text \<open>The \<open>i\<close>-th bit; beyond \<open>Bits\<close> it is false.\<close>

definition ba_nth :: "BitArray \<Rightarrow> nat \<Rightarrow> bool" where
  "ba_nth bA i \<longleftrightarrow> int i < Bits bA \<and> bit (Elems bA ! (i div 64)) (i mod 64)"

text \<open>No bit is set in the unused part of the last word.\<close>

definition ba_clean :: "BitArray \<Rightarrow> bool" where
  "ba_clean bA \<longleftrightarrow>
     (\<forall>i < 64 * length (Elems bA). Bits bA \<le> int i \<longrightarrow> \<not> bit (Elems bA ! (i div 64)) (i mod 64))"

definition ba_set :: "BitArray \<Rightarrow> nat set" where
  "ba_set bA = {i. ba_nth bA i}"

section \<open>Word-level facts\<close>

lemma shl1_nat [simp]: "shl1 (int n) = 2 ^ n"
  by (simp add: shl1_def push_bit_eq_mult)

lemma int_sdiv_64 [simp]: "int i sdiv 64 = int (i div 64)"
  by (simp add: sdiv_nonneg zdiv_int)

lemma int_smod_64 [simp]: "int i smod 64 = int (i mod 64)"
  by (cases "i = 0") (simp_all add: signed_modulo_int_def zmod_int)

lemma and_shl1_iff_bit [simp]: "(e AND (2::64 word) ^ n) > 0 \<longleftrightarrow> bit e n"
  by (simp add: word_gt_0 and_exp_eq_0_iff_not_bit)

lemma bit_exp_64: "bit ((2::64 word) ^ m) n \<longleftrightarrow> n = m \<and> m < 64"
  by (auto simp: bit_exp_iff)

lemma bit_64_lt: "bit (w::64 word) n \<Longrightarrow> n < 64"
  using bit_imp_le_length [of w n] by simp

lemma ba_wf_length: "ba_wf bA \<Longrightarrow> int (length (Elems bA)) = (Bits bA + 63) div 64"
  by (auto simp: ba_wf_def pos_imp_zdiv_nonneg_iff)

lemma ba_wf_index: "ba_wf bA \<Longrightarrow> int i < Bits bA \<Longrightarrow> i div 64 < length (Elems bA)"
  using ba_wf_length [of bA] by linarith

section \<open>Single bits\<close>

lemma getIndex_eq: "ba_wf bA \<Longrightarrow> getIndex bA (int i) = Some (ba_nth bA i)"
  by (auto simp: getIndex_def ba_nth_def ba_wf_index)

lemma setIndex_eq:
  assumes "ba_wf bA" and "int i < Bits bA"
  shows "\<exists>bA'. setIndex bA (int i) v = Some (bA', True) \<and> ba_wf bA' \<and> Bits bA' = Bits bA \<and>
     (\<forall>j. ba_nth bA' j = (if j = i then v else ba_nth bA j))"
proof -
  let ?e = "Elems bA ! (i div 64)"
  let ?e' = "if v then ?e OR 2 ^ (i mod 64) else ?e AND NOT (2 ^ (i mod 64))"
  let ?bA = "bA\<lparr>Elems := (Elems bA)[i div 64 := ?e']\<rparr>"
  have len: "i div 64 < length (Elems bA)"
    using assms by (rule ba_wf_index)
  have bit': "bit ?e' k = (if k = i mod 64 then v else bit ?e k)" for k
    using bit_64_lt [of ?e k]
    by (auto simp: bit_or_iff bit_and_iff bit_not_iff bit_exp_64)
  have "ba_nth ?bA j = (if j = i then v else ba_nth bA j)" for j
  proof (cases "j div 64 = i div 64")
    case True
    then have "j mod 64 = i mod 64 \<longleftrightarrow> j = i"
      by (metis div_mult_mod_eq)
    with True len assms(2) bit' [of "j mod 64"] show ?thesis
      by (auto simp: ba_nth_def)
  next
    case False
    then show ?thesis by (auto simp: ba_nth_def)
  qed
  moreover have "setIndex bA (int i) v = Some (?bA, True)"
    using len assms(2) by (simp add: setIndex_def)
  moreover have "ba_wf ?bA" using assms(1) by (simp add: ba_wf_def)
  ultimately show ?thesis by (intro exI [of _ ?bA]) simp
qed

lemma setIndex_beyond: "Bits bA \<le> i \<Longrightarrow> setIndex bA i v = Some (bA, False)"
  by (simp add: setIndex_def)

lemma NewBitArray_eq:
  assumes "0 < n"
  obtains bA where "NewBitArray n = Some bA" and "ba_wf bA" and "Bits bA = n"
    and "\<And>i. \<not> ba_nth bA i"
proof -
  let ?bA = "\<lparr>Bits = n, Elems = replicate (nat ((n + 63) div 64)) 0\<rparr>"
  have wf: "ba_wf ?bA" using assms by (simp add: ba_wf_def)
  have "\<not> ba_nth ?bA i" for i
    using ba_wf_index [OF wf, of i] by (auto simp: ba_nth_def)
  with wf show ?thesis
    using assms that [of ?bA] by (simp add: NewBitArray_def sdiv_nonneg)
qed

lemma from_fn_loop_bits:
  assumes "64 * length es \<ge> i + k"
  shows "length (from_fn_loop i k fn es) = length es \<and>
     (\<forall>j < 64 * length es. bit (from_fn_loop i k fn es ! (j div 64)) (j mod 64) =
        (bit (es ! (j div 64)) (j mod 64) \<or> (i \<le> j \<and> j < i + k \<and> fn j)))"
  using assms
proof (induction k arbitrary: i es)
  case 0
  then show ?case by auto
next
  case (Suc k)
  let ?es = "if fn i then es[i div 64 := (es ! (i div 64)) OR push_bit (i mod 64) 1] else es"
  have len: "length ?es = length es" by simp
  have i: "i div 64 < length es" using Suc.prems by linarith
  have step: "bit (?es ! (j div 64)) (j mod 64) = (bit (es ! (j div 64)) (j mod 64) \<or> (j = i \<and> fn i))"
    if "j < 64 * length es" for j
  proof (cases "j div 64 = i div 64")
    case True
    then have "j mod 64 = i mod 64 \<longleftrightarrow> j = i" by (metis div_mult_mod_eq)
    with True i show ?thesis
      by (auto simp: bit_or_iff push_bit_eq_mult bit_exp_64)
  next
    case False
    then show ?thesis by auto
  qed
  have "64 * length ?es \<ge> Suc i + k" using Suc.prems len by simp
  from Suc.IH [OF this] show ?case
    unfolding from_fn_loop.simps len using step by (auto simp: less_Suc_eq_le Suc_le_eq)
qed

lemma NewBitArrayFromFn_eq:
  assumes "0 < n"
  obtains bA where "NewBitArrayFromFn n fn = Some bA" and "ba_wf bA" and "ba_clean bA"
    and "Bits bA = n" and "\<And>i. ba_nth bA i \<longleftrightarrow> int i < n \<and> fn i"
proof -
  let ?es = "replicate (nat ((n + 63) div 64)) (0 :: 64 word)"
  let ?bA = "\<lparr>Bits = n, Elems = from_fn_loop 0 (nat n) fn ?es\<rparr>"
  have "64 * length ?es \<ge> 0 + nat n" using assms by simp
  note loop = from_fn_loop_bits [OF this, of fn]
  have wf: "ba_wf ?bA" using assms loop by (simp add: ba_wf_def)
  have lt: "i < 64 * length ?es" if "int i < n" for i using that by simp
  have bits: "bit (Elems ?bA ! (j div 64)) (j mod 64) = (j < nat n \<and> fn j)" if "j < 64 * length ?es" for j
    using loop that by (simp add: less_mult_imp_div_less mult.commute)
  have "ba_nth ?bA i \<longleftrightarrow> int i < n \<and> fn i" for i
    using bits [of i] lt [of i] by (auto simp: ba_nth_def zless_nat_eq_int_zless)
  moreover have "ba_clean ?bA"
    unfolding ba_clean_def using loop bits by auto
  moreover have "NewBitArrayFromFn n fn = Some ?bA"
    using assms by (simp add: NewBitArrayFromFn_def sdiv_nonneg)
  ultimately show ?thesis using wf that [of ?bA] by simp
qed

section \<open>Bitwise operations\<close>

lemma zip_prefix_nth:
  assumes "zip_prefix k f cs os = Some es"
  shows "length es = length cs \<and>
     (\<forall>i < length cs. es ! i = (if i < k then f (cs ! i) (os ! i) else cs ! i))"
proof -
  from assms have k: "k \<le> length cs" "k \<le> length os"
    and es: "es = map2 f (take k cs) (take k os) @ drop k cs"
    by (auto simp: zip_prefix_def split: if_splits)
  then show ?thesis by (auto simp: nth_append min_def)
qed

lemma zip_prefix_defined:
  "k \<le> length cs \<Longrightarrow> k \<le> length os \<Longrightarrow> \<exists>es. zip_prefix k f cs os = Some es"
  by (simp add: zip_prefix_def)

lemma copyBits_nth:
  assumes "ba_wf bA" and "0 < n"
  shows "ba_wf (copyBits bA n)" and "Bits (copyBits bA n) = n"
    and "i < length (Elems (copyBits bA n)) \<Longrightarrow>
      Elems (copyBits bA n) ! i = (if i < length (Elems bA) then Elems bA ! i else 0)"
  using assms by (auto simp: copyBits_def ba_wf_def sdiv_nonneg nth_slice_copy)

lemma ba_wf_mono_length:
  assumes "ba_wf a" and "ba_wf b" and "Bits a \<le> Bits b"
  shows "length (Elems a) \<le> length (Elems b)"
proof -
  have "(Bits a + 63) div 64 \<le> (Bits b + 63) div 64"
    using assms(3) by (intro zdiv_mono1) auto
  then show ?thesis
    using assms(1,2) by (simp add: ba_wf_def nat_mono)
qed

lemma Or_eq:
  assumes "ba_wf a" and "ba_wf b"
  shows "\<exists>c. BitArray_Or (Some a) (Some b) = Some (Some c) \<and> ba_wf c \<and>
     Bits c = max (Bits a) (Bits b) \<and>
     (\<forall>i. ba_nth c i = (int i < max (Bits a) (Bits b) \<and>
        ((i div 64 < length (Elems a) \<and> bit (Elems a ! (i div 64)) (i mod 64)) \<or>
         (i div 64 < min (length (Elems a)) (length (Elems b)) \<and>
            bit (Elems b ! (i div 64)) (i mod 64)))))"
proof -
  let ?n = "max (Bits a) (Bits b)"
  let ?k = "min (length (Elems a)) (length (Elems b))"
  let ?c = "copyBits a ?n"
  have n: "0 < ?n" using assms by (auto simp: ba_wf_def)
  note c = copyBits_nth [OF assms(1) n]
  have la: "length (Elems a) \<le> length (Elems ?c)" and lb: "length (Elems b) \<le> length (Elems ?c)"
    using ba_wf_mono_length [of _ ?c] assms c by auto
  then have "?k \<le> length (Elems ?c)" "?k \<le> length (Elems b)" by auto
  then obtain es where es: "zip_prefix ?k (OR) (Elems ?c) (Elems b) = Some es"
    using zip_prefix_defined by blast
  note z = zip_prefix_nth [OF es]
  let ?r = "?c\<lparr>Elems := es\<rparr>"
  have wf: "ba_wf ?r" using c(1) z by (simp add: ba_wf_def)
  have "BitArray_Or (Some a) (Some b) = Some (Some ?r)"
    using es by (simp add: BitArray_Or_def Let_def)
  moreover have "ba_nth ?r i = (int i < ?n \<and>
        ((i div 64 < length (Elems a) \<and> bit (Elems a ! (i div 64)) (i mod 64)) \<or>
         (i div 64 < ?k \<and> bit (Elems b ! (i div 64)) (i mod 64))))" for i
  proof (cases "int i < ?n")
    case True
    then have len: "i div 64 < length (Elems ?c)"
      using ba_wf_index [OF c(1)] c(2) by simp
    have "Elems ?c ! (i div 64) = (if i div 64 < length (Elems a) then Elems a ! (i div 64) else 0)"
      using c(3) [OF len] .
    then show ?thesis
      using True len z c(2) by (auto simp: ba_nth_def bit_or_iff)
  next
    case False
    then show ?thesis using c(2) by (simp add: ba_nth_def)
  qed
  ultimately show ?thesis using wf c(2) by (intro exI [of _ ?r]) simp
qed

lemma And_eq:
  assumes "ba_wf a" and "ba_wf b"
  shows "\<exists>c. BitArray_And (Some a) (Some b) = Some (Some c) \<and> ba_wf c \<and>
     Bits c = min (Bits a) (Bits b) \<and> (\<forall>i. ba_nth c i = (ba_nth a i \<and> ba_nth b i))"
proof -
  let ?n = "min (Bits a) (Bits b)"
  let ?c = "copyBits a ?n"
  have n: "0 < ?n" using assms by (auto simp: ba_wf_def)
  note c = copyBits_nth [OF assms(1) n]
  have la: "length (Elems ?c) \<le> length (Elems a)" and lb: "length (Elems ?c) \<le> length (Elems b)"
    using ba_wf_mono_length [of ?c] assms c by auto
  obtain es where es: "zip_prefix (length (Elems ?c)) (AND) (Elems ?c) (Elems b) = Some es"
    using zip_prefix_defined [OF order_refl lb] by blast
  note z = zip_prefix_nth [OF es]
  let ?r = "?c\<lparr>Elems := es\<rparr>"
  have wf: "ba_wf ?r" using c(1) z by (simp add: ba_wf_def)
  have "BitArray_And (Some a) (Some b) = Some (Some ?r)"
    using es by (simp add: BitArray_And_def Let_def)
  moreover have "ba_nth ?r i = (ba_nth a i \<and> ba_nth b i)" for i
  proof (cases "int i < ?n")
    case True
    then have len: "i div 64 < length (Elems ?c)"
      using ba_wf_index [OF c(1)] c(2) by simp
    then show ?thesis
      using True z c(2) c(3) [OF len] la by (auto simp: ba_nth_def bit_and_iff)
  next
    case False
    then show ?thesis using c(2) by (auto simp: ba_nth_def)
  qed
  ultimately show ?thesis using wf c(2) by (intro exI [of _ ?r]) simp
qed

lemma Sub_eq:
  assumes "ba_wf a" and "ba_wf b" and "ba_clean b"
  shows "\<exists>c. BitArray_Sub (Some a) (Some b) = Some (Some c) \<and> ba_wf c \<and>
     Bits c = Bits a \<and> (\<forall>i. ba_nth c i = (ba_nth a i \<and> \<not> ba_nth b i))"
proof -
  let ?k = "min (length (Elems a)) (length (Elems b))"
  let ?c = "copyBits a (Bits a)"
  have n: "0 < Bits a" using assms by (auto simp: ba_wf_def)
  note c = copyBits_nth [OF assms(1) n]
  have la: "length (Elems ?c) = length (Elems a)"
    using ba_wf_mono_length [of ?c a] ba_wf_mono_length [of a ?c] assms c by auto
  then have "?k \<le> length (Elems ?c)" "?k \<le> length (Elems b)" by auto
  then obtain es where es: "zip_prefix ?k (\<lambda>x y. x AND NOT y) (Elems ?c) (Elems b) = Some es"
    using zip_prefix_defined by blast
  note z = zip_prefix_nth [OF es]
  let ?r = "?c\<lparr>Elems := es\<rparr>"
  have wf: "ba_wf ?r" using c(1) z by (simp add: ba_wf_def)
  have "BitArray_Sub (Some a) (Some b) = Some (Some ?r)"
    using es by (simp add: BitArray_Sub_def Let_def)
  moreover have "ba_nth ?r i = (ba_nth a i \<and> \<not> ba_nth b i)" for i
  proof (cases "int i < Bits a")
    case True
    then have len: "i div 64 < length (Elems ?c)"
      using ba_wf_index [OF c(1)] c(2) by simp
    have nb: "ba_nth b i \<longleftrightarrow> i div 64 < length (Elems b) \<and> bit (Elems b ! (i div 64)) (i mod 64)"
    proof (cases "i div 64 < length (Elems b)")
      case True
      then have "i < 64 * length (Elems b)" by linarith
      with assms(3) True show ?thesis by (auto simp: ba_nth_def ba_clean_def not_le [symmetric])
    next
      case False
      with ba_wf_index [OF assms(2), of i] show ?thesis by (auto simp: ba_nth_def)
    qed
    show ?thesis
      using True z c(2) c(3) [OF len] la len
      by (auto simp: ba_nth_def [of a] ba_nth_def [of ?r] nb bit_and_iff bit_not_iff)
  next
    case False
    then show ?thesis using c(2) by (auto simp: ba_nth_def)
  qed
  ultimately show ?thesis using wf c(2) by (intro exI [of _ ?r]) simp
qed

lemma Not_eq:
  assumes "ba_wf a"
  shows "\<exists>c. BitArray_Not (Some a) = Some c \<and> ba_wf c \<and> Bits c = Bits a \<and>
     (\<forall>i. ba_nth c i = (int i < Bits a \<and> \<not> ba_nth a i))"
  using assms ba_wf_index [OF assms]
  by (auto simp: BitArray_Not_def ba_wf_def ba_nth_def bit_not_iff)

section \<open>Emptiness, fullness and counting\<close>

lemma word_eq_0_iff_bits: "(e::64 word) = 0 \<longleftrightarrow> (\<forall>j<64. \<not> bit e j)"
  by (auto simp: bit_eq_iff)

lemma word_eq_m1_iff_bits: "NOT (e::64 word) = 0 \<longleftrightarrow> (\<forall>j<64. bit e j)"
  by (auto simp: bit_eq_iff bit_not_iff)

lemma and_mask_succ_eq_0_iff:
  assumes "0 < k" and "k \<le> 64"
  shows "((w::64 word) + 1) AND (2 ^ k - 1) = 0 \<longleftrightarrow> (\<forall>j<k. bit w j)"
proof -
  have dvd: "(2::int) ^ k dvd 18446744073709551616"
    using le_imp_power_dvd [of k 64 "2::int"] assms by simp
  have "((w + 1) AND (2 ^ k - 1) = 0) = (take_bit k (w + 1) = 0)"
    by (simp add: take_bit_eq_mask mask_eq_exp_minus_1)
  also have "\<dots> = (take_bit k (uint (w + 1)) = 0)"
    by (metis uint_0_iff unsigned_take_bit_eq)
  also have "\<dots> = (take_bit k (uint w + 1) = 0)"
    using mod_mod_cancel [OF dvd] by (simp add: uint_word_ariths take_bit_eq_mod)
  also have "\<dots> = (take_bit k (uint w) = mask k)"
    by (rule take_bit_eq_mask_iff [symmetric])
  also have "\<dots> = (\<forall>j<k. bit (uint w) j)"
    by (auto simp: bit_eq_iff bit_take_bit_iff bit_mask_iff)
  also have "\<dots> = (\<forall>j<k. bit w j)"
    using assms by (simp add: bit_uint_iff)
  finally show ?thesis .
qed

lemma IsEmpty_eq:
  assumes "ba_wf a" and "ba_clean a"
  shows "IsEmpty (Some a) \<longleftrightarrow> (\<forall>i. \<not> ba_nth a i)"
proof
  assume "IsEmpty (Some a)"
  then have z: "\<And>e. e \<in> set (Elems a) \<Longrightarrow> e = 0"
    by (auto simp: IsEmpty_def list_all_iff word_gt_0)
  show "\<forall>i. \<not> ba_nth a i"
  proof
    fix i
    show "\<not> ba_nth a i"
      using z [OF nth_mem, of "i div 64"] ba_wf_index [OF assms(1), of i] by (auto simp: ba_nth_def)
  qed
next
  assume no: "\<forall>i. \<not> ba_nth a i"
  have "Elems a ! n = 0" if n: "n < length (Elems a)" for n
  proof -
    have "\<not> bit (Elems a ! n) j" if "j < 64" for j
    proof -
      have i: "(64 * n + j) div 64 = n" "(64 * n + j) mod 64 = j" "64 * n + j < 64 * length (Elems a)"
        using that n by auto
      show ?thesis
        using no [rule_format, of "64 * n + j"] assms(2) i
        by (auto simp: ba_nth_def ba_clean_def not_le [symmetric])
    qed
    then show ?thesis by (simp add: word_eq_0_iff_bits)
  qed
  then show "IsEmpty (Some a)"
    by (auto simp: IsEmpty_def list_all_length)
qed

lemma IsFull_eq:
  assumes wf: "ba_wf a"
  shows "IsFull (Some a) = Some (\<forall>i. int i < Bits a \<longrightarrow> ba_nth a i)"
proof -
  let ?L = "length (Elems a)"
  define k where k_def: "k = nat ((Bits a + 63) mod 64 + 1)"
  have B: "0 < Bits a" and L: "int ?L = (Bits a + 63) div 64"
    using wf ba_wf_length [OF wf] by (auto simp: ba_wf_def)
  have ne: "Elems a \<noteq> []" using L B by (auto simp: div_eq_0_iff)
  have smod: "(Bits a + 63) smod 64 + 1 = int k"
    using B by (simp add: signed_modulo_int_def k_def)
  have k: "0 < k" "k \<le> 64" by (simp_all add: k_def)
  have Bk: "Bits a = 64 * (int ?L - 1) + int k"
    using B unfolding L by (simp add: minus_mod_eq_mult_div [symmetric] k_def)
  have "(\<forall>e \<in> set (butlast (Elems a)). NOT e = 0) \<and>
        (last (Elems a) + 1) AND (2 ^ k - 1) = 0 \<longleftrightarrow> (\<forall>i. int i < Bits a \<longrightarrow> ba_nth a i)"
    (is "?left \<longleftrightarrow> ?right")
  proof -
    have "?left \<longleftrightarrow> (\<forall>n < ?L - 1. \<forall>j<64. bit (Elems a ! n) j) \<and> (\<forall>j < k. bit (Elems a ! (?L - 1)) j)"
      using ne k by (auto simp: and_mask_succ_eq_0_iff word_eq_m1_iff_bits last_conv_nth
          all_set_conv_all_nth nth_butlast)
    also have "\<dots> \<longleftrightarrow> ?right"
    proof (intro iffI conjI allI impI)
      fix i assume h: "(\<forall>n < ?L - 1. \<forall>j<64. bit (Elems a ! n) j) \<and> (\<forall>j < k. bit (Elems a ! (?L - 1)) j)"
        and i: "int i < Bits a"
      have lt: "i div 64 < ?L" using wf i by (rule ba_wf_index)
      show "ba_nth a i"
      proof (cases "i div 64 < ?L - 1")
        case True
        with h i show ?thesis by (simp add: ba_nth_def)
      next
        case False
        with lt have eq: "i div 64 = ?L - 1" by simp
        have "int i = 64 * int (i div 64) + int (i mod 64)"
          using div_mult_mod_eq [of i 64] by presburger
        moreover have "int (i div 64) = int ?L - 1" using eq lt by linarith
        ultimately have "int i = 64 * (int ?L - 1) + int (i mod 64)" by simp
        with Bk i have "i mod 64 < k" by linarith
        with h eq i show ?thesis by (simp add: ba_nth_def)
      qed
    next
      fix n j assume r: "\<forall>i. int i < Bits a \<longrightarrow> ba_nth a i" and n: "n < ?L - 1" and j: "j < (64::nat)"
      have "int n + 1 < int ?L" "int j < 64" using n j by linarith+
      then have "int (64 * n + j) < Bits a" using Bk by simp
      with r j show "bit (Elems a ! n) j" by (auto simp: ba_nth_def dest: spec [of _ "64 * n + j"])
    next
      fix j assume r: "\<forall>i. int i < Bits a \<longrightarrow> ba_nth a i" and j: "j < k"
      have "0 < ?L" using ne by simp
      then have "int (?L - 1) = int ?L - 1" by linarith
      then have "int (64 * (?L - 1) + j) < Bits a" using j Bk by simp
      with r have "ba_nth a (64 * (?L - 1) + j)" by blast
      moreover have "j < 64" using j k by linarith
      ultimately show "bit (Elems a ! (?L - 1)) j" by (simp add: ba_nth_def)
    qed
    finally show ?thesis .
  qed
  then show ?thesis
    using ne by (auto simp: IsFull_def Let_def smod list_all_iff)
qed

text \<open>The positions of the set bits, in increasing order.\<close>

definition bit_positions :: "64 word list \<Rightarrow> nat list" where
  "bit_positions es = filter (\<lambda>i. bit (es ! (i div 64)) (i mod 64)) [0..<64 * length es]"

lemma bit_positions_Nil [simp]: "bit_positions [] = []"
  by (simp add: bit_positions_def)

lemma map_plus_upt: "map ((+) m) [0..<n] = [m..<m + n]"
  by (induction n) auto

lemma filter_map_shift: "filter P (map f xs) = map f (filter (P \<circ> f) xs)"
  by (induction xs) auto

lemma bit_positions_Cons:
  "bit_positions (e # es) = filter (bit e) [0..<64] @ map ((+) 64) (bit_positions es)"
proof -
  have "[0..<64 * length (e # es)] = [0..<64] @ [64..<64 + 64 * length es]"
    using upt_add_eq_append [of 0 64 "64 * length es"] by (simp add: add.commute)
  also have "[64..<64 + 64 * length es] = map ((+) 64) [0..<64 * length es]"
    by (simp only: map_plus_upt)
  finally have split: "[0..<64 * length (e # es)] = [0..<64] @ map ((+) 64) [0..<64 * length es]" .
  have "filter (\<lambda>i. bit ((e # es) ! (i div 64)) (i mod 64)) [0..<64] = filter (bit e) [0..<64]"
    by (intro filter_cong) auto
  moreover have "(64 + x) div 64 - Suc 0 = x div 64" for x :: nat by simp
  ultimately show ?thesis
    unfolding bit_positions_def split by (simp add: filter_map_shift comp_def)
qed

lemma nth_in_word_eq:
  assumes "count \<le> n"
  shows "nth_in_word e n js count =
     (let ps = filter (bit e) js
      in if n - count < length ps then Inl (ps ! (n - count)) else Inr (count + length ps))"
  using assms
proof (induction js arbitrary: count)
  case Nil
  then show ?case by simp
next
  case (Cons j js)
  show ?case
  proof (cases "bit e j \<and> count \<noteq> n")
    case True
    with Cons.prems have "Suc count \<le> n" "n - count = Suc (n - Suc count)" by auto
    with True Cons.IH [of "Suc count"] show ?thesis by (simp add: Let_def and_exp_eq_0_iff_not_bit)
  next
    case False
    with Cons show ?thesis by (auto simp: Let_def and_exp_eq_0_iff_not_bit)
  qed
qed

lemma nth_in_elems_eq:
  assumes "count \<le> n"
  shows "nth_in_elems es i n count =
     (if n - count < length (bit_positions es)
      then int (i * 64 + bit_positions es ! (n - count)) else -1)"
  using assms
proof (induction es arbitrary: i count)
  case Nil
  then show ?case by simp
next
  case (Cons e es)
  let ?ps = "filter (bit e) [0..<64]"
  have oc: "OnesCount64 e = length ?ps" by (simp add: OnesCount64_def)
  show ?case
  proof (cases "n - count < length ?ps")
    case True
    then have ge: "n \<le> count + length ?ps" by simp
    have "nth_in_elems (e # es) i n count = int (i * 64 + ?ps ! (n - count))"
      using True ge Cons.prems by (simp add: oc nth_in_word_eq Let_def del: upt_conv_Cons)
    with True show ?thesis by (simp add: bit_positions_Cons nth_append)
  next
    case False
    then have le: "count + length ?ps \<le> n" using Cons.prems by simp
    have "nth_in_elems (e # es) i n count = nth_in_elems es (Suc i) n (count + length ?ps)"
      using False Cons.prems by (simp add: oc nth_in_word_eq Let_def)
    also have "\<dots> = (if n - (count + length ?ps) < length (bit_positions es)
        then int (Suc i * 64 + bit_positions es ! (n - (count + length ?ps))) else -1)"
      by (rule Cons.IH [OF le])
    finally show ?thesis
      using False le Cons.prems by (auto simp: bit_positions_Cons nth_append)
  qed
qed

lemma getNthTrueIndex_eq:
  "getNthTrueIndex bA n =
     (if n < length (bit_positions (Elems bA)) then int (bit_positions (Elems bA) ! n) else -1)"
  by (simp add: getNthTrueIndex_def nth_in_elems_eq)

text \<open>For an array with no stray bits these are the indices of the abstraction.\<close>

lemma bit_positions_clean:
  assumes "ba_wf a" and "ba_clean a"
  shows "bit_positions (Elems a) = filter (ba_nth a) [0..<nat (Bits a)]"
proof -
  let ?m = "64 * length (Elems a)"
  have le: "nat (Bits a) \<le> ?m"
    using ba_wf_length [OF assms(1)] by linarith
  have split: "[0..<?m] = [0..<nat (Bits a)] @ [nat (Bits a)..<?m]"
    using upt_add_eq_append [of 0 "nat (Bits a)" "?m - nat (Bits a)"] le by simp
  have "filter (\<lambda>i. bit (Elems a ! (i div 64)) (i mod 64)) [0..<?m] = filter (ba_nth a) [0..<?m]"
    using assms(2) by (intro filter_cong) (auto simp: ba_nth_def ba_clean_def not_le [symmetric])
  also have "\<dots> = filter (ba_nth a) [0..<nat (Bits a)] @ filter (ba_nth a) [nat (Bits a)..<?m]"
    by (simp only: split filter_append)
  also have "filter (ba_nth a) [nat (Bits a)..<?m] = []"
    using assms(1) by (auto simp: filter_empty_conv ba_nth_def ba_wf_def)
  finally have "filter (\<lambda>i. bit (Elems a ! (i div 64)) (i mod 64)) [0..<?m]
      = filter (ba_nth a) [0..<nat (Bits a)]" by simp
  then show ?thesis unfolding bit_positions_def .
qed

lemma sum_OnesCount64: "sum_list (map OnesCount64 es) = length (bit_positions es)"
  by (induction es) (auto simp: bit_positions_Cons OnesCount64_def)

lemma bit_positions_append:
  "bit_positions (es @ fs) = bit_positions es @ map ((+) (64 * length es)) (bit_positions fs)"
  by (induction es) (auto simp: bit_positions_Cons)

lemma getNumTrueIndices_eq:
  assumes "ba_wf a"
  shows "getNumTrueIndices a = Some (length (filter (ba_nth a) [0..<nat (Bits a)]))"
proof -
  let ?L = "length (Elems a)"
  have B: "0 < Bits a" and L: "int ?L = (Bits a + 63) div 64"
    using assms ba_wf_length [OF assms] by (auto simp: ba_wf_def)
  have ne: "Elems a \<noteq> []" using L B by (auto simp: div_eq_0_iff)
  let ?m = "64 * (?L - 1)"
  let ?r = "nat (Bits a - (int ?L - 1) * 64)"
  have m: "int ?m = (int ?L - 1) * 64" using ne by (simp add: of_nat_diff Suc_leI)
  have up: "64 * int ?L \<le> Bits a + 63" and lo: "Bits a + 63 < 64 * int ?L + 64"
    unfolding L by simp_all
  have r: "(int ?L - 1) * 64 \<le> Bits a" using up by simp
  then have ir: "int ?r = Bits a - (int ?L - 1) * 64" by simp
  have "int (nat (Bits a)) = int ?m + int ?r" unfolding m ir using B by simp
  then have total: "nat (Bits a) = ?m + ?r" by (simp only: of_nat_add [symmetric] of_nat_eq_iff)
  have b64: "?r \<le> 64" using lo by simp
  have "[0..<nat (Bits a)] = [0..<?m] @ map ((+) ?m) [0..<?r]"
    unfolding total map_plus_upt using upt_add_eq_append [of 0 ?m ?r] by simp
  moreover have "filter (ba_nth a) [0..<?m] = bit_positions (butlast (Elems a))"
    unfolding bit_positions_def using m r
    by (intro filter_cong) (auto simp: ba_nth_def nth_butlast less_mult_imp_div_less mult.commute)
  moreover have "filter (ba_nth a) (map ((+) ?m) [0..<?r])
      = map ((+) ?m) (filter (bit (last (Elems a))) [0..<?r])"
    unfolding filter_map_shift using b64 m r ne
    by (intro arg_cong [where f = "map ((+) ?m)"] filter_cong)
       (auto simp: ba_nth_def last_conv_nth)
  ultimately show ?thesis
    using ne by (simp add: getNumTrueIndices_def Let_def sum_OnesCount64)
qed

section \<open>The interface of a bit vector\<close>

text \<open>
  What the clients of a bit array rely on: a fresh vector has no bit set, and setting an index
  below the size succeeds and changes that bit only. Inside the locale, the vectors that record
  which entries of a slice of pointers are non-nil.
\<close>

locale bit_vector =
  fixes wf :: "'b \<Rightarrow> bool"
    and size :: "'b \<Rightarrow> int"
    and nth_bit :: "'b \<Rightarrow> nat \<Rightarrow> bool"
    and new :: "int \<Rightarrow> 'b"
    and upd :: "'b \<Rightarrow> int \<Rightarrow> bool \<Rightarrow> ('b \<times> bool) option"
  assumes new_law: "0 \<le> n \<Longrightarrow> wf (new n) \<and> size (new n) = n \<and> (\<forall>i. \<not> nth_bit (new n) i)"
    and upd_law: "wf b \<Longrightarrow> int i < size b \<Longrightarrow> \<exists>b'. upd b (int i) v = Some (b', True) \<and> wf b' \<and>
      size b' = size b \<and> (\<forall>j. nth_bit b' j = (if j = i then v else nth_bit b j))"
begin

definition mirrors :: "'b \<Rightarrow> 'v option list \<Rightarrow> bool" where
  "mirrors b xs \<longleftrightarrow> wf b \<and> size b = int (length xs) \<and>
     (\<forall>i < length xs. nth_bit b i = (xs ! i \<noteq> None))"

lemma mirrors_new: "mirrors (new (int n)) (replicate n None)"
  using new_law [of "int n"] by (simp add: mirrors_def)

lemma mirrors_upd:
  assumes "mirrors b xs" and "i < length xs"
  shows "\<exists>b'. upd b (int i) True = Some (b', True) \<and> mirrors b' (xs[i := Some v])"
  using assms upd_law [of b i True] by (fastforce simp: mirrors_def nth_list_update)

lemma mirrors_cong:
  assumes "mirrors b xs" and "length ys = length xs"
    and "\<And>i. i < length xs \<Longrightarrow> (ys ! i \<noteq> None) = (xs ! i \<noteq> None)"
  shows "mirrors b ys"
  using assms by (simp add: mirrors_def)

end

text \<open>A nil bit array is the vector of size 0.\<close>

definition bap_wf :: "BitArray option \<Rightarrow> bool" where
  "bap_wf p = (case p of None \<Rightarrow> True | Some bA \<Rightarrow> ba_wf bA)"

definition bap_nth :: "BitArray option \<Rightarrow> nat \<Rightarrow> bool" where
  "bap_nth p i = (case p of None \<Rightarrow> False | Some bA \<Rightarrow> ba_nth bA i)"

lemma NewBitArray_law:
  "0 \<le> n \<Longrightarrow> bap_wf (NewBitArray n) \<and> BitArray_Size (NewBitArray n) = n \<and> (\<forall>i. \<not> bap_nth (NewBitArray n) i)"
proof (cases "n = 0")
  case True
  then show ?thesis by (simp add: NewBitArray_def bap_wf_def BitArray_Size_def bap_nth_def)
next
  case False
  assume "0 \<le> n"
  with False have "0 < n" by simp
  then obtain bA where "NewBitArray n = Some bA" "ba_wf bA" "Bits bA = n" "\<And>i. \<not> ba_nth bA i"
    by (rule NewBitArray_eq) blast
  then show ?thesis by (simp add: bap_wf_def BitArray_Size_def bap_nth_def)
qed

lemma SetIndex_law:
  assumes "bap_wf p" and "int i < BitArray_Size p"
  shows "\<exists>p'. SetIndex p (int i) v = Some (p', True) \<and> bap_wf p' \<and>
     BitArray_Size p' = BitArray_Size p \<and> (\<forall>j. bap_nth p' j = (if j = i then v else bap_nth p j))"
proof (cases p)
  case None
  with assms show ?thesis by (simp add: BitArray_Size_def)
next
  case (Some bA)
  with assms have "ba_wf bA" "int i < Bits bA" by (auto simp: bap_wf_def BitArray_Size_def)
  from setIndex_eq [OF this, of v] Some show ?thesis
    by (auto simp: SetIndex_def bap_wf_def BitArray_Size_def bap_nth_def)
qed

interpretation bav: bit_vector bap_wf BitArray_Size bap_nth NewBitArray SetIndex
  using NewBitArray_law SetIndex_law by unfold_locales blast+

section \<open>Random picks and JSON\<close>

lemma filter_nth_upt_pos:
  "n < length (filter P [0..<m]) \<Longrightarrow> P (filter P [0..<m] ! n) \<and> filter P [0..<m] ! n < m"
  using nth_mem [of n "filter P [0..<m]"] by auto

lemma ba_eqI:
  assumes wf: "ba_wf a" "ba_wf b" and clean: "ba_clean a" "ba_clean b"
    and eq: "Bits a = Bits b" "\<And>i. ba_nth a i = ba_nth b i"
  shows "a = b"
proof -
  have len: "length (Elems a) = length (Elems b)" using wf eq(1) by (simp add: ba_wf_def)
  have "Elems a ! n = Elems b ! n" if n: "n < length (Elems a)" for n
  proof (rule bit_word_eqI)
    fix j assume j: "j < LENGTH(64)"
    let ?i = "64 * n + j"
    have i: "?i div 64 = n" "?i mod 64 = j" "?i < 64 * length (Elems a)"
      using j n by auto
    show "bit (Elems a ! n) j = bit (Elems b ! n) j"
    proof (cases "Bits a \<le> int ?i")
      case True
      with clean i len eq(1) show ?thesis unfolding ba_clean_def by metis
    next
      case False
      with eq(2) [of ?i] eq(1) i show ?thesis by (auto simp: ba_nth_def)
    qed
  qed
  with len have "Elems a = Elems b" by (simp add: list_eq_iff_nth_eq)
  with eq(1) show ?thesis by simp
qed

lemma setIndex_clean:
  assumes "ba_clean a" and "setIndex a (int i) v = Some (a', True)"
  shows "ba_clean a'"
proof -
  have i: "int i < Bits a" and "i div 64 < length (Elems a)"
    and a': "a' = a\<lparr>Elems := (Elems a)[i div 64 := if v then Elems a ! (i div 64) OR 2 ^ (i mod 64)
      else Elems a ! (i div 64) AND NOT (2 ^ (i mod 64))]\<rparr>"
    using assms(2) by (auto simp: setIndex_def split: if_splits)
  have "\<not> bit (Elems a' ! (j div 64)) (j mod 64)"
    if j: "j < 64 * length (Elems a)" and le: "Bits a \<le> int j" for j
  proof (cases "j div 64 = i div 64")
    case True
    have "j \<noteq> i" using i le by auto
    with True have "j mod 64 \<noteq> i mod 64" by (metis div_mult_mod_eq)
    with True assms(1) j le \<open>i div 64 < length (Elems a)\<close> show ?thesis
      by (auto simp: a' ba_clean_def bit_or_iff bit_and_iff bit_not_iff bit_exp_64)
  next
    case False
    with assms(1) j le show ?thesis by (auto simp: a' ba_clean_def)
  qed
  then show ?thesis by (auto simp: ba_clean_def a')
qed

lemma set_bits_loop_eq:
  assumes "ba_wf a" and "ba_clean a" and "Bits a = int (i + length cs)"
  shows "\<exists>b. set_bits_loop cs i (Some a) = Some (Some b) \<and> ba_wf b \<and> ba_clean b \<and> Bits b = Bits a \<and>
     (\<forall>j. ba_nth b j = (if i \<le> j \<and> j < i + length cs \<and> cs ! (j - i) = CHR ''x'' then True else ba_nth a j))"
  using assms
proof (induction cs arbitrary: i a)
  case Nil
  then show ?case by auto
next
  case (Cons c cs)
  obtain a' where step: "set_bits_loop (c # cs) i (Some a) = set_bits_loop cs (Suc i) (Some a')"
    and a': "ba_wf a'" "ba_clean a'" "Bits a' = Bits a"
      "\<And>j. ba_nth a' j = (if j = i \<and> c = CHR ''x'' then True else ba_nth a j)"
  proof (cases "c = CHR ''x''")
    case True
    have lt: "int i < Bits a" using Cons.prems(3) by simp
    from setIndex_eq [OF Cons.prems(1) lt, of True] obtain b where
      b: "setIndex a (int i) True = Some (b, True)" "ba_wf b" "Bits b = Bits a"
         "\<forall>j. ba_nth b j = (if j = i then True else ba_nth a j)" by blast
    have "ba_clean b" using Cons.prems(2) b(1) by (rule setIndex_clean)
    with b True show ?thesis using that [of b] by (simp add: SetIndex_def)
  next
    case False
    with Cons.prems show ?thesis using that [of a] by simp
  qed
  have "Bits a' = int (Suc i + length cs)" using Cons.prems(3) a'(3) by simp
  from Cons.IH [OF a'(1,2) this] obtain b where
    b: "set_bits_loop cs (Suc i) (Some a') = Some (Some b)" "ba_wf b" "ba_clean b" "Bits b = Bits a'"
    and nth: "\<forall>j. ba_nth b j = (if Suc i \<le> j \<and> j < Suc i + length cs \<and> cs ! (j - Suc i) = CHR ''x''
        then True else ba_nth a' j)" by blast
  have "ba_nth b j = (if i \<le> j \<and> j < i + length (c # cs) \<and> (c # cs) ! (j - i) = CHR ''x''
      then True else ba_nth a j)" for j
  proof -
    consider "j < i" | "j = i" | m where "j = i + Suc m"
      using less_imp_Suc_add [of i j] by fastforce
    then show ?thesis
    proof cases
      case 3
      with nth [rule_format, of j] a'(4) [of j] show ?thesis by simp
    qed (use nth [rule_format, of j] a'(4) [of j] in simp_all)
  qed
  with b a'(3) step show ?case by (intro exI [of _ b]) simp
qed

section \<open>Properties\<close>

definition demo_bits :: BitArray where
  "demo_bits = \<lparr>Bits = 5, Elems = [19]\<rparr>"

lemma demo_bits_ok: "ba_wf demo_bits" "ba_clean demo_bits"
  by code_simp+



text \<open>Setting an index below the size succeeds and changes that bit only, reading returns the bit
  that was last set, and an index beyond the size is neither written nor read as set.\<close>

theorem SetIndex_GetIndex:
  assumes "ba_wf a"
  shows "if int i < Bits a
     then \<exists>a'. SetIndex (Some a) (int i) v = Some (Some a', True) \<and> ba_wf a' \<and> Bits a' = Bits a \<and>
       (\<forall>j. GetIndex (Some a') (int j) = (if j = i then Some v else GetIndex (Some a) (int j)))
     else SetIndex (Some a) (int i) v = Some (Some a, False) \<and> GetIndex (Some a) (int i) = Some False"
proof (cases "int i < Bits a")
  case True
  from setIndex_eq [OF assms True, of v] obtain a' where
    a': "setIndex a (int i) v = Some (a', True)" "ba_wf a'" "Bits a' = Bits a"
      "\<forall>j. ba_nth a' j = (if j = i then v else ba_nth a j)" by blast
  then have "GetIndex (Some a') (int j) = (if j = i then Some v else GetIndex (Some a) (int j))" for j
    using assms by (simp add: GetIndex_def getIndex_eq)
  with True a' show ?thesis by (simp add: SetIndex_def)
next
  case False
  then show ?thesis by (simp add: SetIndex_def GetIndex_def setIndex_beyond getIndex_def)
qed

theorem SetIndex_GetIndex_witness:
  "\<exists>a'. SetIndex (Some demo_bits) (int 3) True = Some (Some a', True) \<and>
     GetIndex (Some a') (int 3) = Some True \<and> GetIndex (Some a') (int 2) = GetIndex (Some demo_bits) (int 2)"
proof -
  have "int 3 < Bits demo_bits" by (simp add: demo_bits_def)
  then obtain a' where s: "SetIndex (Some demo_bits) (int 3) True = Some (Some a', True)"
    and g: "\<forall>j. GetIndex (Some a') (int j) = (if j = 3 then Some True else GetIndex (Some demo_bits) (int j))"
    using SetIndex_GetIndex [OF demo_bits_ok(1), of 3 True] by auto
  have "GetIndex (Some a') (int 3) = Some True" "GetIndex (Some a') (int 2) = GetIndex (Some demo_bits) (int 2)"
    using g [rule_format, of 3] g [rule_format, of 2] by simp_all
  with s show ?thesis by blast
qed

text \<open>\<open>IsFull\<close> says whether every bit is set, also when the last word is partly used.\<close>

theorem IsFull_iff:
  assumes "ba_wf a"
  shows "IsFull (Some a) = Some (\<forall>i. int i < Bits a \<longrightarrow> ba_nth a i)"
  using assms by (rule IsFull_eq)

theorem IsFull_iff_witness:
  "IsFull (Some demo_bits) = Some False"
proof -
  have "\<not> ba_nth demo_bits 2" by code_simp
  moreover have "int 2 < Bits demo_bits" by (simp add: demo_bits_def)
  ultimately have "\<not> (\<forall>i. int i < Bits demo_bits \<longrightarrow> ba_nth demo_bits i)" by blast
  then show ?thesis using IsFull_iff [OF demo_bits_ok(1)] by simp
qed





end
