(* ===== verification/Validator_Priority.thy ===== *)
theory Validator_Priority
  imports Validator_Set
begin

text \<open>
  The rotation of the proposer: rescaling and centering the priorities, choosing the validator
  with the highest one, and the accounting that makes the rotation proportional to the voting
  power. \<open>prio_bounded\<close> is the invariant behind the comment of \<open>MaxTotalVotingPower\<close> that no
  priority is ever clipped: it holds when the number of validators times the total power stays
  below \<open>MaxTotalVotingPower\<close>.
\<close>

section \<open>Invariants of the priorities\<close>

definition prios :: "ValidatorSet \<Rightarrow> int list" where
  "prios vals = map ProposerPriority (Validators vals)"

definition vs_power :: "ValidatorSet \<Rightarrow> int" where
  "vs_power vals = total_power (Validators vals)"

definition num_vals :: "ValidatorSet \<Rightarrow> int" where
  "num_vals vals = int (length (Validators vals))"

definition prio_bounded :: "ValidatorSet \<Rightarrow> bool" where
  "prio_bounded vals \<longleftrightarrow>
     (\<forall>p \<in> set (prios vals). - 2 * vs_power vals \<le> p \<and> p \<le> 2 * num_vals vals * vs_power vals)"

text \<open>What \<open>shiftByAvgProposerPriority\<close> establishes.\<close>

definition prio_centered :: "ValidatorSet \<Rightarrow> bool" where
  "prio_centered vals \<longleftrightarrow> 0 \<le> sum_list (prios vals) \<and> sum_list (prios vals) < num_vals vals"

definition roomy :: "ValidatorSet \<Rightarrow> bool" where
  "roomy vals \<longleftrightarrow> num_vals vals * vs_power vals \<le> MaxTotalVotingPower"

text \<open>The order of \<open>CompareProposerPriority\<close>: higher priority, then lower address.\<close>

definition better :: "Validator \<Rightarrow> Validator \<Rightarrow> bool" where
  "better a b \<longleftrightarrow> ProposerPriority a > ProposerPriority b \<or>
     (ProposerPriority a = ProposerPriority b \<and> Address a < Address b)"

section \<open>Choosing the proposer\<close>

lemma Compare_better:
  "Address a \<noteq> Address b \<Longrightarrow> CompareProposerPriority (Some a) b = Some (better a b)"
  by (auto simp: CompareProposerPriority_def better_def bytes_Compare_def Let_def)

lemma better_trans: "better a b \<Longrightarrow> better b c \<Longrightarrow> better a c"
  by (auto simp: better_def)

lemma better_total: "Address a \<noteq> Address b \<Longrightarrow> \<not> better a b \<Longrightarrow> better b a"
  by (auto simp: better_def)

lemma most_priority_loop_best:
  assumes "distinct (Address r # map Address vs)"
  shows "\<exists>k' r'. most_priority_loop vs idx (Some (k, r)) = Some (Some (k', r')) \<and>
     ((k' = k \<and> r' = r) \<or> (idx \<le> k' \<and> k' < idx + length vs \<and> r' = vs ! (k' - idx))) \<and>
     (\<forall>x \<in> insert r (set vs). Address x \<noteq> Address r' \<longrightarrow> better r' x)"
  using assms
proof (induction vs arbitrary: idx k r)
  case Nil
  then show ?case by simp
next
  case (Cons v vs)
  have ne: "Address r \<noteq> Address v" using Cons.prems by auto
  show ?case
  proof (cases "better r v")
    case True
    have "distinct (Address r # map Address vs)" using Cons.prems by auto
    from Cons.IH [OF this, of "Suc idx" k] obtain k' r' where
      run: "most_priority_loop vs (Suc idx) (Some (k, r)) = Some (Some (k', r'))" and
      pos: "(k' = k \<and> r' = r) \<or> (Suc idx \<le> k' \<and> k' < Suc idx + length vs \<and> r' = vs ! (k' - Suc idx))" and
      best: "\<forall>x \<in> insert r (set vs). Address x \<noteq> Address r' \<longrightarrow> better r' x" by blast
    have "better r' v"
      using best True better_trans [of r' r v] by (cases "Address r = Address r'") (use pos Cons.prems in \<open>auto simp: better_def\<close>)
    moreover have "(k' = k \<and> r' = r) \<or>
        (idx \<le> k' \<and> k' < idx + length (v # vs) \<and> r' = (v # vs) ! (k' - idx))"
      using pos by (auto simp: Suc_diff_le nth_Cons' )
    ultimately show ?thesis
      using run best ne True by (auto simp: Compare_better)
  next
    case False
    have "distinct (Address v # map Address vs)" using Cons.prems by auto
    from Cons.IH [OF this, of "Suc idx" idx] obtain k' r' where
      run: "most_priority_loop vs (Suc idx) (Some (idx, v)) = Some (Some (k', r'))" and
      pos: "(k' = idx \<and> r' = v) \<or> (Suc idx \<le> k' \<and> k' < Suc idx + length vs \<and> r' = vs ! (k' - Suc idx))" and
      best: "\<forall>x \<in> insert v (set vs). Address x \<noteq> Address r' \<longrightarrow> better r' x" by blast
    have vr: "better v r" using ne False by (metis better_total)
    have "Address r' \<in> Address ` set (v # vs)" using pos by auto
    then have "Address r \<noteq> Address r'" using Cons.prems by auto
    moreover have "better r' r"
      using best vr better_trans [of r' v r] pos \<open>distinct (Address v # map Address vs)\<close>
      by (cases "Address v = Address r'") auto
    moreover have "idx \<le> k' \<and> k' < idx + length (v # vs) \<and> r' = (v # vs) ! (k' - idx)"
      using pos by (auto simp: Suc_diff_le nth_Cons')
    ultimately show ?thesis
      using run best ne False by (auto simp: Compare_better)
  qed
qed

lemma getValWithMostPriority_best:
  assumes "Validators vals \<noteq> []" and "distinct (map Address (Validators vals))"
  shows "\<exists>k < length (Validators vals).
     getValWithMostPriority vals = Some (Some (k, Validators vals ! k)) \<and>
     (\<forall>i < length (Validators vals). i \<noteq> k \<longrightarrow> better (Validators vals ! k) (Validators vals ! i))"
proof -
  obtain v vs where vs: "Validators vals = v # vs" using assms(1) by (cases "Validators vals") auto
  have d: "distinct (Address v # map Address vs)" using assms(2) vs by simp
  from most_priority_loop_best [OF d, of "Suc 0" 0] obtain k r where
    run: "most_priority_loop vs (Suc 0) (Some (0, v)) = Some (Some (k, r))" and
    pos: "(k = 0 \<and> r = v) \<or> (Suc 0 \<le> k \<and> k < Suc 0 + length vs \<and> r = vs ! (k - Suc 0))" and
    best: "\<forall>x \<in> insert v (set vs). Address x \<noteq> Address r \<longrightarrow> better r x" by blast
  have k: "k < length (v # vs)" and r: "r = (v # vs) ! k"
    using pos by (auto simp: nth_Cons')
  have "better r ((v # vs) ! i)" if "i < length (v # vs)" "i \<noteq> k" for i
  proof -
    have "map Address (v # vs) ! i \<noteq> map Address (v # vs) ! k"
      using d that k nth_eq_iff_index_eq [of "map Address (v # vs)" i k] by simp
    then have "Address ((v # vs) ! i) \<noteq> Address r" using that(1) k r by (metis nth_map)
    moreover have "(v # vs) ! i \<in> insert v (set vs)" using nth_mem [OF that(1)] by simp
    ultimately show ?thesis using best by blast
  qed
  moreover have "getValWithMostPriority vals = Some (Some (k, r))"
    using run by (simp add: getValWithMostPriority_def vs CompareProposerPriority_def)
  ultimately show ?thesis using k r vs by auto
qed

section \<open>One increment\<close>

text \<open>The effect of one increment on the slice, without clipping: everybody earns its power, the
  chosen validator pays the total.\<close>

definition step_prio :: "int \<Rightarrow> nat \<Rightarrow> Validator list \<Rightarrow> Validator list" where
  "step_prio T k vs =
     map (\<lambda>i. (vs ! i)\<lparr>ProposerPriority := ProposerPriority (vs ! i) + VotingPower (vs ! i)
                          - (if i = k then T else 0)\<rparr>) [0..<length vs]"

lemma length_step_prio [simp]: "length (step_prio T k vs) = length vs"
  by (simp add: step_prio_def)

lemma step_prio_Nil_iff [simp]: "step_prio T k vs = [] \<longleftrightarrow> vs = []"
  by (simp add: step_prio_def)

lemma nth_step_prio:
  "i < length vs \<Longrightarrow> step_prio T k vs ! i =
     (vs ! i)\<lparr>ProposerPriority := ProposerPriority (vs ! i) + VotingPower (vs ! i)
                - (if i = k then T else 0)\<rparr>"
  by (simp add: step_prio_def)

lemma step_prio_fields [simp]:
  "map Address (step_prio T k vs) = map Address vs"
  "map VotingPower (step_prio T k vs) = map VotingPower vs"
  by (auto simp: list_eq_iff_nth_eq nth_step_prio)

lemma total_power_step_prio [simp]: "total_power (step_prio T k vs) = total_power vs"
  by (simp add: total_power_def)

lemma sum_list_update_add:
  fixes f :: "'a \<Rightarrow> int"
  assumes "k < length vs"
  shows "(\<Sum>i<length vs. if i = k then T else 0) = (T :: int)"
  using assms by (simp add: sum.delta)

lemma sum_step_prio:
  assumes "k < length vs"
  shows "sum_list (map ProposerPriority (step_prio T k vs)) =
     sum_list (map ProposerPriority vs) + total_power vs - T"
proof -
  have "sum_list (map ProposerPriority (step_prio T k vs)) =
      (\<Sum>i<length vs. ProposerPriority (vs ! i) + VotingPower (vs ! i) - (if i = k then T else 0))"
    by (simp add: sum_list_map_upt nth_step_prio)
  also have "\<dots> = (\<Sum>i<length vs. ProposerPriority (vs ! i)) + (\<Sum>i<length vs. VotingPower (vs ! i))
      - (\<Sum>i<length vs. if i = k then T else 0)"
    by (simp add: sum.distrib sum_subtractf)
  finally show ?thesis
    using assms by (simp add: sum_list_map_upt total_power_def sum.delta)
qed

lemma prios_nth: "i < length (Validators vals) \<Longrightarrow> prios vals ! i = ProposerPriority (Validators vals ! i)"
  by (simp add: prios_def)

lemma mem_prios: "v \<in> set (Validators vals) \<Longrightarrow> ProposerPriority v \<in> set (prios vals)"
  by (simp add: prios_def)

lemma num_vals_le_power: "vs_wf vals \<Longrightarrow> num_vals vals \<le> vs_power vals"
  using total_power_ge_length [of "Validators vals"] by (auto simp: vs_wf_def num_vals_def vs_power_def)

lemma num_vals_pos: "vs_wf vals \<Longrightarrow> 1 \<le> num_vals vals"
  by (cases "Validators vals") (auto simp: vs_wf_def num_vals_def)

lemma power_pos: "vs_wf vals \<Longrightarrow> 1 \<le> vs_power vals"
  using vs_wf_total_pos [of vals] by (simp add: vs_power_def)

lemma power_le_max: "vs_wf vals \<Longrightarrow> vs_power vals \<le> MaxTotalVotingPower"
  by (simp add: vs_wf_def vs_power_def)

lemma sum_list_le_card:
  fixes f :: "'a \<Rightarrow> int"
  assumes "\<And>x. x \<in> set xs \<Longrightarrow> f x \<le> c"
  shows "sum_list (map f xs) \<le> int (length xs) * c"
  using assms by (induction xs) (auto simp: algebra_simps add_mono)

text \<open>A value above every other one is at least their average.\<close>

lemma max_ge_average:
  fixes q :: "nat \<Rightarrow> int"
  assumes "k < n" and "\<And>i. i < n \<Longrightarrow> q i \<le> q k"
  shows "(\<Sum>i<n. q i) \<le> int n * q k"
  using sum_bounded_above [of "{..<n}" q "q k"] assms by simp

text \<open>An element of a list is what the others leave of the sum.\<close>

lemma sum_others_bound:
  fixes q :: "nat \<Rightarrow> int"
  assumes "k < n" and "\<And>i. i < n \<Longrightarrow> - b \<le> q i" and "0 \<le> b"
  shows "q k \<le> (\<Sum>i<n. q i) + (int n - 1) * b"
proof -
  have "(\<Sum>i\<in>{..<n} - {k}. - b) \<le> (\<Sum>i\<in>{..<n} - {k}. q i)"
    using assms(2) by (intro sum_mono) auto
  moreover have "(\<Sum>i<n. q i) = q k + (\<Sum>i\<in>{..<n} - {k}. q i)"
    using assms(1) by (simp add: sum.remove)
  moreover have "(\<Sum>i\<in>{..<n} - {k}. - b) = - ((int n - 1) * b)"
    using assms(1) by (simp add: of_nat_diff)
  ultimately show ?thesis by linarith
qed

text \<open>The invariant carried through the increments.\<close>

definition rot_inv :: "ValidatorSet \<Rightarrow> bool" where
  "rot_inv vals \<longleftrightarrow> vs_wf vals \<and> prio_bounded vals \<and> prio_centered vals \<and> roomy vals"

lemma prio_range:
  assumes "rot_inv vals" and "v \<in> set (Validators vals)"
  shows "- 2305843009213693950 \<le> ProposerPriority v" and "ProposerPriority v \<le> 2305843009213693950"
proof -
  have b: "- 2 * vs_power vals \<le> ProposerPriority v" "ProposerPriority v \<le> 2 * num_vals vals * vs_power vals"
    using assms mem_prios [OF assms(2)] by (auto simp: rot_inv_def prio_bounded_def)
  have "num_vals vals * vs_power vals \<le> 1152921504606846975"
    using assms(1) by (simp add: rot_inv_def roomy_def)
  then show "ProposerPriority v \<le> 2305843009213693950" using b(2) by linarith
  have "vs_power vals \<le> 1152921504606846975"
    using assms(1) power_le_max by (simp add: rot_inv_def)
  then show "- 2305843009213693950 \<le> ProposerPriority v" using b(1) by linarith
qed

lemma increment_step:
  assumes inv: "rot_inv vals"
  shows "\<exists>k < length (Validators vals).
     incrementProposerPriority vals =
       Some (vals\<lparr>Validators := step_prio (vs_power vals) k (Validators vals)\<rparr>,
             step_prio (vs_power vals) k (Validators vals) ! k) \<and>
     (\<forall>i < length (Validators vals).
        ProposerPriority (Validators vals ! i) + VotingPower (Validators vals ! i)
        \<le> ProposerPriority (Validators vals ! k) + VotingPower (Validators vals ! k))"
proof -
  let ?vs = "Validators vals"
  let ?T = "vs_power vals"
  let ?add = "\<lambda>v. v\<lparr>ProposerPriority := ProposerPriority v + VotingPower v\<rparr>"
  have wf: "vs_wf vals" using inv by (simp add: rot_inv_def)
  have add: "safeAddClip (ProposerPriority v) (VotingPower v) = ProposerPriority v + VotingPower v"
    if "v \<in> set ?vs" for v
    using that prio_range [OF inv that] vs_wf_power [OF wf that] by (simp add: int_range)
  then have map_eq: "map (\<lambda>v. v\<lparr>ProposerPriority := safeAddClip (ProposerPriority v) (VotingPower v)\<rparr>) ?vs
      = map ?add ?vs"
    by simp
  let ?vals1 = "vals\<lparr>Validators := map ?add ?vs\<rparr>"
  have "Validators ?vals1 \<noteq> []" "distinct (map Address (Validators ?vals1))"
    using wf by (simp_all add: vs_wf_def comp_def)
  from getValWithMostPriority_best [OF this] obtain k where
    k: "k < length ?vs" and
    pick: "getValWithMostPriority ?vals1 = Some (Some (k, ?add (?vs ! k)))" and
    best: "\<forall>i < length ?vs. i \<noteq> k \<longrightarrow> better (?add (?vs ! k)) (?add (?vs ! i))"
    by auto
  have tot: "TotalVotingPower ?vals1 = Some (?vals1, ?T)"
    using vs_wf_total_pos [OF wf] wf by (simp add: TotalVotingPower_def vs_wf_def vs_power_def)
  have vk: "?vs ! k \<in> set ?vs" using k by simp
  have sub: "safeSubClip (ProposerPriority (?vs ! k) + VotingPower (?vs ! k)) ?T
      = ProposerPriority (?vs ! k) + VotingPower (?vs ! k) - ?T"
    using prio_range [OF inv vk] vs_wf_power [OF wf vk] power_le_max [OF wf] power_pos [OF wf]
    by (simp add: int_range)
  have upd: "(map ?add ?vs)[k := (?vs ! k)\<lparr>ProposerPriority :=
      ProposerPriority (?vs ! k) + VotingPower (?vs ! k) - ?T\<rparr>] = step_prio ?T k ?vs"
    using k by (auto simp: list_eq_iff_nth_eq nth_step_prio nth_list_update)
  have "incrementProposerPriority vals =
      Some (vals\<lparr>Validators := step_prio ?T k ?vs\<rparr>, step_prio ?T k ?vs ! k)"
    using k by (simp add: incrementProposerPriority_def map_eq pick tot sub upd Let_def nth_step_prio)
  moreover have "ProposerPriority (?vs ! i) + VotingPower (?vs ! i)
      \<le> ProposerPriority (?vs ! k) + VotingPower (?vs ! k)" if "i < length ?vs" for i
    using best that by (cases "i = k") (auto simp: better_def)
  ultimately show ?thesis using k by blast
qed

lemma step_prio_set:
  assumes "v \<in> set (step_prio T k vs)"
  obtains i where "i < length vs"
    and "v = (vs ! i)\<lparr>ProposerPriority := ProposerPriority (vs ! i) + VotingPower (vs ! i)
                - (if i = k then T else 0)\<rparr>"
  using assms by (auto simp: step_prio_def)

lemma step_prio_in64:
  assumes inv: "rot_inv vals" and "v \<in> set (step_prio (vs_power vals) k (Validators vals))"
  shows "in64 (ProposerPriority v)"
proof -
  have wf: "vs_wf vals" using inv by (simp add: rot_inv_def)
  obtain i where i: "i < length (Validators vals)"
    and v: "v = (Validators vals ! i)\<lparr>ProposerPriority := ProposerPriority (Validators vals ! i)
        + VotingPower (Validators vals ! i) - (if i = k then vs_power vals else 0)\<rparr>"
    using assms(2) by (rule step_prio_set)
  have mem: "Validators vals ! i \<in> set (Validators vals)" using i by simp
  show ?thesis
    using prio_range [OF inv mem] vs_wf_power [OF wf mem] power_le_max [OF wf] power_pos [OF wf]
    by (auto simp: v in64_def)
qed

lemma rot_inv_step:
  assumes inv: "rot_inv vals" and k: "k < length (Validators vals)"
    and max: "\<And>i. i < length (Validators vals) \<Longrightarrow>
        ProposerPriority (Validators vals ! i) + VotingPower (Validators vals ! i)
        \<le> ProposerPriority (Validators vals ! k) + VotingPower (Validators vals ! k)"
  shows "rot_inv (vals\<lparr>Validators := step_prio (vs_power vals) k (Validators vals)\<rparr>)"
proof -
  let ?vs = "Validators vals" and ?n = "length (Validators vals)"
  let ?T = "vs_power vals"
  let ?q = "\<lambda>i. ProposerPriority (?vs ! i) + VotingPower (?vs ! i)"
  let ?new = "vals\<lparr>Validators := step_prio ?T k ?vs\<rparr>"
  let ?p' = "\<lambda>i. ProposerPriority (step_prio ?T k ?vs ! i)"
  have wf: "vs_wf vals" and bnd: "prio_bounded vals" and cen: "prio_centered vals" and room: "roomy vals"
    using inv by (auto simp: rot_inv_def)
  have T: "1 \<le> ?T" and n: "1 \<le> int ?n" "int ?n \<le> ?T"
    using power_pos [OF wf] num_vals_pos [OF wf] num_vals_le_power [OF wf] by (auto simp: num_vals_def)
  have lo: "- 2 * ?T \<le> ProposerPriority (?vs ! i)" and pw: "0 < VotingPower (?vs ! i)" if "i < ?n" for i
    using bnd that mem_prios [of "?vs ! i" vals] vs_wf_power(1) [OF wf, of "?vs ! i"]
    by (auto simp: prio_bounded_def)
  have sumq: "(\<Sum>i<?n. ?q i) = sum_list (prios vals) + ?T"
    by (simp add: sum.distrib prios_def vs_power_def total_power_def sum_list_map_upt)
  have "0 < (\<Sum>i<?n. ?q i)" using cen T unfolding sumq by (simp add: prio_centered_def)
  also have "\<dots> \<le> int ?n * ?q k" by (rule max_ge_average) (use k max in auto)
  finally have qk: "0 < ?q k" using n(1) by (simp add: zero_less_mult_iff)
  have lo': "- (2 * ?T) \<le> ?p' i" if "i < ?n" for i
    using that lo [OF that] pw [OF that] qk T by (auto simp: nth_step_prio)
  have sum': "(\<Sum>i<?n. ?p' i) = sum_list (prios vals)"
    using sum_step_prio [OF k, of ?T] by (simp add: sum_list_map_upt prios_def vs_power_def)
  have hi': "?p' i \<le> 2 * int ?n * ?T" if "i < ?n" for i
  proof -
    have "?p' i \<le> (\<Sum>j<?n. ?p' j) + (int ?n - 1) * (2 * ?T)"
      by (rule sum_others_bound) (use that lo' T in auto)
    also have "\<dots> \<le> int ?n + (int ?n - 1) * (2 * ?T)"
      using cen unfolding sum' by (simp add: prio_centered_def num_vals_def)
    also have "\<dots> \<le> 2 * int ?n * ?T" using n(2) T by (simp add: algebra_simps)
    finally show ?thesis .
  qed
  have "vs_wf ?new"
    using wf step_prio_in64 [OF inv] vs_wf_power(1) [OF wf]
    by (auto simp: vs_wf_def elim!: step_prio_set intro: vs_wf_power(1) [OF wf])
  moreover have "prio_bounded ?new"
    using lo' hi' by (auto simp: prio_bounded_def prios_def vs_power_def num_vals_def set_conv_nth)
  moreover have "prio_centered ?new"
    using cen sum' by (simp add: prio_centered_def prios_def num_vals_def sum_list_map_upt)
  moreover have "roomy ?new"
    using room by (simp add: roomy_def vs_power_def num_vals_def)
  ultimately show ?thesis by (simp add: rot_inv_def)
qed

section \<open>Many increments\<close>

text \<open>The addresses of the proposers chosen by \<open>n\<close> successive increments.\<close>

fun proposers :: "nat \<Rightarrow> ValidatorSet \<Rightarrow> bytes list" where
  "proposers 0 vals = []"
| "proposers (Suc n) vals =
     (case incrementProposerPriority vals of
        None \<Rightarrow> []
      | Some (vals', p) \<Rightarrow> Address p # proposers n vals')"

text \<open>
  The accounting of the rotation: after \<open>n\<close> increments a validator has earned \<open>n\<close> times its
  power and paid the total once for each time it was chosen.
\<close>

lemma increment_loop_account:
  assumes "rot_inv vals"
  shows "\<exists>vals' q. increment_loop n vals p = Some (vals', q) \<and> rot_inv vals' \<and>
     map Address (Validators vals') = map Address (Validators vals) \<and>
     map VotingPower (Validators vals') = map VotingPower (Validators vals) \<and>
     map val_PubKey (Validators vals') = map val_PubKey (Validators vals) \<and>
     length (proposers n vals) = n \<and>
     (n = 0 \<longrightarrow> q = p) \<and>
     (n > 0 \<longrightarrow> (\<exists>m. q = Some m \<and> m \<in> set (Validators vals') \<and> Address m = last (proposers n vals))) \<and>
     (\<forall>i < length (Validators vals). ProposerPriority (Validators vals' ! i) =
        ProposerPriority (Validators vals ! i) + int n * VotingPower (Validators vals ! i)
        - vs_power vals * int (count_list (proposers n vals) (Address (Validators vals ! i))))"
  using assms
proof (induction n arbitrary: vals p)
  case 0
  then show ?case by simp
next
  case (Suc n)
  let ?vs = "Validators vals" and ?T = "vs_power vals"
  obtain k where k: "k < length ?vs"
    and inc: "incrementProposerPriority vals =
       Some (vals\<lparr>Validators := step_prio ?T k ?vs\<rparr>, step_prio ?T k ?vs ! k)"
    and max: "\<forall>i < length ?vs. ProposerPriority (?vs ! i) + VotingPower (?vs ! i)
        \<le> ProposerPriority (?vs ! k) + VotingPower (?vs ! k)"
    using increment_step [OF Suc.prems] by blast
  let ?new = "vals\<lparr>Validators := step_prio ?T k ?vs\<rparr>" and ?m = "step_prio ?T k ?vs ! k"
  have inv': "rot_inv ?new" using Suc.prems k max by (intro rot_inv_step) auto
  have T': "vs_power ?new = ?T" by (simp add: vs_power_def)
  have d: "distinct (map Address ?vs)" using Suc.prems by (simp add: rot_inv_def vs_wf_def)
  obtain vals' q where run: "increment_loop n ?new (Some ?m) = Some (vals', q)"
    and r: "rot_inv vals'" "map Address (Validators vals') = map Address ?vs"
      "map VotingPower (Validators vals') = map VotingPower ?vs"
      "map val_PubKey (Validators vals') = map val_PubKey (step_prio ?T k ?vs)"
      "length (proposers n ?new) = n" "n = 0 \<longrightarrow> q = Some ?m"
      "n > 0 \<longrightarrow> (\<exists>m. q = Some m \<and> m \<in> set (Validators vals') \<and> Address m = last (proposers n ?new))"
    and acc: "\<forall>i < length ?vs. ProposerPriority (Validators vals' ! i) =
        ProposerPriority (step_prio ?T k ?vs ! i) + int n * VotingPower (step_prio ?T k ?vs ! i)
        - ?T * int (count_list (proposers n ?new) (Address (step_prio ?T k ?vs ! i)))"
    using Suc.IH [OF inv', of "Some ?m"] unfolding T' by auto
  have pk: "map val_PubKey (step_prio ?T k ?vs) = map val_PubKey ?vs"
    by (auto simp: list_eq_iff_nth_eq nth_step_prio)
  have addr: "Address (?vs ! i) = Address (?vs ! k) \<longleftrightarrow> i = k" if "i < length ?vs" for i
    using nth_eq_iff_index_eq [OF d, of i k] that k by simp
  have "ProposerPriority (Validators vals' ! i) =
        ProposerPriority (?vs ! i) + int (Suc n) * VotingPower (?vs ! i)
        - ?T * int (count_list (proposers (Suc n) vals) (Address (?vs ! i)))" if "i < length ?vs" for i
    using acc that k addr [OF that] by (auto simp: inc nth_step_prio algebra_simps)
  moreover have "\<exists>m. q = Some m \<and> m \<in> set (Validators vals') \<and> Address m = last (proposers (Suc n) vals)"
  proof (cases "n = 0")
    case True
    have "?m \<in> set (step_prio ?T k ?vs)" using k by (intro nth_mem) simp
    with True run show ?thesis by (auto simp: inc)
  next
    case False
    then have "proposers n ?new \<noteq> []" using r(5) by auto
    with r(7) False show ?thesis by (auto simp: inc)
  qed
  ultimately show ?case using run r pk by (simp add: inc)
qed

section \<open>Rescaling and centering\<close>

lemma max_min_loop_eq:
  "max_min_loop vs mx mn =
     (fold max (map ProposerPriority vs) mx, fold min (map ProposerPriority vs) mn)"
  by (induction vs arbitrary: mx mn) (auto simp: Let_def max_def min_def)

lemma fold_max_ge: "m \<le> fold max xs (m :: int)"
proof (induction xs arbitrary: m)
  case (Cons a xs)
  have "max a m \<le> fold max xs (max a m)" by (rule Cons.IH)
  then show ?case by simp
qed simp

lemma fold_max_upper: "x \<in> set xs \<Longrightarrow> x \<le> fold max xs (m :: int)"
proof (induction xs arbitrary: m)
  case (Cons a xs)
  have "max a m \<le> fold max xs (max a m)" by (rule fold_max_ge)
  with Cons show ?case by auto
qed simp

lemma fold_max_in: "fold max xs m \<in> insert (m :: int) (set xs)"
proof (induction xs arbitrary: m)
  case (Cons a xs)
  have "fold max xs (max a m) \<in> insert (max a m) (set xs)" by (rule Cons.IH)
  moreover have "max a m \<in> {a, m}" by (simp add: max_def)
  ultimately show ?case by auto
qed simp

lemma fold_min_le: "fold min xs m \<le> (m :: int)"
proof (induction xs arbitrary: m)
  case (Cons a xs)
  have "fold min xs (min a m) \<le> min a m" by (rule Cons.IH)
  then show ?case by simp
qed simp

lemma fold_min_lower: "x \<in> set xs \<Longrightarrow> fold min xs (m :: int) \<le> x"
proof (induction xs arbitrary: m)
  case (Cons a xs)
  have "fold min xs (min a m) \<le> min a m" by (rule fold_min_le)
  with Cons show ?case by auto
qed simp

lemma fold_min_in: "fold min xs m \<in> insert (m :: int) (set xs)"
proof (induction xs arbitrary: m)
  case (Cons a xs)
  have "fold min xs (min a m) \<in> insert (min a m) (set xs)" by (rule Cons.IH)
  moreover have "min a m \<in> {a, m}" by (simp add: min_def)
  ultimately show ?case by auto
qed simp

text \<open>The spread of a list of priorities.\<close>

definition spread_le :: "int \<Rightarrow> int list \<Rightarrow> bool" where
  "spread_le d ps \<longleftrightarrow> (\<forall>p \<in> set ps. \<forall>q \<in> set ps. p - q \<le> d)"

lemma spread_leI:
  assumes "\<And>p. p \<in> set ps \<Longrightarrow> lo \<le> p \<and> p \<le> hi" and "hi - lo \<le> D"
  shows "spread_le D ps"
  unfolding spread_le_def
proof (intro ballI)
  fix p q assume "p \<in> set ps" "q \<in> set ps"
  then have "p \<le> hi" "lo \<le> q" using assms(1) by auto
  then show "p - q \<le> D" using assms(2) by linarith
qed

lemma computeMaxMinPriorityDiff_eq:
  assumes "Validators vals \<noteq> []"
    and "\<forall>p \<in> set (prios vals). in64 p" and "spread_le MaxInt64 (prios vals)"
  shows "\<exists>d. computeMaxMinPriorityDiff vals = Some d \<and> 0 \<le> d \<and> d \<le> MaxInt64 \<and>
     spread_le d (prios vals) \<and> (\<exists>p \<in> set (prios vals). \<exists>q \<in> set (prios vals). d = p - q)"
proof -
  let ?ps = "prios vals"
  let ?mx = "fold max ?ps MinInt64" and ?mn = "fold min ?ps MaxInt64"
  obtain p where p: "p \<in> set ?ps" using assms(1) by (cases "Validators vals") (auto simp: prios_def)
  have mx: "?mx \<in> set ?ps"
    using fold_max_in [of ?ps MinInt64] fold_max_upper [OF p, of MinInt64] p assms(2)
    by (force simp: in64_def)
  have mn: "?mn \<in> set ?ps"
    using fold_min_in [of ?ps MaxInt64] fold_min_lower [OF p, of MaxInt64] p assms(2)
    by (force simp: in64_def)
  have le: "?mn \<le> ?mx" using fold_max_upper [OF mn] by blast
  have d: "?mx - ?mn \<le> MaxInt64" using assms(3) mx mn by (simp add: spread_le_def)
  have "wrap64 (?mx - ?mn) = ?mx - ?mn" using le d by (intro wrap64_id) (simp add: in64_def)
  then have "computeMaxMinPriorityDiff vals = Some (?mx - ?mn)"
    using assms(1) le
    by (simp add: computeMaxMinPriorityDiff_def IsNilOrEmpty_def max_min_loop_eq prios_def Let_def)
  moreover have "spread_le (?mx - ?mn) ?ps"
    unfolding spread_le_def
  proof (intro ballI)
    fix x y assume "x \<in> set ?ps" "y \<in> set ?ps"
    then have "x \<le> ?mx" "?mn \<le> y" by (simp_all add: fold_max_upper fold_min_lower)
    then show "x - y \<le> ?mx - ?mn" by simp
  qed
  ultimately show ?thesis using le d mx mn by (intro exI [of _ "?mx - ?mn"]) auto
qed

text \<open>Truncating division by a positive ratio contracts distances.\<close>

lemma sdiv_bounds:
  fixes x r :: int
  assumes "0 < r"
  shows "x - r < r * (x sdiv r)" and "r * (x sdiv r) < x + r" and "0 \<le> x \<Longrightarrow> r * (x sdiv r) \<le> x"
    and "x \<le> 0 \<Longrightarrow> x \<le> r * (x sdiv r)" and "0 \<le> x \<Longrightarrow> 0 \<le> r * (x sdiv r)"
    and "x \<le> 0 \<Longrightarrow> r * (x sdiv r) \<le> 0"
proof -
  have q: "x sdiv r = (if 0 \<le> x then x div r else - ((- x) div r))"
    using assms by (auto simp: signed_divide_int_def sgn_if)
  have a: "r * (x div r) \<le> x" "x < r * (x div r) + r"
    using assms mult_div_mod_eq [of r x] pos_mod_bound [OF assms, of x] pos_mod_sign [OF assms, of x]
    by linarith+
  have b: "r * ((- x) div r) \<le> - x" "- x < r * ((- x) div r) + r"
    using assms mult_div_mod_eq [of r "- x"] pos_mod_bound [OF assms, of "- x"] pos_mod_sign [OF assms, of "- x"]
    by linarith+
  show "x - r < r * (x sdiv r)" "r * (x sdiv r) < x + r"
    using a b assms by (auto simp: q)
  show "0 \<le> x \<Longrightarrow> r * (x sdiv r) \<le> x" "x \<le> 0 \<Longrightarrow> x \<le> r * (x sdiv r)"
    using a b assms by (auto simp: q)
  show "0 \<le> x \<Longrightarrow> 0 \<le> r * (x sdiv r)" "x \<le> 0 \<Longrightarrow> r * (x sdiv r) \<le> 0"
    using assms by (auto simp: q pos_imp_zdiv_nonneg_iff)
qed

lemma sdiv_contract:
  fixes p q r D d :: int
  assumes "0 < r" and "p - q \<le> d" and "d \<le> r * D" and "0 \<le> D"
  shows "p sdiv r - q sdiv r \<le> D"
proof -
  have "r * (p sdiv r - q sdiv r) < r * D + r"
  proof -
    consider "0 \<le> p" "0 \<le> q" | "p \<le> 0" "q \<le> 0" | "0 \<le> p" "q \<le> 0" | "p \<le> 0" "0 \<le> q" by linarith
    then show ?thesis
    proof cases
      case 4
      then have "r * (p sdiv r) \<le> 0" "0 \<le> r * (q sdiv r)"
        using sdiv_bounds [OF assms(1)] by blast+
      moreover have "0 \<le> r * D" using assms by simp
      ultimately show ?thesis using assms(1) by (simp add: right_diff_distrib)
    qed (use sdiv_bounds [OF assms(1), of p] sdiv_bounds [OF assms(1), of q] assms in
        \<open>simp add: right_diff_distrib; linarith\<close>)+
  qed
  then have "r * (p sdiv r - q sdiv r) < r * (D + 1)" by (simp add: algebra_simps)
  then have "p sdiv r - q sdiv r < D + 1"
    using assms(1) by (simp add: mult_less_cancel_left_pos)
  then show ?thesis by simp
qed

lemma sdiv_in64: "in64 x \<Longrightarrow> 0 < r \<Longrightarrow> in64 (x sdiv r)"
proof -
  assume x: "in64 x" and r: "0 < r"
  have "\<bar>x sdiv r\<bar> \<le> \<bar>x\<bar>"
  proof -
    have "\<bar>x sdiv r\<bar> = \<bar>x\<bar> div r"
      using r by (auto simp: signed_divide_int_def abs_mult sgn_if pos_imp_zdiv_nonneg_iff)
    also have "\<dots> \<le> \<bar>x\<bar>" using r zdiv_mono2 [of "\<bar>x\<bar>" 1 r] by simp
    finally show ?thesis .
  qed
  moreover have "x sdiv r \<le> 0" if "x \<le> 0"
    using that r by (cases "x = 0") (auto simp: signed_divide_int_def sgn_if pos_imp_zdiv_nonneg_iff)
  ultimately show ?thesis using x by (auto simp: in64_def abs_if split: if_splits)
qed

lemma Rescale_eq:
  assumes wf: "vs_wf vals" and D: "0 < D" "D \<le> 2 * MaxTotalVotingPower"
    and sp: "spread_le (6 * MaxTotalVotingPower) (prios vals)"
  shows "\<exists>vals'. RescalePriorities vals D = Some vals' \<and> vs_wf vals' \<and> spread_le D (prios vals') \<and>
     map Address (Validators vals') = map Address (Validators vals) \<and>
     map VotingPower (Validators vals') = map VotingPower (Validators vals) \<and>
     map val_PubKey (Validators vals') = map val_PubKey (Validators vals)"
proof -
  have ne: "Validators vals \<noteq> []" and in64: "\<forall>p \<in> set (prios vals). in64 p"
    using wf by (auto simp: vs_wf_def prios_def)
  have "spread_le MaxInt64 (prios vals)" using sp by (force simp: spread_le_def)
  from computeMaxMinPriorityDiff_eq [OF ne in64 this] obtain d where
    d: "computeMaxMinPriorityDiff vals = Some d" "0 \<le> d" "spread_le d (prios vals)"
    and "\<exists>p \<in> set (prios vals). \<exists>q \<in> set (prios vals). d = p - q" by blast
  then have d6: "d \<le> 6 * MaxTotalVotingPower" using sp by (auto simp: spread_le_def)
  let ?ratio = "wrap64 (wrap64 (d + D) - 1) sdiv D"
  have ratio: "?ratio = (d + D - 1) div D"
    using d(2) d6 D by (simp add: in64_def sdiv_nonneg)
  show ?thesis
  proof (cases "d > D")
    case False
    then have "RescalePriorities vals D = Some vals"
      using ne D(1) d(1) by (simp add: RescalePriorities_def IsNilOrEmpty_def Let_def)
    moreover have "spread_le D (prios vals)"
      using d(3) False by (force simp: spread_le_def)
    ultimately show ?thesis using wf by simp
  next
    case True
    let ?r = "(d + D - 1) div D"
    have r: "0 < ?r" using True D(1) by (simp add: pos_imp_zdiv_pos_iff)
    have dD: "d \<le> ?r * D"
    proof -
      have "d + D - 1 < D * ?r + D"
        using D(1) mult_div_mod_eq [of D "d + D - 1"] pos_mod_bound [OF D(1), of "d + D - 1"] by linarith
      then show ?thesis by (simp add: mult.commute)
    qed
    let ?vals' = "map_priorities (\<lambda>p. wrap64 (p sdiv ?r)) vals"
    have "RescalePriorities vals D = Some ?vals'"
      using ne D(1) d(1) True r
      by (simp add: RescalePriorities_def IsNilOrEmpty_def Let_def ratio [simplified])
    moreover have prios': "prios ?vals' = map (\<lambda>p. p sdiv ?r) (prios vals)"
      using in64 r by (auto simp: prios_def map_priorities_def sdiv_in64)
    moreover have "spread_le D (prios ?vals')"
      unfolding prios' spread_le_def
      using d(3) sdiv_contract [OF r _ dD] D(1) by (auto simp: spread_le_def)
    moreover have "vs_wf ?vals'"
      using wf by (auto simp: vs_wf_def map_priorities_def comp_def total_power_def)
    ultimately show ?thesis by (simp add: map_priorities_def comp_def)
  qed
qed

lemma avg_between:
  fixes ps :: "int list"
  assumes "ps \<noteq> []" and "\<And>p. p \<in> set ps \<Longrightarrow> lo \<le> p \<and> p \<le> hi"
  shows "lo \<le> sum_list ps div int (length ps)" and "sum_list ps div int (length ps) \<le> hi"
proof -
  have n: "0 < int (length ps)" using assms(1) by simp
  have "int (length ps) * lo \<le> sum_list ps" "sum_list ps \<le> int (length ps) * hi"
    using assms(2) by (induction ps) (auto simp: algebra_simps add_mono)
  then have "(int (length ps) * lo) div int (length ps) \<le> sum_list ps div int (length ps)"
    "sum_list ps div int (length ps) \<le> (int (length ps) * hi) div int (length ps)"
    using n by (blast intro: zdiv_mono1)+
  then show "lo \<le> sum_list ps div int (length ps)" "sum_list ps div int (length ps) \<le> hi"
    using n by simp_all
qed

lemma sum_list_minus_const:
  fixes ps :: "int list"
  shows "sum_list (map (\<lambda>p. p - c) ps) = sum_list ps - int (length ps) * c"
  by (induction ps) (auto simp: algebra_simps)

lemma shiftByAvg_eq:
  assumes wf: "vs_wf vals" and sp: "spread_le D (prios vals)" and D: "D \<le> MaxInt64"
  shows "\<exists>vals'. shiftByAvgProposerPriority vals = Some vals' \<and> vs_wf vals' \<and> prio_centered vals' \<and>
     (\<forall>p \<in> set (prios vals'). - D \<le> p \<and> p \<le> D) \<and>
     map Address (Validators vals') = map Address (Validators vals) \<and>
     map VotingPower (Validators vals') = map VotingPower (Validators vals) \<and>
     map val_PubKey (Validators vals') = map val_PubKey (Validators vals)"
proof -
  let ?ps = "prios vals" and ?n = "int (length (Validators vals))"
  let ?avg = "sum_list ?ps div ?n"
  have ne: "Validators vals \<noteq> []" and in64: "\<forall>p \<in> set ?ps. in64 p"
    using wf by (auto simp: vs_wf_def prios_def)
  have psne: "?ps \<noteq> []" and len: "length ?ps = length (Validators vals)" using ne by (auto simp: prios_def)
  have n: "0 < ?n" using ne by simp
  have "in64 ?avg"
    using avg_between [OF psne, of MinInt64 MaxInt64] in64 len by (auto simp: in64_def)
  then have run: "shiftByAvgProposerPriority vals = Some (map_priorities (\<lambda>p. safeSubClip p ?avg) vals)"
    using ne by (simp add: shiftByAvgProposerPriority_def computeAvgProposerPriority_def
        IsNilOrEmpty_def Let_def prios_def)
  have dist: "- D \<le> p - ?avg \<and> p - ?avg \<le> D" if "p \<in> set ?ps" for p
  proof -
    have "p - D \<le> q \<and> q \<le> p + D" if "q \<in> set ?ps" for q
      using sp that \<open>p \<in> set ?ps\<close> by (force simp: spread_le_def)
    from avg_between [OF psne this] len show ?thesis by simp
  qed
  have "in64 (p - ?avg)" if "p \<in> set ?ps" for p
    using dist [OF that] D by (auto simp: in64_def)
  then have prios': "prios (map_priorities (\<lambda>p. safeSubClip p ?avg) vals) = map (\<lambda>p. p - ?avg) ?ps"
    using in64 \<open>in64 ?avg\<close> by (auto simp: prios_def map_priorities_def safeSubClip_clip)
  have "sum_list (map (\<lambda>p. p - ?avg) ?ps) = sum_list ?ps mod ?n"
    using len by (simp add: sum_list_minus_const minus_mult_div_eq_mod)
  then have "prio_centered (map_priorities (\<lambda>p. safeSubClip p ?avg) vals)"
    unfolding prio_centered_def prios' using n by (simp add: num_vals_def map_priorities_def)
  moreover have "vs_wf (map_priorities (\<lambda>p. safeSubClip p ?avg) vals)"
    using wf by (auto simp: vs_wf_def map_priorities_def comp_def total_power_def)
  moreover have "\<forall>p \<in> set (prios (map_priorities (\<lambda>p. safeSubClip p ?avg) vals)). - D \<le> p \<and> p \<le> D"
    unfolding prios' using dist by auto
  ultimately show ?thesis using run by (simp add: map_priorities_def comp_def)
qed

lemma bounded_spread:
  assumes "vs_wf vals" and "prio_bounded vals" and "roomy vals"
  shows "spread_le (6 * MaxTotalVotingPower) (prios vals)"
proof (rule spread_leI)
  show "- 2 * vs_power vals \<le> p \<and> p \<le> 2 * num_vals vals * vs_power vals" if "p \<in> set (prios vals)" for p
    using assms(2) that by (auto simp: prio_bounded_def)
  have "num_vals vals * vs_power vals \<le> MaxTotalVotingPower" "vs_power vals \<le> MaxTotalVotingPower"
    using assms(3) power_le_max [OF assms(1)] by (auto simp: roomy_def)
  then show "2 * num_vals vals * vs_power vals - - 2 * vs_power vals \<le> 6 * MaxTotalVotingPower" by simp
qed

lemma vs_power_cong:
  "map VotingPower (Validators v') = map VotingPower (Validators v) \<Longrightarrow> vs_power v' = vs_power v"
  by (simp add: vs_power_def total_power_def)

lemma num_vals_cong:
  "map Address (Validators v') = map Address (Validators v) \<Longrightarrow> num_vals v' = num_vals v"
  by (metis length_map num_vals_def)

text \<open>Neither step touches the proposer.\<close>

lemma Rescale_Proposer: "RescalePriorities vals D = Some vals' \<Longrightarrow> Proposer vals' = Proposer vals"
  by (auto simp: RescalePriorities_def map_priorities_def Let_def split: if_splits bind_splits)

lemma shift_Proposer: "shiftByAvgProposerPriority vals = Some vals' \<Longrightarrow> Proposer vals' = Proposer vals"
  by (auto simp: shiftByAvgProposerPriority_def map_priorities_def split: if_splits bind_splits)

text \<open>Rescaling and centering bound every priority by twice the total power.\<close>

definition prio_narrow :: "ValidatorSet \<Rightarrow> bool" where
  "prio_narrow vals \<longleftrightarrow>
     (\<forall>p \<in> set (prios vals). - 2 * vs_power vals \<le> p \<and> p \<le> 2 * vs_power vals)"

lemma rescale_shift:
  assumes wf: "vs_wf vals" and sp: "spread_le (6 * MaxTotalVotingPower) (prios vals)"
  shows "\<exists>vals2 vals3. RescalePriorities vals (wrap64 (PriorityWindowSizeFactor * vs_power vals)) = Some vals2 \<and>
     shiftByAvgProposerPriority vals2 = Some vals3 \<and> vs_wf vals3 \<and> prio_centered vals3 \<and> prio_narrow vals3 \<and>
     map Address (Validators vals3) = map Address (Validators vals) \<and>
     map VotingPower (Validators vals3) = map VotingPower (Validators vals) \<and>
     map val_PubKey (Validators vals3) = map val_PubKey (Validators vals) \<and>
     Proposer vals3 = Proposer vals"
proof -
  let ?T = "vs_power vals"
  have T: "1 \<le> ?T" "?T \<le> MaxTotalVotingPower"
    using power_pos [OF wf] power_le_max [OF wf] by auto
  have D: "wrap64 (PriorityWindowSizeFactor * ?T) = 2 * ?T"
    using T by (simp add: PriorityWindowSizeFactor_def in64_def)
  obtain vals2 where 2: "RescalePriorities vals (2 * ?T) = Some vals2" "vs_wf vals2"
      "spread_le (2 * ?T) (prios vals2)"
      "map Address (Validators vals2) = map Address (Validators vals)"
      "map VotingPower (Validators vals2) = map VotingPower (Validators vals)"
      "map val_PubKey (Validators vals2) = map val_PubKey (Validators vals)"
    using Rescale_eq [OF wf _ _ sp, of "2 * ?T"] T by auto
  obtain vals3 where 3: "shiftByAvgProposerPriority vals2 = Some vals3" "vs_wf vals3"
      "prio_centered vals3" "\<forall>p \<in> set (prios vals3). - (2 * ?T) \<le> p \<and> p \<le> 2 * ?T"
      "map Address (Validators vals3) = map Address (Validators vals2)"
      "map VotingPower (Validators vals3) = map VotingPower (Validators vals2)"
      "map val_PubKey (Validators vals3) = map val_PubKey (Validators vals2)"
    using shiftByAvg_eq [OF 2(2,3)] T by auto
  have eq: "vs_power vals3 = ?T" using 2 3 by (auto intro: vs_power_cong)
  have "prio_narrow vals3" using 3(4) by (simp add: prio_narrow_def eq)
  moreover have "Proposer vals3 = Proposer vals"
    using Rescale_Proposer [OF 2(1)] shift_Proposer [OF 3(1)] by simp
  ultimately show ?thesis using 2 3 D by auto
qed

lemma narrow_rot_inv:
  assumes "vs_wf vals" and "prio_centered vals" and "prio_narrow vals" and "roomy vals"
  shows "rot_inv vals"
proof -
  have "2 * vs_power vals \<le> 2 * num_vals vals * vs_power vals"
    using num_vals_pos [OF assms(1)] power_pos [OF assms(1)] by (simp add: mult_le_cancel_right1)
  with assms(3) have "prio_bounded vals" by (force simp: prio_bounded_def prio_narrow_def)
  with assms show ?thesis by (simp add: rot_inv_def)
qed

lemma IncrementProposerPriority_eq:
  assumes wf: "vs_wf vals" and room: "roomy vals"
    and sp: "spread_le (6 * MaxTotalVotingPower) (prios vals)" and n: "0 < n"
  shows "\<exists>vals' m. IncrementProposerPriority vals n = Some vals' \<and> rot_inv vals' \<and>
     Proposer vals' = Some m \<and> m \<in> set (Validators vals') \<and>
     map Address (Validators vals') = map Address (Validators vals) \<and>
     map VotingPower (Validators vals') = map VotingPower (Validators vals) \<and>
     map val_PubKey (Validators vals') = map val_PubKey (Validators vals)"
proof -
  obtain vals2 vals3 where r: "RescalePriorities vals (wrap64 (PriorityWindowSizeFactor * vs_power vals)) = Some vals2"
      "shiftByAvgProposerPriority vals2 = Some vals3" "vs_wf vals3" "prio_centered vals3" "prio_narrow vals3"
      "map Address (Validators vals3) = map Address (Validators vals)"
      "map VotingPower (Validators vals3) = map VotingPower (Validators vals)"
      "map val_PubKey (Validators vals3) = map val_PubKey (Validators vals)"
    using rescale_shift [OF wf sp] by blast
  have "roomy vals3"
    using room vs_power_cong [OF r(7)] num_vals_cong [OF r(6)] by (simp add: roomy_def)
  then have rot: "rot_inv vals3" by (rule narrow_rot_inv [OF r(3-5)])
  obtain vals4 q where l: "increment_loop (nat n) vals3 None = Some (vals4, q)" "rot_inv vals4"
      "map Address (Validators vals4) = map Address (Validators vals3)"
      "map VotingPower (Validators vals4) = map VotingPower (Validators vals3)"
      "map val_PubKey (Validators vals4) = map val_PubKey (Validators vals3)"
      "nat n > 0 \<longrightarrow> (\<exists>m. q = Some m \<and> m \<in> set (Validators vals4) \<and> Address m = last (proposers (nat n) vals3))"
    using increment_loop_account [OF rot, of "nat n" None] by (elim exE conjE) (rule that)
  obtain m where m: "q = Some m" "m \<in> set (Validators vals4)" using l(6) n by auto
  have ne: "Validators vals \<noteq> []" using wf by (simp add: vs_wf_def)
  have "IncrementProposerPriority vals n = Some (vals4\<lparr>Proposer := Some m\<rparr>)"
    using ne n r l m TotalVotingPower_wf [OF wf]
    by (simp add: IncrementProposerPriority_def IsNilOrEmpty_def vs_power_def Let_def)
  moreover have "rot_inv (vals4\<lparr>Proposer := Some m\<rparr>)"
    using l(2) by (simp add: rot_inv_def vs_wf_def prio_bounded_def prio_centered_def roomy_def
        prios_def vs_power_def num_vals_def)
  ultimately show ?thesis using m l r by auto
qed

section \<open>Properties\<close>

text \<open>A set of two validators with powers 1 and 2, for the witnesses.\<close>

definition demo_validator :: "8 word \<Rightarrow> int \<Rightarrow> int \<Rightarrow> Validator" where
  "demo_validator a p q =
     \<lparr>Address = [a], val_PubKey = Some \<lparr>pk_type = ''ed25519'', pk_bytes = [a]\<rparr>,
      VotingPower = p, ProposerPriority = q\<rparr>"

definition demo_vals :: ValidatorSet where
  "demo_vals = \<lparr>Validators = [demo_validator 2 2 0, demo_validator 1 1 0], Proposer = None,
     totalVotingPower = 3, allKeysHaveSameType = True\<rparr>"

lemma demo_rot_inv: "rot_inv demo_vals"
  by code_simp

lemma demo_spread: "spread_le (6 * MaxTotalVotingPower) (prios demo_vals)"
  by code_simp

text \<open>C28. The validator with the most priority is one of the set, and it beats every other one in
  the order of \<open>CompareProposerPriority\<close>: a higher priority, or the same and a lower address.\<close>

theorem getValWithMostPriority_spec:
  assumes "vs_wf vals"
  shows "\<exists>k < length (Validators vals).
     getValWithMostPriority vals = Some (Some (k, Validators vals ! k)) \<and>
     (\<forall>i < length (Validators vals). i \<noteq> k \<longrightarrow> better (Validators vals ! k) (Validators vals ! i))"
  using assms by (intro getValWithMostPriority_best) (auto simp: vs_wf_def)

theorem getValWithMostPriority_spec_witness:
  "\<exists>k < length (Validators demo_vals).
     getValWithMostPriority demo_vals = Some (Some (k, Validators demo_vals ! k)) \<and>
     (\<forall>i < length (Validators demo_vals). i \<noteq> k \<longrightarrow> better (Validators demo_vals ! k) (Validators demo_vals ! i))"
  by (rule getValWithMostPriority_spec) code_simp



text \<open>How far the turns of a validator can be from its share after \<open>n\<close> increments.\<close>

lemma proposer_drift:
  assumes inv: "rot_inv vals" and i: "i < length (Validators vals)"
  shows "\<bar>int n * VotingPower (Validators vals ! i)
      - vs_power vals * int (count_list (proposers n vals) (Address (Validators vals ! i)))\<bar>
     \<le> 2 * (num_vals vals + 1) * vs_power vals"
proof -
  let ?v = "Validators vals ! i"
  obtain vals' where inv': "rot_inv vals'"
    and fields: "map Address (Validators vals') = map Address (Validators vals)"
      "map VotingPower (Validators vals') = map VotingPower (Validators vals)"
    and acc: "\<forall>i < length (Validators vals). ProposerPriority (Validators vals' ! i) =
        ProposerPriority (Validators vals ! i) + int n * VotingPower (Validators vals ! i)
        - vs_power vals * int (count_list (proposers n vals) (Address (Validators vals ! i)))"
    using increment_loop_account [OF inv, of n None] by (elim exE conjE) (rule that)
  have eq: "vs_power vals' = vs_power vals" "num_vals vals' = num_vals vals"
    using fields by (auto intro: vs_power_cong num_vals_cong)
  have i': "i < length (Validators vals')" using i fields(1) by (metis length_map)
  have "ProposerPriority ?v \<in> set (prios vals)" "ProposerPriority (Validators vals' ! i) \<in> set (prios vals')"
    using i i' by (auto intro!: mem_prios)
  then have "- 2 * vs_power vals \<le> ProposerPriority ?v" "ProposerPriority ?v \<le> 2 * num_vals vals * vs_power vals"
    "- 2 * vs_power vals \<le> ProposerPriority (Validators vals' ! i)"
    "ProposerPriority (Validators vals' ! i) \<le> 2 * num_vals vals * vs_power vals"
    using inv inv' eq by (auto simp: rot_inv_def prio_bounded_def)
  moreover have "2 * (num_vals vals + 1) * vs_power vals = 2 * num_vals vals * vs_power vals + 2 * vs_power vals"
    by (simp add: algebra_simps)
  ultimately show ?thesis using acc i by (simp add: abs_le_iff)
qed

text \<open>C25. The rotation is proportional: over any number of increments, the turns of a validator
  times the total power differ from the increments times its own power by a bound that does not
  depend on their number.\<close>

theorem proposers_proportional:
  assumes "rot_inv vals" and "v \<in> set (Validators vals)"
  shows "length (proposers n vals) = n \<and>
     \<bar>int n * VotingPower v - vs_power vals * int (count_list (proposers n vals) (Address v))\<bar>
     \<le> 2 * (num_vals vals + 1) * vs_power vals"
proof -
  obtain i where i: "i < length (Validators vals)" "v = Validators vals ! i"
    using assms(2) by (metis in_set_conv_nth)
  have "length (proposers n vals) = n"
    using increment_loop_account [OF assms(1), of n None] by (elim exE conjE)
  with proposer_drift [OF assms(1) i(1), of n] i(2) show ?thesis by simp
qed

theorem proposers_proportional_witness:
  "length (proposers 9 demo_vals) = 9 \<and>
     \<bar>int 9 * VotingPower (demo_validator 1 1 0)
       - vs_power demo_vals * int (count_list (proposers 9 demo_vals) (Address (demo_validator 1 1 0)))\<bar>
     \<le> 2 * (num_vals demo_vals + 1) * vs_power demo_vals"
  by (rule proposers_proportional [OF demo_rot_inv]) (simp add: demo_vals_def)



end
