(* ===== verification/Validator_Update.thy ===== *)
theory Validator_Update
  imports Validator_Priority
begin

text \<open>
  \<open>UpdateWithChangeSet\<close> of \<open>types/validator_set.go\<close>: the chain of checks and the merge of sorted
  lists implement the update of a finite map from addresses to voting powers.
\<close>

section \<open>The abstract update\<close>

definition power_of :: "Validator list \<Rightarrow> bytes \<rightharpoonup> int" where
  "power_of vs = map_of (map (\<lambda>v. (Address v, VotingPower v)) vs)"

text \<open>A change with power 0 removes the validator, any other sets its power.\<close>

definition apply_changes :: "(bytes \<rightharpoonup> int) \<Rightarrow> (bytes \<rightharpoonup> int) \<Rightarrow> bytes \<rightharpoonup> int" where
  "apply_changes m c a =
     (case c a of None \<Rightarrow> m a | Some p \<Rightarrow> if p = 0 then None else Some p)"

abbreviation addrs :: "Validator list \<Rightarrow> bytes set" where
  "addrs vs \<equiv> Address ` set vs"

abbreviation asorted :: "Validator list \<Rightarrow> bool" where
  "asorted vs \<equiv> sorted_wrt (<) (map Address vs)"

lemma asorted_distinct: "asorted vs \<Longrightarrow> distinct (map Address vs)"
  using strict_sorted_iff by blast

lemma power_of_Some_iff:
  assumes "distinct (map Address vs)"
  shows "power_of vs a = Some p \<longleftrightarrow> (\<exists>v \<in> set vs. Address v = a \<and> VotingPower v = p)"
proof -
  have "distinct (map fst (map (\<lambda>v. (Address v, VotingPower v)) vs))"
    using assms by (simp add: comp_def)
  from map_of_eq_Some_iff [OF this, of a p] show ?thesis by (auto simp: power_of_def)
qed

lemma power_of_None_iff: "power_of vs a = None \<longleftrightarrow> a \<notin> addrs vs"
  by (force simp: power_of_def map_of_eq_None_iff)

lemma power_of_Nil [simp]: "power_of [] = Map.empty"
  by (simp add: power_of_def)

text \<open>Two lists with the same set of validators have the same map.\<close>

lemma power_of_set:
  assumes "distinct (map Address vs)" and "distinct (map Address ws)" and "set vs = set ws"
  shows "power_of vs = power_of ws"
proof
  fix a
  have "power_of vs a = Some p \<longleftrightarrow> power_of ws a = Some p" for p
    using assms by (simp add: power_of_Some_iff)
  then show "power_of vs a = power_of ws a"
    by (metis not_None_eq)
qed

lemma power_of_zip: "power_of vs = map_of (zip (map Address vs) (map VotingPower vs))"
proof -
  have "map (\<lambda>v. (Address v, VotingPower v)) vs = zip (map Address vs) (map VotingPower vs)"
    by (induction vs) auto
  then show ?thesis by (simp add: power_of_def)
qed

lemma power_of_cong:
  "map Address vs = map Address ws \<Longrightarrow> map VotingPower vs = map VotingPower ws \<Longrightarrow> power_of vs = power_of ws"
  by (simp add: power_of_zip)

section \<open>Sorting and splitting the changes\<close>

lemma process_loop_Inr:
  assumes "process_loop vs prev = Inr (u, d)" and "sorted (prev # map Address vs)"
  shows "u = filter (\<lambda>v. VotingPower v \<noteq> 0) vs" and "d = filter (\<lambda>v. VotingPower v = 0) vs"
    and "\<forall>v \<in> set vs. 0 \<le> VotingPower v \<and> VotingPower v \<le> MaxTotalVotingPower"
    and "sorted_wrt (<) (prev # map Address vs)"
proof -
  have "u = filter (\<lambda>v. VotingPower v \<noteq> 0) vs \<and> d = filter (\<lambda>v. VotingPower v = 0) vs \<and>
    (\<forall>v \<in> set vs. 0 \<le> VotingPower v \<and> VotingPower v \<le> MaxTotalVotingPower) \<and>
    sorted_wrt (<) (prev # map Address vs)"
    using assms
  proof (induction vs arbitrary: prev u d)
    case Nil
    then show ?case by simp
  next
    case (Cons v vs)
    from Cons.prems(1) have ne: "Address v \<noteq> prev" and r: "0 \<le> VotingPower v" "VotingPower v \<le> MaxTotalVotingPower"
      by (auto split: if_splits)
    with Cons.prems(1) obtain u' d' where rec: "process_loop vs (Address v) = Inr (u', d')"
      and ud: "(u, d) = (if VotingPower v = 0 then (u', v # d') else (v # u', d'))"
      by (auto split: sum.splits if_splits)
    have s: "sorted (Address v # map Address vs)" using Cons.prems(2) by simp
    note IH = Cons.IH [OF rec s]
    have "prev < Address v" using Cons.prems(2) ne by (auto simp: order.strict_iff_order)
    with IH ud r show ?case by (auto split: if_splits)
  qed
  then show "u = filter (\<lambda>v. VotingPower v \<noteq> 0) vs" and "d = filter (\<lambda>v. VotingPower v = 0) vs"
    and "\<forall>v \<in> set vs. 0 \<le> VotingPower v \<and> VotingPower v \<le> MaxTotalVotingPower"
    and "sorted_wrt (<) (prev # map Address vs)" by blast+
qed

lemma sort_by_address_props [simp]:
  "mset (sort_by_address vs) = mset vs" "set (sort_by_address vs) = set vs"
  "sorted (map Address (sort_by_address vs))" "length (sort_by_address vs) = length vs"
  by (simp_all add: sort_by_address_def)

lemma sort_by_address_distinct:
  "distinct (map Address (sort_by_address vs)) = distinct (map Address vs)"
  by (rule mset_eq_imp_distinct_iff) (simp add: mset_map)

lemma sort_by_address_strict: "distinct (map Address vs) \<Longrightarrow> asorted (sort_by_address vs)"
  by (simp add: strict_sorted_iff sort_by_address_distinct)

lemma sorted_Nil_bytes: "sorted ([] # xs :: bytes list) = sorted xs"
  by simp

lemma filter_asorted: "asorted vs \<Longrightarrow> asorted (filter P vs)"
  by (induction vs) auto

text \<open>What a successful \<open>processChanges\<close> hands on.\<close>

definition changes_ok :: "Validator list \<Rightarrow> Validator list \<Rightarrow> Validator list \<Rightarrow> bool" where
  "changes_ok cs u d \<longleftrightarrow> asorted u \<and> asorted d \<and> distinct (map Address cs) \<and>
     set u = {c \<in> set cs. VotingPower c \<noteq> 0} \<and> set d = {c \<in> set cs. VotingPower c = 0} \<and>
     (\<forall>c \<in> set cs. 0 \<le> VotingPower c \<and> VotingPower c \<le> MaxTotalVotingPower)"

lemma processChanges_Inr:
  assumes "processChanges cs = Inr (u, d)"
  shows "changes_ok cs u d"
proof -
  let ?s = "sort_by_address cs"
  have run: "process_loop ?s [] = Inr (u, d)" using assms by (simp add: processChanges_def)
  have "sorted ([] # map Address ?s)" by simp
  note p = process_loop_Inr [OF run this]
  have s: "asorted ?s" using p(4) by simp
  then have "distinct (map Address cs)" using asorted_distinct sort_by_address_distinct by blast
  with p s show ?thesis by (auto simp: changes_ok_def intro: filter_asorted)
qed

lemma changes_ok_disjoint: "changes_ok cs u d \<Longrightarrow> addrs u \<inter> addrs d = {}"
  unfolding changes_ok_def by (auto simp: distinct_map inj_on_def)

section \<open>Merging updates, dropping removals\<close>

lemma merge_updates_props:
  assumes "asorted es" and "asorted us"
  shows "asorted (merge_updates es us)"
    and "set (merge_updates es us) = set us \<union> {e \<in> set es. Address e \<notin> addrs us}"
proof -
  have "asorted (merge_updates es us) \<and>
    set (merge_updates es us) = set us \<union> {e \<in> set es. Address e \<notin> addrs us}"
    using assms
  proof (induction es us rule: merge_updates.induct)
    case (1 us)
    then show ?case by simp
  next
    case (2 e es)
    then show ?case by auto
  next
    case (3 e es u us)
    have es: "asorted es" "\<forall>x \<in> set es. Address e < Address x"
      and us: "asorted us" "\<forall>x \<in> set us. Address u < Address x"
      using "3.prems" by auto
    consider (less) "Address e < Address u" | (eq) "Address e = Address u" | (gt) "Address u < Address e"
      by (metis linorder_less_linear)
    then show ?case
    proof cases
      case less
      let ?m = "merge_updates es (u # us)"
      have m: "asorted ?m" "set ?m = set (u # us) \<union> {x \<in> set es. Address x \<notin> addrs (u # us)}"
        using "3.IH"(1) less es(1) "3.prems"(2) by simp_all
      have lt: "\<forall>x \<in> set (u # us). Address e < Address x" using us(2) less by auto
      then have "Address e \<notin> addrs (u # us)" by force
      moreover have "\<forall>x \<in> set ?m. Address e < Address x" using m(2) lt es(2) by blast
      ultimately show ?thesis using less m by auto
    next
      case eq
      let ?m = "merge_updates es us"
      have m: "asorted ?m" "set ?m = set us \<union> {x \<in> set es. Address x \<notin> addrs us}"
        using "3.IH"(2) eq es(1) us(1) by simp_all
      have ne: "\<forall>x \<in> set es. Address x \<noteq> Address u" using es(2) eq by auto
      have "\<forall>x \<in> set ?m. Address u < Address x" using m(2) us(2) es(2) eq by auto
      then show ?thesis using eq m ne by auto
    next
      case gt
      let ?m = "merge_updates (e # es) us"
      have m: "asorted ?m" "set ?m = set us \<union> {x \<in> set (e # es). Address x \<notin> addrs us}"
        using "3.IH"(3) gt us(1) "3.prems"(1) by (simp_all add: less_imp_neq [symmetric])
      have lt: "\<forall>x \<in> set (e # es). Address u < Address x" using es(2) gt by auto
      have "\<forall>x \<in> set ?m. Address u < Address x" using m(2) us(2) lt by blast
      then have "asorted (u # ?m)" using m(1) by simp
      moreover have "merge_updates (e # es) (u # us) = u # ?m" using gt by auto
      moreover have "\<forall>x \<in> set (e # es). Address x \<noteq> Address u" using lt by auto
      then have "set (u # ?m) = set (u # us) \<union> {x \<in> set (e # es). Address x \<notin> addrs (u # us)}"
        using m(2) by auto
      ultimately show ?thesis by simp
    qed
  qed
  then show "asorted (merge_updates es us)"
    and "set (merge_updates es us) = set us \<union> {e \<in> set es. Address e \<notin> addrs us}" by blast+
qed

lemma remove_loop_eq:
  assumes "asorted es" and "asorted ds" and "addrs ds \<subseteq> addrs es"
  shows "remove_loop es ds = Some (filter (\<lambda>e. Address e \<notin> addrs ds) es)"
  using assms
proof (induction es ds rule: remove_loop.induct)
  case (1 es)
  then show ?case by simp
next
  case (2 d ds)
  then show ?case by simp
next
  case (3 e es d ds)
  have es: "asorted es" "\<forall>x \<in> set es. Address e < Address x"
    and ds: "asorted ds" "\<forall>x \<in> set ds. Address d < Address x"
    and sub: "addrs (d # ds) \<subseteq> addrs (e # es)"
    using "3.prems" by auto
  show ?case
  proof (cases "Address e = Address d")
    case True
    have "addrs ds \<subseteq> addrs es" using sub ds(2) True by force
    then have IH: "remove_loop es ds = Some (filter (\<lambda>e. Address e \<notin> addrs ds) es)"
      using "3.IH"(1) [OF True es(1) ds(1)] by simp
    have "filter (\<lambda>x. Address x \<notin> addrs (d # ds)) es = filter (\<lambda>x. Address x \<notin> addrs ds) es"
      using es(2) True by (intro filter_cong) auto
    with IH True show ?thesis by simp
  next
    case False
    have "Address d \<in> addrs es" using sub False by auto
    then have "Address e < Address d" using es(2) by auto
    then have ne: "Address e \<notin> addrs (d # ds)" using ds(2) by force
    then have "addrs (d # ds) \<subseteq> addrs es" using sub by (simp add: subset_insert) (elim conjE disjE; simp)
    then have "remove_loop es (d # ds) = Some (filter (\<lambda>e. Address e \<notin> addrs (d # ds)) es)"
      using "3.IH"(2) [OF False es(1) "3.prems"(2)] by simp
    with False ne show ?thesis by simp
  qed
qed

lemma length_filter_removed:
  assumes "distinct (map Address es)" and "distinct (map Address ds)" and "addrs ds \<subseteq> addrs es"
  shows "length (filter (\<lambda>e. Address e \<notin> addrs ds) es) = length es - length ds"
    and "length ds \<le> length es"
proof -
  have de: "distinct es" "inj_on Address (set es)" using assms(1) by (auto simp: distinct_map)
  have cards: "card (addrs ds) = length ds" "card (addrs es) = length es"
    using assms(1,2) by (metis distinct_card length_map set_map)+
  show "length ds \<le> length es"
    using card_mono [OF finite_imageI [OF finite_set] assms(3)] cards by linarith
  have "length (filter (\<lambda>e. Address e \<notin> addrs ds) es) = card {e \<in> set es. Address e \<notin> addrs ds}"
    using distinct_card [OF distinct_filter [OF de(1)]] by simp
  also have "\<dots> = card (Address ` {e \<in> set es. Address e \<notin> addrs ds})"
    using de(2) by (intro card_image [symmetric]) (auto simp: inj_on_def)
  also have "Address ` {e \<in> set es. Address e \<notin> addrs ds} = addrs es - addrs ds" by auto
  also have "card \<dots> = length es - length ds"
    by (subst card_Diff_subset) (simp_all add: assms(3) cards)
  finally show "length (filter (\<lambda>e. Address e \<notin> addrs ds) es) = length es - length ds" .
qed

section \<open>Accounting of the voting power\<close>

lemma total_power_sum:
  assumes "distinct vs" shows "total_power vs = (\<Sum>v \<in> set vs. VotingPower v)"
  using assms by (simp add: total_power_def sum_list_distinct_conv_sum_set)

definition old_power :: "Validator list \<Rightarrow> bytes \<Rightarrow> int" where
  "old_power es a = (case find (\<lambda>v. Address v = a) es of None \<Rightarrow> 0 | Some v \<Rightarrow> VotingPower v)"

lemma old_power_single:
  assumes "distinct (map Address es)"
  shows "(\<Sum>e \<in> {e \<in> set es. Address e = a}. VotingPower e) = old_power es a"
proof (cases "find (\<lambda>v. Address v = a) es")
  case None
  then have "{e \<in> set es. Address e = a} = {}" by (auto simp: find_None_iff)
  with None show ?thesis by (simp only: sum.empty old_power_def) simp
next
  case (Some v)
  then have "v \<in> set es" "Address v = a" by (auto dest: find_key_SomeD)
  then have "{e \<in> set es. Address e = a} = {v}"
    using assms by (auto simp: distinct_map inj_on_def)
  with Some show ?thesis by (simp add: old_power_def)
qed

lemma sum_old_power:
  assumes "distinct (map Address es)" and "distinct (map Address us)"
  shows "(\<Sum>u\<leftarrow>us. old_power es (Address u)) = (\<Sum>e \<in> {e \<in> set es. Address e \<in> addrs us}. VotingPower e)"
  using assms(2)
proof (induction us)
  case Nil
  then show ?case by simp
next
  case (Cons u us)
  let ?A = "{e \<in> set es. Address e = Address u}" and ?B = "{e \<in> set es. Address e \<in> addrs us}"
  have "{e \<in> set es. Address e \<in> addrs (u # us)} = ?A \<union> ?B" by auto
  moreover have "?A \<inter> ?B = {}" using Cons.prems by (auto simp: image_iff)
  ultimately have "(\<Sum>e \<in> {e \<in> set es. Address e \<in> addrs (u # us)}. VotingPower e)
      = (\<Sum>e \<in> ?A. VotingPower e) + (\<Sum>e \<in> ?B. VotingPower e)"
    by (simp add: sum.union_disjoint)
  with Cons old_power_single [OF assms(1), of "Address u"] show ?case by simp
qed

text \<open>A set before an update: well-formed, but possibly still empty.\<close>

definition vs_base :: "ValidatorSet \<Rightarrow> bool" where
  "vs_base vals \<longleftrightarrow> vs_wf vals \<or> (Validators vals = [] \<and> totalVotingPower vals = 0)"

lemma vs_baseD:
  assumes "vs_base vals"
  shows "distinct (map Address (Validators vals))"
    and "\<And>v. v \<in> set (Validators vals) \<Longrightarrow> 0 < VotingPower v"
    and "0 \<le> total_power (Validators vals)" and "total_power (Validators vals) \<le> MaxTotalVotingPower"
    and "TotalVotingPower vals = Some (vals, total_power (Validators vals))"
proof -
  have empty: "TotalVotingPower vals = Some (vals, 0)" if "Validators vals = []" "totalVotingPower vals = 0"
    using that by (simp add: TotalVotingPower_def updateTotalVotingPower_def)
  show "distinct (map Address (Validators vals))"
    and "\<And>v. v \<in> set (Validators vals) \<Longrightarrow> 0 < VotingPower v"
    and "0 \<le> total_power (Validators vals)" and "total_power (Validators vals) \<le> MaxTotalVotingPower"
    and "TotalVotingPower vals = Some (vals, total_power (Validators vals))"
    using assms empty vs_wf_total_pos [of vals] TotalVotingPower_wf [of vals]
    by (auto simp: vs_base_def vs_wf_def)
qed

lemma old_power_nonneg: "vs_base vals \<Longrightarrow> 0 \<le> old_power (Validators vals) a"
  using vs_baseD(2) [of vals]
  by (auto simp: old_power_def less_imp_le dest!: find_key_SomeD split: option.splits)

lemma sum_old_power_nonneg: "vs_base vals \<Longrightarrow> 0 \<le> (\<Sum>u\<leftarrow>us. old_power (Validators vals) (Address u))"
  by (rule sum_list_nonneg) (auto simp: old_power_nonneg)

lemma old_power_le: "vs_base vals \<Longrightarrow> old_power (Validators vals) a \<le> MaxTotalVotingPower"
proof (cases "find (\<lambda>v. Address v = a) (Validators vals)")
  case (Some v)
  assume b: "vs_base vals"
  have "VotingPower v \<le> total_power (Validators vals)"
    using find_key_SomeD [OF Some] vs_baseD(2) [OF b] by (intro power_le_total) (auto simp: less_imp_le)
  with vs_baseD(4) [OF b] Some show ?thesis by (simp add: old_power_def)
qed (simp add: old_power_def)

lemma update_delta_eq:
  assumes "vs_base vals" and "0 \<le> VotingPower u" and "VotingPower u \<le> MaxTotalVotingPower"
  shows "update_delta vals u = VotingPower u - old_power (Validators vals) (Address u)"
  using assms old_power_nonneg [OF assms(1), of "Address u"] old_power_le [OF assms(1), of "Address u"]
  by (auto simp: update_delta_def GetByAddress_find old_power_def in64_def split: option.splits)

lemma verify_removals_loop_eq:
  assumes "vs_base vals" and "0 \<le> r"
    and "r + (\<Sum>d\<leftarrow>ds. old_power (Validators vals) (Address d)) \<le> MaxTotalVotingPower"
  shows "verify_removals_loop ds vals r =
    (if addrs ds \<subseteq> addrs (Validators vals)
     then Inr (r + (\<Sum>d\<leftarrow>ds. old_power (Validators vals) (Address d))) else Inl RemovalNotFound)"
  using assms(2,3)
proof (induction ds arbitrary: r)
  case Nil
  then show ?case by simp
next
  case (Cons d ds)
  let ?o = "old_power (Validators vals)"
  have pos: "0 \<le> ?o (Address d)" "0 \<le> (\<Sum>d\<leftarrow>ds. ?o (Address d))"
    using old_power_nonneg [OF assms(1)] sum_old_power_nonneg [OF assms(1)] by blast+
  show ?case
  proof (cases "find (\<lambda>v. Address v = Address d) (Validators vals)")
    case None
    then have "Address d \<notin> addrs (Validators vals)" by (simp add: find_key_None_iff)
    with None show ?thesis by (simp add: GetByAddress_find)
  next
    case (Some v)
    then have "Address d \<in> addrs (Validators vals)" by (metis find_key_SomeD imageI)
    moreover have "wrap64 (r + VotingPower v) = r + ?o (Address d)"
      using Some Cons.prems pos by (simp add: old_power_def in64_def)
    moreover have "verify_removals_loop ds vals (r + ?o (Address d)) =
      (if addrs ds \<subseteq> addrs (Validators vals)
       then Inr (r + ?o (Address d) + (\<Sum>d\<leftarrow>ds. ?o (Address d))) else Inl RemovalNotFound)"
      using Cons.IH [of "r + ?o (Address d)"] Cons.prems pos by simp
    ultimately show ?thesis using Some by (simp add: GetByAddress_find add.assoc)
  qed
qed

lemma verify_updates_loop_eq:
  assumes b: "vs_base vals"
    and "\<forall>u \<in> set us. 0 \<le> VotingPower u \<and> VotingPower u \<le> MaxTotalVotingPower"
    and "sorted (map (update_delta vals) us)" and "acc \<le> MaxTotalVotingPower"
    and "(\<Sum>u\<leftarrow>us. old_power (Validators vals) (Address u)) \<le> acc"
  shows "verify_updates_loop vals us acc =
    (let t = acc + (\<Sum>u\<leftarrow>us. update_delta vals u)
     in if t \<le> MaxTotalVotingPower then Inr t else Inl ErrTotalVotingPowerOverflow)"
  using assms(2-)
proof (induction us arbitrary: acc)
  case Nil
  then show ?case by simp
next
  case (Cons u us)
  let ?o = "old_power (Validators vals)" and ?d = "update_delta vals u"
  have d: "?d = VotingPower u - ?o (Address u)" using update_delta_eq [OF b] Cons.prems(1) by simp
  have pos: "0 \<le> (\<Sum>u\<leftarrow>us. ?o (Address u))" "0 \<le> ?o (Address u)"
    using old_power_nonneg [OF b] sum_old_power_nonneg [OF b] by blast+
  have low: "(\<Sum>u\<leftarrow>us. ?o (Address u)) \<le> acc + ?d" using Cons.prems(1,4) d by simp
  have w: "wrap64 (acc + ?d) = acc + ?d"
    using low pos Cons.prems(1,3) d by (simp add: in64_def)
  show ?case
  proof (cases "acc + ?d \<le> MaxTotalVotingPower")
    case True
    then show ?thesis
      using Cons.IH [of "acc + ?d"] Cons.prems(1,2) low w by (simp add: Let_def add.assoc)
  next
    case False
    then have "0 \<le> ?d" using Cons.prems(3) by linarith
    then have "0 \<le> (\<Sum>u\<leftarrow>us. update_delta vals u)"
      using Cons.prems(2) by (intro sum_list_nonneg) force
    with False show ?thesis by (simp add: Let_def w)
  qed
qed

section \<open>The updated list\<close>

definition new_total :: "ValidatorSet \<Rightarrow> Validator list \<Rightarrow> int" where
  "new_total vals cs = total_power (Validators vals)
     - (\<Sum>c\<leftarrow>cs. old_power (Validators vals) (Address c)) + total_power cs"

lemma changes_ok_sums:
  assumes "changes_ok cs u d"
  shows "(\<Sum>c\<leftarrow>cs. f c) = (\<Sum>c\<leftarrow>u. f c) + (\<Sum>c\<leftarrow>d. (f c :: int))"
proof -
  have "distinct u" "distinct d" "distinct cs"
    using assms asorted_distinct unfolding changes_ok_def by (auto simp: distinct_map)
  moreover have "set u \<inter> set d = {}" "set u \<union> set d = set cs"
    using assms unfolding changes_ok_def by auto
  ultimately show ?thesis
    by (simp add: sum_list_distinct_conv_sum_set flip: sum.union_disjoint)
qed

lemma changes_ok_total: "changes_ok cs u d \<Longrightarrow> total_power cs = total_power u"
proof -
  assume ok: "changes_ok cs u d"
  have "total_power d = (\<Sum>c\<leftarrow>d. 0)"
    unfolding total_power_def using ok by (intro arg_cong [of _ _ sum_list] map_cong) (auto simp: changes_ok_def)
  then show ?thesis using changes_ok_sums [OF ok, of VotingPower] by (simp add: total_power_def)
qed

lemma old_powers_le_total:
  fixes cs :: "Validator list"
  assumes b: "vs_base vals" and "distinct (map Address cs)"
  shows "(\<Sum>c\<leftarrow>cs. old_power (Validators vals) (Address c)) \<le> total_power (Validators vals)"
proof -
  let ?es = "Validators vals"
  have d: "distinct ?es" using vs_baseD(1) [OF b] by (simp add: distinct_map)
  have "(\<Sum>e \<in> {e \<in> set ?es. Address e \<in> addrs cs}. VotingPower e) \<le> (\<Sum>e \<in> set ?es. VotingPower e)"
    using vs_baseD(2) [OF b] by (intro sum_mono2) (auto simp: less_imp_le)
  then show ?thesis
    using sum_old_power [OF vs_baseD(1) [OF b] assms(2)] total_power_sum [OF d] by simp
qed

text \<open>The list that the merge and the removals leave, before its priorities are centred.\<close>

definition merged_vals :: "ValidatorSet \<Rightarrow> Validator list \<Rightarrow> Validator list \<Rightarrow> Validator list" where
  "merged_vals vals u d =
     filter (\<lambda>e. Address e \<notin> addrs d) (merge_updates (sort_by_address (Validators vals)) u)"

lemma merged_vals_props:
  assumes b: "vs_base vals" and ok: "changes_ok cs u d"
    and u': "map Address u' = map Address u" "map VotingPower u' = map VotingPower u"
  shows "distinct (map Address (merged_vals vals u' d))"
    and "set (merged_vals vals u' d) = set u' \<union> {e \<in> set (Validators vals). Address e \<notin> addrs cs}"
    and "\<forall>v \<in> set (merged_vals vals u' d). 0 < VotingPower v"
    and "power_of (merged_vals vals u' d) = apply_changes (power_of (Validators vals)) (power_of cs)"
    and "total_power (merged_vals vals u' d) = new_total vals cs"
proof -
  let ?es = "Validators vals" and ?m = "merged_vals vals u' d"
  have au: "addrs u' = addrs u" using u'(1) by (metis list.set_map)
  have su: "asorted u'" using u'(1) ok by (simp add: changes_ok_def)
  note m = merge_updates_props [OF sort_by_address_strict [OF vs_baseD(1) [OF b]] su]
  show dm: "distinct (map Address ?m)"
    unfolding merged_vals_def by (intro asorted_distinct filter_asorted m(1))
  have dis: "addrs u' \<inter> addrs d = {}" and un: "addrs u' \<union> addrs d = addrs cs"
    using changes_ok_disjoint [OF ok] ok au by (auto simp: changes_ok_def)
  show sm: "set ?m = set u' \<union> {e \<in> set ?es. Address e \<notin> addrs cs}"
    unfolding merged_vals_def set_filter m(2) using dis un [symmetric] by auto
  have vp: "VotingPower ` set u' = VotingPower ` set u" using u'(2) by (metis list.set_map)
  have "0 < p" if "p \<in> VotingPower ` set u'" for p
    using that ok unfolding vp changes_ok_def by force
  then show "\<forall>v \<in> set ?m. 0 < VotingPower v" using vs_baseD(2) [OF b] unfolding sm by auto
  have pu: "power_of u' = power_of u" using u' by (rule power_of_cong)
  have du: "distinct (map Address u')" "distinct (map Address cs)" "distinct (map Address u)"
    using asorted_distinct [OF su] ok u'(1) by (simp_all add: changes_ok_def)
  show "power_of ?m = apply_changes (power_of ?es) (power_of cs)"
  proof
    fix a
    have "power_of u a = Some p \<longleftrightarrow> power_of cs a = Some p \<and> p \<noteq> 0" for p
      using ok unfolding power_of_Some_iff [OF du(2)] power_of_Some_iff [OF du(3)] changes_ok_def by auto
    moreover have "power_of ?m a = Some p \<longleftrightarrow>
        power_of u a = Some p \<or> (power_of ?es a = Some p \<and> power_of cs a = None)" for p
      unfolding power_of_Some_iff [OF dm] pu [symmetric] power_of_Some_iff [OF du(1)]
        power_of_Some_iff [OF vs_baseD(1) [OF b]] power_of_None_iff sm by auto
    ultimately have "power_of ?m a = Some p \<longleftrightarrow> apply_changes (power_of ?es) (power_of cs) a = Some p" for p
      by (cases "power_of cs a") (auto simp: apply_changes_def)
    then show "power_of ?m a = apply_changes (power_of ?es) (power_of cs) a"
      by (metis not_None_eq)
  qed
  let ?R = "{e \<in> set ?es. Address e \<notin> addrs cs}" and ?C = "{e \<in> set ?es. Address e \<in> addrs cs}"
  have de: "distinct ?es" "distinct u'" "distinct ?m"
    using vs_baseD(1) [OF b] du(1) dm by (simp_all add: distinct_map)
  have "total_power ?es = sum VotingPower (?C \<union> ?R)"
    unfolding total_power_sum [OF de(1)] by (rule arg_cong [of _ _ "sum VotingPower"]) auto
  also have "\<dots> = sum VotingPower ?C + sum VotingPower ?R" by (rule sum.union_disjoint) auto
  finally have R: "sum VotingPower ?R = total_power ?es - (\<Sum>c\<leftarrow>cs. old_power ?es (Address c))"
    using sum_old_power [OF vs_baseD(1) [OF b] du(2)] by simp
  have "total_power ?m = sum VotingPower (set u') + sum VotingPower ?R"
    unfolding total_power_sum [OF de(3)] sm using un by (intro sum.union_disjoint) auto
  also have "sum VotingPower (set u') = total_power u"
    using total_power_sum [OF de(2)] u'(2) by (simp add: total_power_def)
  finally show "total_power ?m = new_total vals cs"
    using R changes_ok_total [OF ok] by (simp add: new_total_def)
qed

section \<open>Accepting a change set\<close>

text \<open>
  What \<open>updateWithChangeSet\<close> demands of its argument: every address once and none empty, powers
  between 0 and the limit, removals only where they are allowed and of members, somebody left, and
  a total within the limit.
\<close>

definition changes_accepted :: "ValidatorSet \<Rightarrow> Validator list \<Rightarrow> bool \<Rightarrow> bool" where
  "changes_accepted vals cs allowDeletes \<longleftrightarrow>
     distinct (map Address cs) \<and> [] \<notin> addrs cs \<and>
     (\<forall>c \<in> set cs. 0 \<le> VotingPower c \<and> VotingPower c \<le> MaxTotalVotingPower) \<and>
     (\<forall>c \<in> set cs. VotingPower c = 0 \<longrightarrow> allowDeletes \<and> Address c \<in> addrs (Validators vals)) \<and>
     (\<exists>a. apply_changes (power_of (Validators vals)) (power_of cs) a \<noteq> None) \<and>
     new_total vals cs \<le> MaxTotalVotingPower"

lemma process_loop_ok:
  assumes "distinct (prev # map Address vs)"
    and "\<forall>v \<in> set vs. 0 \<le> VotingPower v \<and> VotingPower v \<le> MaxTotalVotingPower"
  shows "\<exists>u d. process_loop vs prev = Inr (u, d)"
  using assms
proof (induction vs arbitrary: prev)
  case Nil
  then show ?case by simp
next
  case (Cons v vs)
  obtain u d where "process_loop vs (Address v) = Inr (u, d)"
    using Cons.IH [of "Address v"] Cons.prems by auto
  with Cons.prems show ?case by auto
qed

lemma processChanges_Inl:
  assumes "processChanges cs = Inl e" shows "\<not> changes_accepted vals cs ad"
proof
  assume "changes_accepted vals cs ad"
  then have "distinct ([] # map Address (sort_by_address cs))"
    "\<forall>v \<in> set (sort_by_address cs). 0 \<le> VotingPower v \<and> VotingPower v \<le> MaxTotalVotingPower"
    by (auto simp: changes_accepted_def sort_by_address_distinct)
  from process_loop_ok [OF this] assms show False by (auto simp: processChanges_def)
qed

lemma processChanges_nonempty:
  assumes "processChanges cs = Inr (u, d)" shows "[] \<notin> addrs cs"
proof -
  have "sorted ([] # map Address (sort_by_address cs))" by simp
  from process_loop_Inr(4) [OF assms [unfolded processChanges_def] this]
  have "[] \<notin> set (map Address (sort_by_address cs))" by auto
  then show ?thesis by simp
qed

text \<open>The two counts of the emptiness check decide whether anybody is left.\<close>

lemma empty_check:
  assumes b: "vs_base vals" and ok: "changes_ok cs u d" and sub: "addrs d \<subseteq> addrs (Validators vals)"
  shows "(numNewValidators u vals = 0 \<and> length (Validators vals) = length d) \<longleftrightarrow>
    (\<forall>a. apply_changes (power_of (Validators vals)) (power_of cs) a = None)"
proof -
  let ?es = "Validators vals"
  have new: "numNewValidators u vals = 0 \<longleftrightarrow> addrs u \<subseteq> addrs ?es"
    by (auto simp: numNewValidators_def filter_empty_conv HasAddress_iff)
  have dd: "distinct (map Address d)" using ok asorted_distinct by (auto simp: changes_ok_def)
  have card: "card (addrs d) = length d" "card (addrs ?es) = length ?es"
    using distinct_card [OF dd] distinct_card [OF vs_baseD(1) [OF b]] by simp_all
  have len: "length ?es = length d \<longleftrightarrow> addrs d = addrs ?es"
    using card card_subset_eq [OF finite_imageI [OF finite_set] sub] by metis
  have un: "addrs u \<union> addrs d = addrs cs" and dis: "addrs u \<inter> addrs d = {}"
    using ok changes_ok_disjoint [OF ok] by (auto simp: changes_ok_def)
  have "(\<forall>a. apply_changes (power_of ?es) (power_of cs) a = None) \<longleftrightarrow> merged_vals vals u d = []"
    unfolding merged_vals_props(4) [OF b ok refl refl, symmetric] power_of_None_iff by auto
  also have "\<dots> \<longleftrightarrow> set u \<union> {e \<in> set ?es. Address e \<notin> addrs cs} = {}"
    unfolding merged_vals_props(2) [OF b ok refl refl, symmetric] by simp
  also have "\<dots> \<longleftrightarrow> u = [] \<and> addrs ?es \<subseteq> addrs d"
    using un by (cases u) (auto simp: image_subset_iff)
  also have "\<dots> \<longleftrightarrow> addrs u \<subseteq> addrs ?es \<and> addrs d = addrs ?es"
    using sub dis by (cases u) auto
  finally show ?thesis using new len by simp
qed

lemma verify_sums:
  assumes b: "vs_base vals" and ok: "changes_ok cs u d"
  shows "(\<Sum>c\<leftarrow>u. old_power (Validators vals) (Address c)) + (\<Sum>c\<leftarrow>d. old_power (Validators vals) (Address c))
     \<le> total_power (Validators vals)"
    and "(\<Sum>c\<leftarrow>u. update_delta vals c) = total_power u - (\<Sum>c\<leftarrow>u. old_power (Validators vals) (Address c))"
proof -
  show "(\<Sum>c\<leftarrow>u. old_power (Validators vals) (Address c)) + (\<Sum>c\<leftarrow>d. old_power (Validators vals) (Address c))
     \<le> total_power (Validators vals)"
    using old_powers_le_total [OF b, of cs] changes_ok_sums [OF ok] ok by (simp add: changes_ok_def)
  have "\<forall>c \<in> set u. 0 \<le> VotingPower c \<and> VotingPower c \<le> MaxTotalVotingPower"
    using ok by (auto simp: changes_ok_def)
  then have "map (update_delta vals) u = map (\<lambda>c. VotingPower c - old_power (Validators vals) (Address c)) u"
    using update_delta_eq [OF b] by auto
  then show "(\<Sum>c\<leftarrow>u. update_delta vals c) = total_power u - (\<Sum>c\<leftarrow>u. old_power (Validators vals) (Address c))"
    by (simp only: sum_list_subtractf total_power_def)
qed

lemma verifyRemovals_eq:
  assumes b: "vs_base vals" and ok: "changes_ok cs u d"
  shows "verifyRemovals d vals =
    (if addrs d \<subseteq> addrs (Validators vals)
     then Some (Inr (\<Sum>c\<leftarrow>d. old_power (Validators vals) (Address c))) else Some (Inl RemovalNotFound))"
proof -
  have "verify_removals_loop d vals 0 =
    (if addrs d \<subseteq> addrs (Validators vals)
     then Inr (\<Sum>c\<leftarrow>d. old_power (Validators vals) (Address c)) else Inl RemovalNotFound)"
    using verify_removals_loop_eq [OF b, of 0 d] verify_sums(1) [OF b ok] vs_baseD(4) [OF b]
      sum_old_power_nonneg [OF b, of u] by simp
  moreover have "length d \<le> length (Validators vals)" if "addrs d \<subseteq> addrs (Validators vals)"
    using length_filter_removed(2) [OF vs_baseD(1) [OF b] _ that] ok asorted_distinct
    by (simp add: changes_ok_def)
  ultimately show ?thesis by (auto simp: verifyRemovals_def)
qed

lemma verifyUpdates_eq:
  assumes b: "vs_base vals" and ok: "changes_ok cs u d"
  defines "r \<equiv> (\<Sum>c\<leftarrow>d. old_power (Validators vals) (Address c))"
  shows "verifyUpdates u vals r = Some (vals,
    if new_total vals cs \<le> MaxTotalVotingPower then Inr (new_total vals cs + r)
    else Inl ErrTotalVotingPowerOverflow)"
    and "0 \<le> new_total vals cs" and "0 \<le> r" and "r \<le> MaxTotalVotingPower"
proof -
  let ?T = "total_power (Validators vals)" and ?us = "sort_key (update_delta vals) u"
  let ?o = "\<lambda>c. old_power (Validators vals) (Address c)"
  note sums = verify_sums [OF b ok]
  have tot: "new_total vals cs = ?T - r + (\<Sum>c\<leftarrow>u. update_delta vals c)"
    using sums(2) changes_ok_sums [OF ok, of ?o] changes_ok_total [OF ok] by (simp add: new_total_def r_def)
  have "0 \<le> total_power u" using ok by (intro total_power_nonneg) (auto simp: changes_ok_def)
  then show "0 \<le> new_total vals cs" using sums tot by (simp add: r_def)
  show r: "0 \<le> r" using sum_old_power_nonneg [OF b] by (simp add: r_def)
  have o: "0 \<le> (\<Sum>c\<leftarrow>u. ?o c)" by (rule sum_old_power_nonneg [OF b])
  show rM: "r \<le> MaxTotalVotingPower" using sums(1) o vs_baseD(4) [OF b] by (simp add: r_def)
  have perm: "(\<Sum>c\<leftarrow>?us. f c) = (\<Sum>c\<leftarrow>u. f c)" for f :: "Validator \<Rightarrow> int"
    by (metis mset_map mset_sort sum_mset_sum_list)
  have w: "wrap64 (?T - r) = ?T - r" using r sums(1) o vs_baseD(4) [OF b] by (simp add: in64_def r_def)
  have "verify_updates_loop vals ?us (?T - r) =
    (let t = ?T - r + (\<Sum>c\<leftarrow>?us. update_delta vals c)
     in if t \<le> MaxTotalVotingPower then Inr t else Inl ErrTotalVotingPowerOverflow)"
    using ok r sums(1) vs_baseD(4) [OF b]
    by (intro verify_updates_loop_eq [OF b]) (auto simp: perm r_def changes_ok_def)
  then have "verify_updates_loop vals ?us (?T - r) =
    (if new_total vals cs \<le> MaxTotalVotingPower then Inr (new_total vals cs)
     else Inl ErrTotalVotingPowerOverflow)"
    by (simp add: perm tot Let_def)
  moreover have "wrap64 (new_total vals cs + r) = new_total vals cs + r"
    if "new_total vals cs \<le> MaxTotalVotingPower"
    using that \<open>0 \<le> new_total vals cs\<close> r rM by (simp add: in64_def)
  ultimately show "verifyUpdates u vals r = Some (vals,
    if new_total vals cs \<le> MaxTotalVotingPower then Inr (new_total vals cs + r)
    else Inl ErrTotalVotingPowerOverflow)"
    using vs_baseD(5) [OF b] w by (simp add: verifyUpdates_def Let_def)
qed

section \<open>Installing the new list\<close>

definition keyed :: "Validator list \<Rightarrow> bool" where
  "keyed vs \<longleftrightarrow> (\<forall>v \<in> set vs. val_PubKey v \<noteq> None)"

definition prio_window :: "ValidatorSet \<Rightarrow> bool" where
  "prio_window vals \<longleftrightarrow>
     (\<forall>p \<in> set (prios vals). - 2 * MaxTotalVotingPower \<le> p \<and> p \<le> 2 * MaxTotalVotingPower)"

lemma same_key_loop_keyed: "keyed vs \<Longrightarrow> \<exists>same. same_key_loop vs k = Some same"
  by (induction vs arbitrary: k) (auto simp: keyed_def Let_def)

lemma checkAllKeys_keyed:
  "keyed (Validators vals) \<Longrightarrow> \<exists>same. checkAllKeysHaveSameType vals = Some (vals\<lparr>allKeysHaveSameType := same\<rparr>)"
  using same_key_loop_keyed [of "Validators vals" "''''"] by (auto simp: checkAllKeysHaveSameType_def)

lemma computeNewPriorities_fields [simp]:
  "map Address (computeNewPriorities u vals t) = map Address u"
  "map VotingPower (computeNewPriorities u vals t) = map VotingPower u"
  "map val_PubKey (computeNewPriorities u vals t) = map val_PubKey u"
  by (auto simp: computeNewPriorities_def split: option.splits)

lemma keyed_cong: "map val_PubKey vs = map val_PubKey ws \<Longrightarrow> keyed vs = keyed ws"
  unfolding keyed_def by (metis (no_types, lifting) image_iff list.set_map)

lemma computeNewPriorities_window:
  assumes "prio_window vals" and "0 \<le> t" and "t \<le> 2 * MaxTotalVotingPower"
    and "v \<in> set (computeNewPriorities u vals t)"
  shows "- 3 * MaxTotalVotingPower \<le> ProposerPriority v" and "ProposerPriority v \<le> 2 * MaxTotalVotingPower"
proof -
  have "t div 8 \<le> 288230376151711743" using assms(3) by simp
  moreover have "0 \<le> t div 8" using assms(2) by simp
  ultimately have "wrap64 (- (wrap64 (t + t div 8))) = - (t + t div 8)"
    using assms(2,3) by (simp add: in64_def)
  moreover have "0 \<le> t + t div 8" "t + t div 8 \<le> 3 * MaxTotalVotingPower"
    using \<open>0 \<le> t div 8\<close> \<open>t div 8 \<le> 288230376151711743\<close> assms(2,3) by simp_all
  moreover have "- 2 * MaxTotalVotingPower \<le> ProposerPriority w \<and> ProposerPriority w \<le> 2 * MaxTotalVotingPower"
    if "find P (Validators vals) = Some w" for P w
    using assms(1) that mem_prios [of w vals] by (auto simp: prio_window_def find_Some_iff)
  ultimately have "- 3 * MaxTotalVotingPower \<le> ProposerPriority v \<and> ProposerPriority v \<le> 2 * MaxTotalVotingPower"
    using assms(4) by (fastforce simp: computeNewPriorities_def GetByAddress_find split: option.splits)
  then show "- 3 * MaxTotalVotingPower \<le> ProposerPriority v" and "ProposerPriority v \<le> 2 * MaxTotalVotingPower"
    by blast+
qed

text \<open>The merge and the removals build \<open>merged_vals\<close>.\<close>

lemma applyRemovals_merged:
  assumes b: "vs_base vals" and ok: "changes_ok cs u d" and u': "map Address u' = map Address u"
    and sub: "addrs d \<subseteq> addrs (Validators vals)"
  shows "applyRemovals (applyUpdates vals u') d = Some (vals\<lparr>Validators := merged_vals vals u' d\<rparr>)"
proof -
  let ?m = "merge_updates (sort_by_address (Validators vals)) u'"
  have su: "asorted u'" "asorted d" using u' ok by (simp_all add: changes_ok_def)
  note m = merge_updates_props [OF sort_by_address_strict [OF vs_baseD(1) [OF b]] su(1)]
  have "addrs (Validators vals) \<subseteq> addrs ?m" unfolding m(2) by auto
  then have sub': "addrs d \<subseteq> addrs ?m" using sub by blast
  note len = length_filter_removed [OF asorted_distinct [OF m(1)] asorted_distinct [OF su(2)] sub']
  have "remove_loop ?m d = Some (merged_vals vals u' d)"
    unfolding merged_vals_def by (rule remove_loop_eq [OF m(1) su(2) sub'])
  then show ?thesis using len by (simp add: applyRemovals_def applyUpdates_def merged_vals_def)
qed

lemma sort_by_voting_power_props [simp]:
  "mset (sort_by_voting_power vs) = mset vs" "set (sort_by_voting_power vs) = set vs"
  "sorted (map (\<lambda>v. (- VotingPower v, Address v)) (sort_by_voting_power vs))"
  "length (sort_by_voting_power vs) = length vs"
  by (simp_all add: sort_by_voting_power_def)

lemma sort_by_voting_power_map: "mset (map f (sort_by_voting_power vs)) = mset (map f vs)"
  by (simp add: mset_map)

lemma sort_install:
  fixes vals :: ValidatorSet
  assumes "vs_wf vals" and "prio_centered vals" and "prio_narrow vals"
  defines "vals' \<equiv> vals\<lparr>Validators := sort_by_voting_power (Validators vals)\<rparr>"
  shows "vs_wf vals'" and "vs_sorted vals'" and "prio_centered vals'" and "prio_narrow vals'"
    and "power_of (Validators vals') = power_of (Validators vals)" and "vs_power vals' = vs_power vals"
proof -
  let ?s = "sort_by_voting_power (Validators vals)"
  have t: "total_power ?s = total_power (Validators vals)" by (rule total_power_mset) simp
  have d: "distinct (map Address ?s) = distinct (map Address (Validators vals))"
    by (rule mset_eq_imp_distinct_iff) (rule sort_by_voting_power_map)
  have "sum_list (map ProposerPriority ?s) = sum_list (map ProposerPriority (Validators vals))"
    using arg_cong [OF sort_by_voting_power_map [of ProposerPriority "Validators vals"], of sum_mset]
    by (simp only: sum_mset_sum_list)
  with assms(2) show "prio_centered vals'"
    by (simp add: prio_centered_def vals'_def prios_def num_vals_def)
  show "vs_wf vals'"
    using assms(1) t d sort_by_voting_power_props(2) [of "Validators vals"]
    unfolding vs_wf_def vals'_def by (auto simp del: sort_by_voting_power_props(2))
  show "vs_sorted vals'" by (simp add: vs_sorted_def vals'_def)
  show p: "vs_power vals' = vs_power vals" by (simp add: vs_power_def vals'_def t)
  have "set (prios vals') = set (prios vals)" by (simp add: vals'_def prios_def)
  then show "prio_narrow vals'" using assms(3) unfolding prio_narrow_def p by metis
  show "power_of (Validators vals') = power_of (Validators vals)"
    using assms(1) d by (intro power_of_set) (simp_all add: vals'_def vs_wf_def)
qed

text \<open>After the checks nothing fails any more, and the new list is the abstract update.\<close>

lemma apply_change_set_eq:
  assumes b: "vs_base vals" and win: "prio_window vals" and k: "keyed (Validators vals)" "keyed cs"
    and ok: "changes_ok cs u d" and sub: "addrs d \<subseteq> addrs (Validators vals)"
    and ne: "merged_vals vals u d \<noteq> []" and max: "new_total vals cs \<le> MaxTotalVotingPower"
    and t: "0 \<le> t" "t \<le> 2 * MaxTotalVotingPower"
  shows "\<exists>vals'. apply_change_set vals u d t = Some vals' \<and> vs_wf vals' \<and> vs_sorted vals' \<and>
     prio_centered vals' \<and> prio_narrow vals' \<and> keyed (Validators vals') \<and> Proposer vals' = Proposer vals \<and>
     power_of (Validators vals') = apply_changes (power_of (Validators vals)) (power_of cs)"
proof -
  let ?u = "computeNewPriorities u vals t"
  let ?m = "merged_vals vals ?u d"
  note m = merged_vals_props [OF b ok computeNewPriorities_fields(1,2)]
  have ne': "?m \<noteq> []"
  proof
    assume "?m = []"
    then have "\<forall>a. power_of (merged_vals vals u d) a = None"
      using m(4) merged_vals_props(4) [OF b ok refl refl] by (metis empty_iff image_empty list.set(1) power_of_None_iff)
    with ne show False by (simp add: power_of_None_iff)
  qed
  have kc: "keyed u" using k(2) ok by (auto simp: keyed_def changes_ok_def)
  have "keyed ?u" using kc keyed_cong [OF computeNewPriorities_fields(3)] by blast
  then have km: "keyed ?m" unfolding keyed_def m(2) using k(1) by (auto simp: keyed_def)
  have win': "- 3 * MaxTotalVotingPower \<le> ProposerPriority v \<and> ProposerPriority v \<le> 2 * MaxTotalVotingPower"
    if "v \<in> set ?m" for v
    using that computeNewPriorities_window [OF win t, of v u] win mem_prios [of v vals]
    unfolding m(2) prio_window_def by force
  obtain same where same: "checkAllKeysHaveSameType (vals\<lparr>Validators := ?m\<rparr>)
      = Some (vals\<lparr>Validators := ?m, allKeysHaveSameType := same\<rparr>)"
    using checkAllKeys_keyed [of "vals\<lparr>Validators := ?m\<rparr>"] km by auto
  let ?v4 = "vals\<lparr>Validators := ?m, allKeysHaveSameType := same, totalVotingPower := total_power ?m\<rparr>"
  have wf4: "vs_wf ?v4"
    using ne' m(1,3,5) win' max by (simp add: vs_wf_def in64_def) force
  have pw: "VotingPower v \<le> MaxTotalVotingPower" if "v \<in> set ?m" for v
    using vs_wf_power(3) [OF wf4] that by simp
  have tot: "updateTotalVotingPower (vals\<lparr>Validators := ?m, allKeysHaveSameType := same\<rparr>) = Some ?v4"
    using updateTotalVotingPower_eq [of "vals\<lparr>Validators := ?m, allKeysHaveSameType := same\<rparr>"] m(3,5) max pw
    by (simp add: less_imp_le)
  have "spread_le (6 * MaxTotalVotingPower) (prios ?v4)"
    using win' by (intro spread_leI [of _ "- 3 * MaxTotalVotingPower" "2 * MaxTotalVotingPower"])
      (auto simp: prios_def)
  from rescale_shift [OF wf4 this] obtain v6 v7 where
    r: "RescalePriorities ?v4 (wrap64 (PriorityWindowSizeFactor * vs_power ?v4)) = Some v6"
      "shiftByAvgProposerPriority v6 = Some v7" "vs_wf v7" "prio_centered v7" "prio_narrow v7"
      "map Address (Validators v7) = map Address (Validators ?v4)"
      "map VotingPower (Validators v7) = map VotingPower (Validators ?v4)"
      "map val_PubKey (Validators v7) = map val_PubKey (Validators ?v4)" "Proposer v7 = Proposer ?v4"
    by (elim exE conjE) (rule that)
  let ?r = "v7\<lparr>Validators := sort_by_voting_power (Validators v7)\<rparr>"
  have "apply_change_set vals u d t = Some ?r"
    using applyRemovals_merged [OF b ok computeNewPriorities_fields(1) sub] same tot
      TotalVotingPower_wf [OF wf4] r(1,2)
    by (simp add: apply_change_set_def Let_def vs_power_def)
  moreover have "power_of (Validators v7) = apply_changes (power_of (Validators vals)) (power_of cs)"
    using power_of_cong [OF r(6,7)] m(4) by simp
  moreover have "keyed (Validators ?r)"
    using km keyed_cong [OF r(8)] by (simp add: keyed_def)
  ultimately show ?thesis using sort_install [OF r(3-5)] r(9) by auto
qed

lemma updateWithChangeSet_eq:
  assumes b: "vs_base vals" and win: "prio_window vals" and k: "keyed (Validators vals)" "keyed cs"
    and cs: "cs \<noteq> []"
  shows "if changes_accepted vals cs allowDeletes
    then \<exists>vals'. updateWithChangeSet vals cs allowDeletes = Some (vals', None) \<and>
      vs_wf vals' \<and> vs_sorted vals' \<and> prio_centered vals' \<and> prio_narrow vals' \<and>
      keyed (Validators vals') \<and> Proposer vals' = Proposer vals \<and>
      power_of (Validators vals') = apply_changes (power_of (Validators vals)) (power_of cs)
    else \<exists>e. updateWithChangeSet vals cs allowDeletes = Some (vals, Some e)"
proof (cases "processChanges cs")
  case (Inl e)
  with cs processChanges_Inl [OF Inl] show ?thesis by (simp add: updateWithChangeSet_def)
next
  case (Inr p)
  obtain u d where p: "p = (u, d)" by (cases p)
  have ok: "changes_ok cs u d" using Inr p processChanges_Inr by simp
  have ne: "[] \<notin> addrs cs" using Inr p processChanges_nonempty by simp
  let ?apply = "apply_changes (power_of (Validators vals)) (power_of cs)"
  have dn: "d = [] \<longleftrightarrow> (\<forall>c \<in> set cs. VotingPower c \<noteq> 0)"
    using ok unfolding changes_ok_def by (cases d) auto
  have acc: "changes_accepted vals cs allowDeletes \<longleftrightarrow> (allowDeletes \<or> d = []) \<and>
      addrs d \<subseteq> addrs (Validators vals) \<and> (\<exists>a. ?apply a \<noteq> None) \<and> new_total vals cs \<le> MaxTotalVotingPower"
    using ok ne dn unfolding changes_accepted_def changes_ok_def by (auto simp: image_subset_iff)
  note run = updateWithChangeSet_def Inr p cs
  consider (del) "\<not> allowDeletes" "d \<noteq> []"
    | (sub) "allowDeletes \<or> d = []" "\<not> addrs d \<subseteq> addrs (Validators vals)"
    | (empty) "allowDeletes \<or> d = []" "addrs d \<subseteq> addrs (Validators vals)" "\<forall>a. ?apply a = None"
    | (over) "allowDeletes \<or> d = []" "addrs d \<subseteq> addrs (Validators vals)" "\<not> (\<forall>a. ?apply a = None)"
        "\<not> new_total vals cs \<le> MaxTotalVotingPower"
    | (ok) "allowDeletes \<or> d = []" "addrs d \<subseteq> addrs (Validators vals)" "\<not> (\<forall>a. ?apply a = None)"
        "new_total vals cs \<le> MaxTotalVotingPower"
    by blast
  then show ?thesis
  proof cases
    case del
    then have "\<not> changes_accepted vals cs allowDeletes" by (blast dest: acc [THEN iffD1])
    then show ?thesis using del by (simp only: if_False) (simp add: run)
  next
    case sub
    then show ?thesis using verifyRemovals_eq [OF b ok] by (auto simp: acc run)
  next
    case empty
    then show ?thesis using empty_check [OF b ok empty(2)] by (auto simp: acc run)
  next
    case over
    then show ?thesis
      using empty_check [OF b ok over(2)] verifyRemovals_eq [OF b ok] verifyUpdates_eq(1) [OF b ok]
      by (auto simp: acc run)
  next
    case ok': ok
    let ?r = "\<Sum>c\<leftarrow>d. old_power (Validators vals) (Address c)"
    have "merged_vals vals u d \<noteq> []"
      using ok'(3) merged_vals_props(4) [OF b ok refl refl]
      by (metis empty_iff image_empty list.set(1) power_of_None_iff)
    from apply_change_set_eq [OF b win k ok ok'(2) this ok'(4), of "new_total vals cs + ?r"]
    show ?thesis
      using empty_check [OF b ok ok'(2)] verifyRemovals_eq [OF b ok] verifyUpdates_eq [OF b ok] ok'
      by (auto simp: acc run)
  qed
qed

section \<open>Properties\<close>

lemma rot_inv_base: "rot_inv vals \<Longrightarrow> vs_base vals"
  by (simp add: rot_inv_def vs_base_def)

lemma rot_inv_window: "rot_inv vals \<Longrightarrow> prio_window vals"
  using prio_range [of vals] by (auto simp: prio_window_def prios_def)

lemma narrow_spread:
  assumes "vs_wf vals" and "prio_narrow vals"
  shows "spread_le (6 * MaxTotalVotingPower) (prios vals)"
  using assms(2) power_le_max [OF assms(1)]
  by (intro spread_leI [of _ "- 2 * vs_power vals" "2 * vs_power vals"]) (auto simp: prio_narrow_def)

text \<open>The map determines the number of validators and their total power.\<close>

lemma power_of_size:
  assumes "distinct (map Address vs)" and "distinct (map Address ws)" and "power_of vs = power_of ws"
  shows "length vs = length ws" and "total_power vs = total_power ws"
proof -
  have dom: "addrs vs = addrs ws"
  proof (rule set_eqI)
    fix a
    have "a \<notin> addrs vs \<longleftrightarrow> a \<notin> addrs ws" unfolding power_of_None_iff [symmetric] assms(3) ..
    then show "a \<in> addrs vs \<longleftrightarrow> a \<in> addrs ws" by simp
  qed
  have card: "length vs = card (addrs vs)" and tot: "total_power vs = (\<Sum>a \<in> addrs vs. the (power_of vs a))"
    if dv: "distinct (map Address vs)" for vs
  proof -
    show "length vs = card (addrs vs)" using distinct_card [OF dv] by simp
    have inj: "inj_on Address (set vs)" and d: "distinct vs" using dv by (simp_all add: distinct_map)
    have "the (power_of vs (Address v)) = VotingPower v" if v: "v \<in> set vs" for v
      using power_of_Some_iff [OF dv, of "Address v" "VotingPower v"] v by auto
    then show "total_power vs = (\<Sum>a \<in> addrs vs. the (power_of vs a))"
      by (simp add: total_power_sum [OF d] sum.reindex [OF inj])
  qed
  show "length vs = length ws" using card [OF assms(1)] card [OF assms(2)] dom by simp
  show "total_power vs = total_power ws" using tot [OF assms(1)] tot [OF assms(2)] dom assms(3) by simp
qed

definition demo_changes :: "Validator list" where
  "demo_changes = [demo_validator 3 5 0, demo_validator 1 0 0, demo_validator 2 4 0]"

lemma apply_changes_exI: "apply_changes m c a = Some p \<Longrightarrow> \<exists>a. apply_changes m c a \<noteq> None"
  by auto

lemma demo_accepted: "changes_accepted demo_vals demo_changes True"
  unfolding changes_accepted_def
  by (intro conjI apply_changes_exI [where a = "[3]" and p = 5]; code_simp)

text \<open>C23. \<open>UpdateWithChangeSet\<close> implements the update of a finite map from addresses to powers. It
  never panics; it succeeds exactly when the changes are acceptable, and then the set is again
  well-formed, sorted by power, with bounded and centred priorities, and maps every address to
  the power the changes give it; otherwise it reports an error and the set is unchanged.\<close>

theorem UpdateWithChangeSet_refines:
  assumes "rot_inv vals" and "keyed (Validators vals)" and "keyed cs" and "cs \<noteq> []"
  shows "if changes_accepted vals cs True
    then \<exists>vals'. UpdateWithChangeSet vals cs = Some (vals', None) \<and>
      vs_wf vals' \<and> vs_sorted vals' \<and> prio_centered vals' \<and> prio_narrow vals' \<and>
      keyed (Validators vals') \<and> Proposer vals' = Proposer vals \<and>
      power_of (Validators vals') = apply_changes (power_of (Validators vals)) (power_of cs)
    else \<exists>e. UpdateWithChangeSet vals cs = Some (vals, Some e)"
  unfolding UpdateWithChangeSet_def using assms
  by (intro updateWithChangeSet_eq rot_inv_base rot_inv_window)

theorem UpdateWithChangeSet_refines_witness:
  "changes_accepted demo_vals demo_changes True \<and>
   (\<exists>vals'. UpdateWithChangeSet demo_vals demo_changes = Some (vals', None) \<and>
      vs_wf vals' \<and> vs_sorted vals' \<and> prio_centered vals' \<and> prio_narrow vals' \<and>
      keyed (Validators vals') \<and> Proposer vals' = Proposer demo_vals \<and>
      power_of (Validators vals') = apply_changes (power_of (Validators demo_vals)) (power_of demo_changes))"
proof -
  have "keyed (Validators demo_vals)" "keyed demo_changes" "demo_changes \<noteq> []" by code_simp+
  from UpdateWithChangeSet_refines [OF demo_rot_inv this] demo_accepted show ?thesis by simp
qed

text \<open>The empty set that \<open>NewValidatorSet\<close> starts from.\<close>

abbreviation empty_vals :: ValidatorSet where
  "empty_vals \<equiv> \<lparr>Validators = [], Proposer = None, totalVotingPower = 0, allKeysHaveSameType = True\<rparr>"

lemma demo_new_accepted: "changes_accepted empty_vals (Validators demo_vals) False"
  unfolding changes_accepted_def
  by (intro conjI apply_changes_exI [where a = "[1]" and p = 1]; code_simp)



end
