(* ===== verification/Vote_Set.thy ===== *)
theory Vote_Set
  imports Vote Bit_Array Validator_Update
begin

text \<open>
  \<open>types/vote_set.go\<close>: the votes of one type at one height and round, the tally per block, and the
  first block to reach a two-thirds majority. A slice of vote pointers is a list of options; the
  map \<open>votesByBlock\<close> holds the tally values and writing through a pointer of it is storing the new
  value. The mutex serialises the methods, each of which is one function here. The reconstruction
  of a vote set from a commit is from \<open>types/block.go\<close>.
\<close>

section \<open>Tallies per block\<close>

record blockVotes =
  bv_peerMaj23 :: bool
  bv_bitArray :: "BitArray option"
  bv_votes :: "Vote option list"
  bv_sum :: int

definition newBlockVotes :: "bool \<Rightarrow> int \<Rightarrow> blockVotes" where
  "newBlockVotes peerMaj23 numValidators =
     \<lparr>bv_peerMaj23 = peerMaj23, bv_bitArray = NewBitArray numValidators,
      bv_votes = replicate (nat numValidators) None, bv_sum = 0\<rparr>"

definition blockVotes_addVerifiedVote :: "blockVotes \<Rightarrow> Vote \<Rightarrow> int \<Rightarrow> blockVotes option" where
  "blockVotes_addVerifiedVote vs vote votingPower =
     do {
       existing \<leftarrow> slice_get (bv_votes vs) (vote_ValidatorIndex vote);
       if existing = None
       then do {
         (bits, ok) \<leftarrow> SetIndex (bv_bitArray vs) (vote_ValidatorIndex vote) True;
         votes \<leftarrow> slice_set (bv_votes vs) (vote_ValidatorIndex vote) (Some vote);
         Some (vs\<lparr>bv_bitArray := bits, bv_votes := votes, bv_sum := wrap64 (bv_sum vs + votingPower)\<rparr>)
       }
       else Some vs
     }"

definition getByIndex :: "blockVotes option \<Rightarrow> int \<Rightarrow> Vote option option" where
  "getByIndex vs index = (case vs of None \<Rightarrow> Some None | Some bv \<Rightarrow> slice_get (bv_votes bv) index)"

section \<open>Vote sets\<close>

record VoteSet =
  chainID :: bytes
  height :: int
  round :: int
  signedMsgType :: int
  valSet :: ValidatorSet
  extensionsEnabled :: bool
  votesBitArray :: "BitArray option"
  votes :: "Vote option list"
  voteSum :: int
  maj23 :: "BlockID option"
  votesByBlock :: "bytes \<rightharpoonup> blockVotes"
  peerMaj23s :: "bytes \<rightharpoonup> BlockID"

definition NewVoteSet :: "bytes \<Rightarrow> int \<Rightarrow> int \<Rightarrow> int \<Rightarrow> ValidatorSet \<Rightarrow> VoteSet option" where
  "NewVoteSet chain h r typ vals =
     (if h = 0 then None
      else Some \<lparr>chainID = chain, height = h, round = r, signedMsgType = typ, valSet = vals,
        extensionsEnabled = False, votesBitArray = NewBitArray (Size vals),
        votes = replicate (nat (Size vals)) None, voteSum = 0, maj23 = None,
        votesByBlock = Map.empty, peerMaj23s = Map.empty\<rparr>)"

definition NewExtendedVoteSet :: "bytes \<Rightarrow> int \<Rightarrow> int \<Rightarrow> int \<Rightarrow> ValidatorSet \<Rightarrow> VoteSet option" where
  "NewExtendedVoteSet chain h r typ vals =
     do { vs \<leftarrow> NewVoteSet chain h r typ vals; Some (vs\<lparr>extensionsEnabled := True\<rparr>) }"

definition getVote :: "VoteSet \<Rightarrow> int \<Rightarrow> bytes \<Rightarrow> Vote option option" where
  "getVote voteSet valIndex blockKey =
     do {
       existing \<leftarrow> slice_get (votes voteSet) valIndex;
       (case existing of
          Some v \<Rightarrow> if BlockID_Key (vote_BlockID v) = blockKey then Some (Some v)
                    else getByIndex (votesByBlock voteSet blockKey) valIndex
        | None \<Rightarrow> getByIndex (votesByBlock voteSet blockKey) valIndex)
     }"

text \<open>\<open>voteSet.votes[valIndex] = vote\<close> with its bit.\<close>

definition store_vote :: "VoteSet \<Rightarrow> Vote \<Rightarrow> VoteSet option" where
  "store_vote voteSet vote =
     do {
       vs \<leftarrow> slice_set (votes voteSet) (vote_ValidatorIndex vote) (Some vote);
       (bits, ok) \<leftarrow> SetIndex (votesBitArray voteSet) (vote_ValidatorIndex vote) True;
       Some (voteSet\<lparr>votes := vs, votesBitArray := bits\<rparr>)
     }"

text \<open>The first part of \<open>addVerifiedVote\<close>: the canonical votes, and the conflicting vote if any.\<close>

definition add_canonical :: "VoteSet \<Rightarrow> Vote \<Rightarrow> bytes \<Rightarrow> int \<Rightarrow> (VoteSet \<times> Vote option) option" where
  "add_canonical voteSet vote blockKey votingPower =
     do {
       existing \<leftarrow> slice_get (votes voteSet) (vote_ValidatorIndex vote);
       (case existing of
          Some v \<Rightarrow>
            if BlockID_Equals (vote_BlockID v) (vote_BlockID vote) then None
            else if map_option BlockID_Key (maj23 voteSet) = Some blockKey
            then do { vs' \<leftarrow> store_vote voteSet vote; Some (vs', Some v) }
            else Some (voteSet, Some v)
        | None \<Rightarrow> do {
            vs' \<leftarrow> store_vote voteSet vote;
            Some (vs'\<lparr>voteSum := wrap64 (voteSum vs' + votingPower)\<rparr>, None)
          })
     }"

text \<open>The loop that copies the votes of the majority block.\<close>

fun copy_votes :: "Vote option list \<Rightarrow> Vote option list \<Rightarrow> Vote option list option" where
  "copy_votes [] dst = Some dst"
| "copy_votes (None # src) [] = copy_votes src []"
| "copy_votes (Some v # src) [] = None"
| "copy_votes (None # src) (d # dst) = map_option ((#) d) (copy_votes src dst)"
| "copy_votes (Some v # src) (d # dst) = map_option ((#) (Some v)) (copy_votes src dst)"

definition quorum_of :: "int \<Rightarrow> int" where
  "quorum_of tvp = wrap64 (wrap64 (tvp * 2) sdiv 3 + 1)"

text \<open>The second part: the tally of the block, which is already tracked or was just created.\<close>

definition add_to_block :: "VoteSet \<Rightarrow> blockVotes \<Rightarrow> Vote \<Rightarrow> bytes \<Rightarrow> int \<Rightarrow> VoteSet option" where
  "add_to_block voteSet bv vote blockKey votingPower =
     do {
       (vals, tvp) \<leftarrow> TotalVotingPower (valSet voteSet);
       let quorum = quorum_of tvp;
       bv' \<leftarrow> blockVotes_addVerifiedVote bv vote votingPower;
       let vs1 = voteSet\<lparr>valSet := vals, votesByBlock := (votesByBlock voteSet)(blockKey \<mapsto> bv')\<rparr>;
       if bv_sum bv < quorum \<and> quorum \<le> bv_sum bv' \<and> maj23 voteSet = None
       then do {
         copied \<leftarrow> copy_votes (bv_votes bv') (votes vs1);
         Some (vs1\<lparr>maj23 := Some (vote_BlockID vote), votes := copied\<rparr>)
       }
       else Some vs1
     }"

definition addVerifiedVote ::
    "VoteSet \<Rightarrow> Vote \<Rightarrow> bytes \<Rightarrow> int \<Rightarrow> (VoteSet \<times> bool \<times> Vote option) option" where
  "addVerifiedVote voteSet vote blockKey votingPower =
     do {
       (vs1, conflicting) \<leftarrow> add_canonical voteSet vote blockKey votingPower;
       (case votesByBlock vs1 blockKey of
          Some bv \<Rightarrow>
            if conflicting \<noteq> None \<and> \<not> bv_peerMaj23 bv then Some (vs1, False, conflicting)
            else do {
              vs2 \<leftarrow> add_to_block vs1 bv vote blockKey votingPower;
              Some (vs2, True, conflicting)
            }
        | None \<Rightarrow>
            if conflicting \<noteq> None then Some (vs1, False, conflicting)
            else do {
              vs2 \<leftarrow> add_to_block vs1 (newBlockVotes False (Size (valSet vs1))) vote blockKey votingPower;
              Some (vs2, True, conflicting)
            })
     }"

text \<open>The signature check of \<open>addVote\<close>; a validator without public key makes it panic.\<close>

definition check_signature :: "ext_env \<Rightarrow> VoteSet \<Rightarrow> Validator \<Rightarrow> Vote \<Rightarrow> vote_error option option" where
  "check_signature ce voteSet val vote =
     do {
       pk \<leftarrow> val_PubKey val;
       if extensionsEnabled voteSet then VerifyVoteAndExtension ce (chainID voteSet) pk vote
       else do {
         err \<leftarrow> Vote_Verify ce (chainID voteSet) pk vote;
         (case err of
            Some e \<Rightarrow> Some (Some e)
          | None \<Rightarrow> if length (vote_ExtensionSignature vote) > 0 \<or> length (vote_Extension vote) > 0
                    then Some (Some UnexpectedExtensionData) else Some None)
       }
     }"

definition addVote :: "ext_env \<Rightarrow> VoteSet \<Rightarrow> Vote option \<Rightarrow> (VoteSet \<times> bool \<times> vote_error option) option" where
  "addVote ce voteSet p =
     (case p of
        None \<Rightarrow> Some (voteSet, False, Some ErrVoteNil)
      | Some vote \<Rightarrow>
          let valIndex = vote_ValidatorIndex vote;
              valAddr = vote_ValidatorAddress vote;
              blockKey = BlockID_Key (vote_BlockID vote)
          in if valIndex < 0 then Some (voteSet, False, Some ErrVoteInvalidValidatorIndex)
             else if length valAddr = 0 then Some (voteSet, False, Some ErrVoteInvalidValidatorAddress)
             else if vote_Height vote \<noteq> height voteSet \<or> vote_Round vote \<noteq> round voteSet
                     \<or> vote_Type vote \<noteq> signedMsgType voteSet
             then Some (voteSet, False, Some ErrVoteUnexpectedStep)
             else case GetByIndex (valSet voteSet) valIndex of
                 (lookupAddr, None) \<Rightarrow> Some (voteSet, False, Some ErrVoteInvalidValidatorIndex)
               | (lookupAddr, Some val) \<Rightarrow>
                   if valAddr \<noteq> lookupAddr
                   then Some (voteSet, False, Some ErrVoteInvalidValidatorAddress)
                   else do {
                     known \<leftarrow> getVote voteSet valIndex blockKey;
                     (case known of
                        Some existing \<Rightarrow>
                          if vote_Signature existing = vote_Signature vote
                          then Some (voteSet, False, None)
                          else Some (voteSet, False, Some ErrVoteNonDeterministicSignature)
                      | None \<Rightarrow> do {
                          err \<leftarrow> check_signature ce voteSet val vote;
                          (case err of
                             Some e \<Rightarrow> Some (voteSet, False, Some e)
                           | None \<Rightarrow> do {
                               (vs', added, conflicting) \<leftarrow>
                                 addVerifiedVote voteSet vote blockKey (VotingPower val);
                               (case conflicting of
                                  Some c \<Rightarrow> Some (vs', added, Some (ErrVoteConflictingVotes c vote))
                                | None \<Rightarrow> if \<not> added then None else Some (vs', added, None))
                             })
                        })
                   })"

definition SetPeerMaj23 :: "VoteSet \<Rightarrow> bytes \<Rightarrow> BlockID \<Rightarrow> VoteSet \<times> bool" where
  "SetPeerMaj23 voteSet peerID blockID =
     (let blockKey = BlockID_Key blockID
      in case peerMaj23s voteSet peerID of
           Some existing \<Rightarrow> (voteSet, BlockID_Equals existing blockID)
         | None \<Rightarrow>
             let vs1 = voteSet\<lparr>peerMaj23s := (peerMaj23s voteSet)(peerID \<mapsto> blockID)\<rparr>
             in (case votesByBlock voteSet blockKey of
                   Some bv \<Rightarrow>
                     if bv_peerMaj23 bv then (vs1, True)
                     else (vs1\<lparr>votesByBlock := (votesByBlock voteSet)(blockKey \<mapsto> bv\<lparr>bv_peerMaj23 := True\<rparr>)\<rparr>, True)
                 | None \<Rightarrow>
                     (vs1\<lparr>votesByBlock := (votesByBlock voteSet)
                        (blockKey \<mapsto> newBlockVotes True (Size (valSet voteSet)))\<rparr>, True)))"

section \<open>Readers\<close>

definition BitArrayByBlockID :: "VoteSet \<Rightarrow> BlockID \<Rightarrow> BitArray option" where
  "BitArrayByBlockID voteSet blockID =
     (case votesByBlock voteSet (BlockID_Key blockID) of None \<Rightarrow> None | Some bv \<Rightarrow> bv_bitArray bv)"

definition VoteSet_GetByIndex :: "VoteSet \<Rightarrow> int \<Rightarrow> Vote option option" where
  "VoteSet_GetByIndex voteSet valIndex = slice_get (votes voteSet) valIndex"

definition VoteSet_List :: "VoteSet \<Rightarrow> Vote list" where
  "VoteSet_List voteSet = concat (map (\<lambda>p. case p of None \<Rightarrow> [] | Some v \<Rightarrow> [v]) (votes voteSet))"

definition VoteSet_GetByAddress :: "VoteSet \<Rightarrow> bytes \<Rightarrow> Vote option option" where
  "VoteSet_GetByAddress voteSet address =
     (case GetByAddress (valSet voteSet) address of
        (valIndex, None) \<Rightarrow> None
      | (valIndex, Some val) \<Rightarrow> slice_get (votes voteSet) valIndex)"

definition HasTwoThirdsMajority :: "VoteSet option \<Rightarrow> bool" where
  "HasTwoThirdsMajority p = (case p of None \<Rightarrow> False | Some voteSet \<Rightarrow> maj23 voteSet \<noteq> None)"

definition IsCommit :: "VoteSet option \<Rightarrow> bool" where
  "IsCommit p =
     (case p of
        None \<Rightarrow> False
      | Some voteSet \<Rightarrow> if signedMsgType voteSet \<noteq> PrecommitType then False else maj23 voteSet \<noteq> None)"

definition HasTwoThirdsAny :: "VoteSet option \<Rightarrow> bool option" where
  "HasTwoThirdsAny p =
     (case p of
        None \<Rightarrow> Some False
      | Some voteSet \<Rightarrow> do {
          (vals, tvp) \<leftarrow> TotalVotingPower (valSet voteSet);
          Some (voteSum voteSet > wrap64 (tvp * 2) sdiv 3)
        })"

definition HasAll :: "VoteSet option \<Rightarrow> bool option" where
  "HasAll p =
     (case p of
        None \<Rightarrow> Some False
      | Some voteSet \<Rightarrow> do {
          (vals, tvp) \<leftarrow> TotalVotingPower (valSet voteSet);
          Some (voteSum voteSet = tvp)
        })"

definition TwoThirdsMajority :: "VoteSet option \<Rightarrow> BlockID \<times> bool" where
  "TwoThirdsMajority p =
     (case p of
        None \<Rightarrow> (zeroBlockID, False)
      | Some voteSet \<Rightarrow> (case maj23 voteSet of None \<Rightarrow> (zeroBlockID, False) | Some b \<Rightarrow> (b, True)))"

section \<open>Commits\<close>

definition VoteExtensionsEnabled :: "int \<Rightarrow> int \<Rightarrow> bool option" where
  "VoteExtensionsEnabled enableHeight h =
     (if h < 1 then None
      else if enableHeight = 0 then Some False
      else Some (enableHeight \<le> h))"

definition extended_sig_for :: "BlockID \<Rightarrow> Vote option \<Rightarrow> ExtendedCommitSig option" where
  "extended_sig_for maj p =
     do {
       sig \<leftarrow> Vote_ExtendedCommitSig p;
       Some (if cs_BlockIDFlag (ecs_CommitSig sig) = BlockIDFlagCommit
                \<and> map_option (\<lambda>v. BlockID_Equals (vote_BlockID v) maj) p = Some False
             then NewExtendedCommitSigAbsent else sig)
     }"

definition MakeExtendedCommit :: "int \<Rightarrow> VoteSet \<Rightarrow> ExtendedCommit option" where
  "MakeExtendedCommit enableHeight voteSet =
     (if signedMsgType voteSet \<noteq> PrecommitType then None
      else case maj23 voteSet of
        None \<Rightarrow> None
      | Some maj \<Rightarrow> do {
          sigs \<leftarrow> those (map (extended_sig_for maj) (votes voteSet));
          let ec = \<lparr>ec_Height = height voteSet, ec_Round = round voteSet, ec_BlockID = maj,
                    ec_ExtendedSignatures = sigs\<rparr>;
          enabled \<leftarrow> VoteExtensionsEnabled enableHeight (ec_Height ec);
          (case EnsureExtensions enabled ec of None \<Rightarrow> Some ec | Some e \<Rightarrow> None)
        })"

text \<open>The loops of \<open>ToVoteSet\<close> and \<open>addSigsToVoteSet\<close> over the votes rebuilt from a commit.\<close>

fun add_sigs_loop ::
    "ext_env \<Rightarrow> (int \<Rightarrow> Vote option) \<Rightarrow> CommitSig list \<Rightarrow> nat \<Rightarrow> VoteSet \<Rightarrow> VoteSet option" where
  "add_sigs_loop ce getv [] idx voteSet = Some voteSet"
| "add_sigs_loop ce getv (cs # css) idx voteSet =
     (if cs_BlockIDFlag cs = BlockIDFlagAbsent then add_sigs_loop ce getv css (Suc idx) voteSet
      else do {
        vote \<leftarrow> getv (int idx);
        if Vote_ValidateBasic vote \<noteq> None then None
        else do {
          (vs', added, err) \<leftarrow> addVote ce voteSet (Some vote);
          if \<not> added \<or> err \<noteq> None then None
          else add_sigs_loop ce getv css (Suc idx) vs'
        }
      })"

definition ToVoteSet :: "ext_env \<Rightarrow> Commit \<Rightarrow> bytes \<Rightarrow> ValidatorSet \<Rightarrow> VoteSet option" where
  "ToVoteSet ce commit chain vals =
     do {
       vs \<leftarrow> NewVoteSet chain (com_Height commit) (com_Round commit) PrecommitType vals;
       add_sigs_loop ce (Commit_GetVote commit) (com_Signatures commit) 0 vs
     }"

definition ToExtendedVoteSet :: "ext_env \<Rightarrow> ExtendedCommit \<Rightarrow> bytes \<Rightarrow> ValidatorSet \<Rightarrow> VoteSet option" where
  "ToExtendedVoteSet ce ec chain vals =
     do {
       vs \<leftarrow> NewExtendedVoteSet chain (ec_Height ec) (ec_Round ec) PrecommitType vals;
       add_sigs_loop ce (GetExtendedVote ec) (map ecs_CommitSig (ec_ExtendedSignatures ec)) 0 vs
     }"

section \<open>Weighted quorums\<close>

text \<open>
  The argument behind two-thirds majorities, for any family of weighted sets: two subsets of more
  than two thirds of the weight share more than a third of it.
\<close>

locale weighted_quorums =
  fixes ok :: "'q \<Rightarrow> bool"
    and members :: "'q \<Rightarrow> 'i set"
    and weight :: "'q \<Rightarrow> 'i \<Rightarrow> int"
  assumes members_finite: "ok q \<Longrightarrow> finite (members q)"
    and weight_nonneg: "ok q \<Longrightarrow> i \<in> members q \<Longrightarrow> 0 \<le> weight q i"
begin

definition weight_of :: "'q \<Rightarrow> 'i set \<Rightarrow> int" where
  "weight_of q A = sum (weight q) (A \<inter> members q)"

definition is_quorum :: "'q \<Rightarrow> 'i set \<Rightarrow> bool" where
  "is_quorum q A \<longleftrightarrow> 2 * weight_of q (members q) < 3 * weight_of q A"

lemma weight_mono: "ok q \<Longrightarrow> A \<inter> members q \<subseteq> B \<Longrightarrow> weight_of q A \<le> weight_of q B"
  unfolding weight_of_def using members_finite weight_nonneg
  by (intro sum_mono2) auto

lemma quorum_mono: "ok q \<Longrightarrow> is_quorum q A \<Longrightarrow> A \<inter> members q \<subseteq> B \<Longrightarrow> is_quorum q B"
  using weight_mono [of q A B] unfolding is_quorum_def by linarith

lemma quorum_intersection:
  assumes "ok q" and "is_quorum q A" and "is_quorum q B"
  shows "weight_of q (members q) < 3 * weight_of q (A \<inter> B)"
proof -
  let ?A = "A \<inter> members q" and ?B = "B \<inter> members q"
  have fin: "finite ?A" "finite ?B" using members_finite [OF assms(1)] by auto
  have "sum (weight q) (?A \<union> ?B) + sum (weight q) (?A \<inter> ?B) = weight_of q A + weight_of q B"
    unfolding weight_of_def using sum.union_inter [OF fin] by simp
  moreover have "sum (weight q) (?A \<union> ?B) \<le> weight_of q (members q)"
    unfolding weight_of_def using members_finite [OF assms(1)] weight_nonneg [OF assms(1)]
    by (intro sum_mono2) auto
  moreover have "?A \<inter> ?B = (A \<inter> B) \<inter> members q" by auto
  ultimately show ?thesis using assms(2,3) unfolding is_quorum_def weight_of_def by simp
qed

lemma quorum_nonempty: "ok q \<Longrightarrow> is_quorum q A \<Longrightarrow> \<exists>i \<in> members q. i \<in> A"
proof (rule ccontr)
  assume "ok q" "is_quorum q A" "\<not> (\<exists>i \<in> members q. i \<in> A)"
  then have "A \<inter> members q = {}" by auto
  then have "weight_of q A = 0" by (simp add: weight_of_def)
  moreover have "0 \<le> weight_of q (members q)"
    unfolding weight_of_def using weight_nonneg [OF \<open>ok q\<close>] by (intro sum_nonneg) auto
  ultimately show False using \<open>is_quorum q A\<close> by (simp add: is_quorum_def)
qed

end

text \<open>The validators of a set are its indices, weighted by voting power.\<close>

definition val_indices :: "ValidatorSet \<Rightarrow> nat set" where
  "val_indices vals = {..<length (Validators vals)}"

definition val_power :: "ValidatorSet \<Rightarrow> nat \<Rightarrow> int" where
  "val_power vals i = VotingPower (Validators vals ! i)"

interpretation vq: weighted_quorums vs_wf val_indices val_power
  by unfold_locales (auto simp: val_indices_def val_power_def vs_wf_def less_imp_le)

lemma weight_of_all: "vs_wf vals \<Longrightarrow> vq.weight_of vals (val_indices vals) = total_power (Validators vals)"
  by (simp add: vq.weight_of_def val_indices_def val_power_def total_power_def sum_list_map_upt)

lemma quorum_of_eq:
  assumes "0 \<le> t" and "t \<le> MaxTotalVotingPower"
  shows "quorum_of t = t * 2 div 3 + 1"
proof -
  have "wrap64 (t * 2) = t * 2" using assms by (simp add: in64_def)
  moreover have "0 \<le> t * 2 div 3" "t * 2 div 3 \<le> t * 2" using assms(1) by (simp_all add: div_le_dividend)
  ultimately show ?thesis using assms by (simp add: quorum_of_def sdiv_nonneg in64_def)
qed

lemma quorum_of_le_iff:
  assumes "0 \<le> t" and "t \<le> MaxTotalVotingPower"
  shows "quorum_of t \<le> p \<longleftrightarrow> 2 * t < 3 * p"
  unfolding quorum_of_eq [OF assms] by linarith

section \<open>The invariant\<close>

abbreviation num_validators :: "VoteSet \<Rightarrow> nat" where
  "num_validators voteSet \<equiv> length (Validators (valSet voteSet))"

text \<open>A vote that belongs to the set and carries a valid signature of the validator with its index.\<close>

definition signed_by :: "ext_env \<Rightarrow> VoteSet \<Rightarrow> nat \<Rightarrow> Vote \<Rightarrow> bool" where
  "signed_by ce voteSet i v \<longleftrightarrow>
     i < num_validators voteSet \<and> vote_ValidatorIndex v = int i \<and>
     vote_ValidatorAddress v = Address (Validators (valSet voteSet) ! i) \<and>
     vote_Height v = height voteSet \<and> vote_Round v = round voteSet \<and> vote_Type v = signedMsgType voteSet \<and>
     (\<exists>pk. val_PubKey (Validators (valSet voteSet) ! i) = Some pk \<and>
        Vote_Verify ce (chainID voteSet) pk v = Some None)"

definition voters :: "Vote option list \<Rightarrow> nat set" where
  "voters vs = {i. i < length vs \<and> vs ! i \<noteq> None}"

definition tally :: "ValidatorSet \<Rightarrow> Vote option list \<Rightarrow> int" where
  "tally vals vs = vq.weight_of vals (voters vs)"

abbreviation set_quorum :: "VoteSet \<Rightarrow> int" where
  "set_quorum voteSet \<equiv> quorum_of (total_power (Validators (valSet voteSet)))"

definition bv_inv :: "ext_env \<Rightarrow> VoteSet \<Rightarrow> bytes \<Rightarrow> blockVotes \<Rightarrow> bool" where
  "bv_inv ce voteSet k bv \<longleftrightarrow>
     length (bv_votes bv) = num_validators voteSet \<and> bav.mirrors (bv_bitArray bv) (bv_votes bv) \<and>
     bv_sum bv = tally (valSet voteSet) (bv_votes bv) \<and>
     (\<forall>i v. i < num_validators voteSet \<longrightarrow> bv_votes bv ! i = Some v \<longrightarrow>
        signed_by ce voteSet i v \<and> BlockID_Key (vote_BlockID v) = k \<and> votes voteSet ! i \<noteq> None)"

definition maj_inv :: "VoteSet \<Rightarrow> bool" where
  "maj_inv voteSet \<longleftrightarrow>
     (case maj23 voteSet of
        None \<Rightarrow> \<forall>k bv. votesByBlock voteSet k = Some bv \<longrightarrow> bv_sum bv < set_quorum voteSet
      | Some b \<Rightarrow> \<exists>bv. votesByBlock voteSet (BlockID_Key b) = Some bv \<and> set_quorum voteSet \<le> bv_sum bv \<and>
          (\<forall>i v. i < num_validators voteSet \<longrightarrow> bv_votes bv ! i = Some v \<longrightarrow> votes voteSet ! i = Some v))"

text \<open>
  The keys in \<open>ks\<close> need not be tracked yet: between the two parts of \<open>addVerifiedVote\<close> the new vote
  is stored but its block has no tally.
\<close>

definition vset_inv_upto :: "bytes set \<Rightarrow> ext_env \<Rightarrow> VoteSet \<Rightarrow> bool" where
  "vset_inv_upto ks ce voteSet \<longleftrightarrow>
     vs_wf (valSet voteSet) \<and> length (votes voteSet) = num_validators voteSet \<and>
     bav.mirrors (votesBitArray voteSet) (votes voteSet) \<and>
     voteSum voteSet = tally (valSet voteSet) (votes voteSet) \<and>
     (\<forall>i v. i < num_validators voteSet \<longrightarrow> votes voteSet ! i = Some v \<longrightarrow>
        signed_by ce voteSet i v \<and>
        (votesByBlock voteSet (BlockID_Key (vote_BlockID v)) \<noteq> None \<or> BlockID_Key (vote_BlockID v) \<in> ks)) \<and>
     (\<forall>k bv. votesByBlock voteSet k = Some bv \<longrightarrow> bv_inv ce voteSet k bv) \<and> maj_inv voteSet"

abbreviation vset_inv :: "ext_env \<Rightarrow> VoteSet \<Rightarrow> bool" where
  "vset_inv \<equiv> vset_inv_upto {}"

text \<open>The claims of the peers play no role.\<close>

lemma peerMaj23s_upd [simp]:
  "signed_by ce (vs\<lparr>peerMaj23s := x\<rparr>) i v = signed_by ce vs i v"
  "bv_inv ce (vs\<lparr>peerMaj23s := x\<rparr>) k bv = bv_inv ce vs k bv"
  by (simp_all add: signed_by_def bv_inv_def)

lemma peerMaj23s_maj [simp]: "maj_inv (vs\<lparr>peerMaj23s := x\<rparr>) = maj_inv vs"
  by (cases "maj23 vs") (simp_all add: maj_inv_def)

lemma peerMaj23s_inv [simp]: "vset_inv_upto ks ce (vs\<lparr>peerMaj23s := x\<rparr>) = vset_inv_upto ks ce vs"
  by (simp add: vset_inv_upto_def)

text \<open>What no operation changes.\<close>

definition same_config :: "VoteSet \<Rightarrow> VoteSet \<Rightarrow> bool" where
  "same_config a b \<longleftrightarrow> chainID a = chainID b \<and> height a = height b \<and> round a = round b \<and>
     signedMsgType a = signedMsgType b \<and> valSet a = valSet b \<and> extensionsEnabled a = extensionsEnabled b"

lemma signed_by_config: "same_config a b \<Longrightarrow> signed_by ce a i v = signed_by ce b i v"
  by (simp add: same_config_def signed_by_def)

lemma signed_by_upd [simp]:
  "signed_by ce (vs\<lparr>votes := x1\<rparr>) i v = signed_by ce vs i v"
  "signed_by ce (vs\<lparr>votesBitArray := x2\<rparr>) i v = signed_by ce vs i v"
  "signed_by ce (vs\<lparr>voteSum := x3\<rparr>) i v = signed_by ce vs i v"
  "signed_by ce (vs\<lparr>maj23 := x4\<rparr>) i v = signed_by ce vs i v"
  "signed_by ce (vs\<lparr>votesByBlock := x5\<rparr>) i v = signed_by ce vs i v"
  by (simp_all add: signed_by_def)

lemma vset_invD:
  assumes "vset_inv_upto ks ce vs"
  shows "vs_wf (valSet vs)" and "length (votes vs) = num_validators vs"
    and "bav.mirrors (votesBitArray vs) (votes vs)" and "voteSum vs = tally (valSet vs) (votes vs)"
    and "\<And>i v. i < num_validators vs \<Longrightarrow> votes vs ! i = Some v \<Longrightarrow> signed_by ce vs i v"
    and "\<And>k bv. votesByBlock vs k = Some bv \<Longrightarrow> bv_inv ce vs k bv" and "maj_inv vs"
  using assms unfolding vset_inv_upto_def by blast+

lemma tracked_inv:
  "vset_inv_upto ks ce vs \<Longrightarrow> (\<And>k. k \<in> ks \<Longrightarrow> votesByBlock vs k \<noteq> None) \<Longrightarrow> vset_inv ce vs"
  unfolding vset_inv_upto_def by (elim conjE, intro conjI) (assumption | blast)+

section \<open>Tallies\<close>

lemma voters_update: "i < length vs \<Longrightarrow> voters (vs[i := Some v]) = insert i (voters vs)"
  by (auto simp: voters_def nth_list_update)

lemma voters_replicate [simp]: "voters (replicate n None) = {}"
  by (auto simp: voters_def)

lemma tally_replicate [simp]: "tally vals (replicate n None) = 0"
  by (simp add: tally_def vq.weight_of_def)

lemma tally_cong: "voters vs = voters ws \<Longrightarrow> tally vals vs = tally vals ws"
  by (simp add: tally_def)

lemma tally_update:
  assumes "vs_wf vals" and "length vs = length (Validators vals)" and "i < length vs"
  shows "tally vals (vs[i := Some v]) = tally vals vs + (if vs ! i = None then val_power vals i else 0)"
proof -
  have sub: "voters vs \<inter> val_indices vals = voters vs"
    using assms(2) by (auto simp: voters_def val_indices_def)
  have sub': "insert i (voters vs) \<inter> val_indices vals = insert i (voters vs)"
    using assms(2,3) by (auto simp: voters_def val_indices_def)
  have fin: "finite (voters vs)" by (simp add: voters_def)
  have "i \<in> voters vs \<longleftrightarrow> vs ! i \<noteq> None" using assms(3) by (simp add: voters_def)
  then show ?thesis
    unfolding tally_def voters_update [OF assms(3)] vq.weight_of_def sub sub'
    using fin by (auto simp: insert_absorb)
qed

lemma tally_bounds:
  assumes "vs_wf vals"
  shows "0 \<le> tally vals vs" and "tally vals vs \<le> total_power (Validators vals)"
    and "in64 (tally vals vs)"
proof -
  have "vq.weight_of vals (voters vs) \<le> vq.weight_of vals (val_indices vals)"
    by (rule vq.weight_mono [OF assms]) auto
  then show le: "tally vals vs \<le> total_power (Validators vals)"
    by (simp add: tally_def weight_of_all [OF assms])
  show ge: "0 \<le> tally vals vs"
    unfolding tally_def vq.weight_of_def
    using vq.weight_nonneg [OF assms] by (intro sum_nonneg) auto
  show "in64 (tally vals vs)" using le ge power_le_max [OF assms] by (simp add: in64_def vs_power_def)
qed

lemma tally_mono:
  assumes "vs_wf vals" and "voters vs \<subseteq> voters ws" shows "tally vals vs \<le> tally vals ws"
  unfolding tally_def using assms(2) by (intro vq.weight_mono [OF assms(1)]) auto

lemma copy_votes_eq:
  "length src = length dst \<Longrightarrow>
     copy_votes src dst = Some (map2 (\<lambda>s d. if s = None then d else s) src dst)"
  by (induction src dst rule: copy_votes.induct) auto

section \<open>Adding a vote\<close>

lemma store_vote_eq:
  assumes "bav.mirrors (votesBitArray vs) (votes vs)" and "vote_ValidatorIndex v = int i" and "i < length (votes vs)"
  shows "\<exists>bits. store_vote vs v = Some (vs\<lparr>votes := (votes vs)[i := Some v], votesBitArray := bits\<rparr>) \<and>
    bav.mirrors bits ((votes vs)[i := Some v])"
  using bav.mirrors_upd [OF assms(1,3), of v] assms(2,3)
  by (auto simp: store_vote_def slice_set_def)

lemma block_add_eq:
  assumes "vs_wf (valSet vs)" and "bv_inv ce vs k bv" and "vote_ValidatorIndex v = int i" and "i < num_validators vs"
    and "bv_votes bv ! i = None"
  shows "\<exists>bits. blockVotes_addVerifiedVote bv v (val_power (valSet vs) i) =
      Some (bv\<lparr>bv_bitArray := bits, bv_votes := (bv_votes bv)[i := Some v],
               bv_sum := tally (valSet vs) ((bv_votes bv)[i := Some v])\<rparr>) \<and>
    bav.mirrors bits ((bv_votes bv)[i := Some v])"
proof -
  have len: "length (bv_votes bv) = num_validators vs" and m: "bav.mirrors (bv_bitArray bv) (bv_votes bv)"
    and sum: "bv_sum bv = tally (valSet vs) (bv_votes bv)"
    using assms(2) by (auto simp: bv_inv_def)
  have i: "i < length (bv_votes bv)" using assms(4) len by simp
  have t: "tally (valSet vs) ((bv_votes bv)[i := Some v]) = bv_sum bv + val_power (valSet vs) i"
    using tally_update [OF assms(1) len i, of v] assms(5) sum by simp
  then have "wrap64 (bv_sum bv + val_power (valSet vs) i) = tally (valSet vs) ((bv_votes bv)[i := Some v])"
    using tally_bounds(3) [OF assms(1), of "(bv_votes bv)[i := Some v]"] by simp
  then show ?thesis
    using bav.mirrors_upd [OF m i, of v] assms(3,5) i
    by (auto simp: blockVotes_addVerifiedVote_def slice_set_def slice_get_nat)
qed

text \<open>New canonical votes keep the invariant when no validator loses its vote and the votes of the
  majority block stay.\<close>

lemma replace_votes:
  assumes inv: "vset_inv_upto ks ce vs"
    and ws: "length ws = num_validators vs" "bav.mirrors bits ws" "t = tally (valSet vs) ws"
    and signed: "\<And>i v. i < num_validators vs \<Longrightarrow> ws ! i = Some v \<Longrightarrow> signed_by ce vs i v \<and>
        (votesByBlock vs (BlockID_Key (vote_BlockID v)) \<noteq> None \<or> BlockID_Key (vote_BlockID v) \<in> ks')"
    and keep: "\<And>i. i < num_validators vs \<Longrightarrow> votes vs ! i \<noteq> None \<Longrightarrow> ws ! i \<noteq> None"
    and maj: "\<And>b bv i v. maj23 vs = Some b \<Longrightarrow> votesByBlock vs (BlockID_Key b) = Some bv \<Longrightarrow>
        i < num_validators vs \<Longrightarrow> bv_votes bv ! i = Some v \<Longrightarrow> votes vs ! i = Some v \<Longrightarrow> ws ! i = Some v"
  shows "vset_inv_upto ks' ce (vs\<lparr>votes := ws, votesBitArray := bits, voteSum := t\<rparr>)"
proof -
  let ?vs = "vs\<lparr>votes := ws, votesBitArray := bits, voteSum := t\<rparr>"
  have "bv_inv ce ?vs k bv" if "votesByBlock vs k = Some bv" for k bv
  proof -
    have "bv_inv ce vs k bv" using inv that by (auto simp: vset_inv_upto_def)
    then show ?thesis using keep by (auto simp: bv_inv_def)
  qed
  moreover have "maj_inv ?vs"
  proof (cases "maj23 vs")
    case None
    then show ?thesis using inv by (auto simp: vset_inv_upto_def maj_inv_def)
  next
    case (Some b)
    then obtain bv where "votesByBlock vs (BlockID_Key b) = Some bv" "set_quorum vs \<le> bv_sum bv"
        "\<forall>i v. i < num_validators vs \<longrightarrow> bv_votes bv ! i = Some v \<longrightarrow> votes vs ! i = Some v"
      using inv by (auto simp: vset_inv_upto_def maj_inv_def)
    then show ?thesis using Some maj by (auto simp: maj_inv_def)
  qed
  ultimately show ?thesis
    using inv ws signed by (auto simp: vset_inv_upto_def)
qed

text \<open>A block tally may be replaced, or added, if it is right and the majority is.\<close>

lemma replace_tally:
  assumes inv: "vset_inv_upto ks ce vs" and bv: "bv_inv ce vs k bv"
    and none: "maj23 vs = None \<Longrightarrow> bv_sum bv < set_quorum vs"
    and maj: "\<And>b. maj23 vs = Some b \<Longrightarrow> BlockID_Key b = k \<Longrightarrow>
       set_quorum vs \<le> bv_sum bv \<and> (\<forall>i v. i < num_validators vs \<longrightarrow> bv_votes bv ! i = Some v \<longrightarrow> votes vs ! i = Some v)"
  shows "vset_inv_upto (ks - {k}) ce (vs\<lparr>votesByBlock := (votesByBlock vs)(k \<mapsto> bv)\<rparr>)"
proof -
  let ?vs = "vs\<lparr>votesByBlock := (votesByBlock vs)(k \<mapsto> bv)\<rparr>"
  have bvs: "bv_inv ce ?vs k' bv' = bv_inv ce vs k' bv'" for k' bv'
    by (simp add: bv_inv_def)
  have "maj_inv ?vs"
  proof (cases "maj23 vs")
    case None
    then show ?thesis using inv none by (auto simp: vset_inv_upto_def maj_inv_def)
  next
    case (Some b)
    then show ?thesis using inv maj by (cases "BlockID_Key b = k") (auto simp: vset_inv_upto_def maj_inv_def)
  qed
  then show ?thesis
    using inv bv by (auto simp: vset_inv_upto_def bvs)
qed

lemma add_canonical_ok:
  assumes inv: "vset_inv ce vs" and sg: "signed_by ce vs i v"
    and fresh: "\<forall>c. votes vs ! i = Some c \<longrightarrow> BlockID_Key (vote_BlockID c) \<noteq> BlockID_Key (vote_BlockID v)"
    and freshb: "\<forall>bv. votesByBlock vs (BlockID_Key (vote_BlockID v)) = Some bv \<longrightarrow> bv_votes bv ! i = None"
  shows "\<exists>vs1. add_canonical vs v (BlockID_Key (vote_BlockID v)) (val_power (valSet vs) i) = Some (vs1, votes vs ! i) \<and>
    vset_inv_upto {BlockID_Key (vote_BlockID v)} ce vs1 \<and> same_config vs1 vs \<and> maj23 vs1 = maj23 vs \<and>
    votesByBlock vs1 = votesByBlock vs \<and> peerMaj23s vs1 = peerMaj23s vs \<and> votes vs1 ! i \<noteq> None \<and>
    (votes vs ! i = None \<or> map_option BlockID_Key (maj23 vs) = Some (BlockID_Key (vote_BlockID v)) \<longrightarrow> votes vs1 ! i = Some v) \<and>
    (votes vs ! i \<noteq> None \<longrightarrow> map_option BlockID_Key (maj23 vs) \<noteq> Some (BlockID_Key (vote_BlockID v)) \<longrightarrow> vs1 = vs)"
proof -
  let ?k = "BlockID_Key (vote_BlockID v)" and ?ws = "(votes vs)[i := Some v]"
  have i: "i < num_validators vs" "vote_ValidatorIndex v = int i" using sg by (auto simp: signed_by_def)
  have len: "length (votes vs) = num_validators vs" and wf: "vs_wf (valSet vs)"
    and m: "bav.mirrors (votesBitArray vs) (votes vs)" and sum: "voteSum vs = tally (valSet vs) (votes vs)"
    using inv by (auto simp: vset_inv_upto_def)
  obtain bits where st: "store_vote vs v = Some (vs\<lparr>votes := ?ws, votesBitArray := bits\<rparr>)" "bav.mirrors bits ?ws"
    using store_vote_eq [OF m i(2)] i(1) len by auto
  let ?vs1 = "vs\<lparr>votes := ?ws, votesBitArray := bits, voteSum := tally (valSet vs) ?ws\<rparr>"
  have bvi: "bv_votes bv ! i = None" if "votes vs ! i = None" "votesByBlock vs k = Some bv" for k bv
  proof -
    have "bv_inv ce vs k bv" using inv that(2) by (auto simp: vset_inv_upto_def)
    then show ?thesis using that(1) i(1) by (cases "bv_votes bv ! i") (auto simp: bv_inv_def)
  qed
  have new: "vset_inv_upto {?k} ce ?vs1"
    if "votes vs ! i = None \<or> map_option BlockID_Key (maj23 vs) = Some ?k"
  proof (rule replace_votes [OF inv _ st(2) refl])
    show "length ?ws = num_validators vs" using len by simp
    show "signed_by ce vs j w \<and> (votesByBlock vs (BlockID_Key (vote_BlockID w)) \<noteq> None
        \<or> BlockID_Key (vote_BlockID w) \<in> {?k})" if "j < num_validators vs" "?ws ! j = Some w" for j w
      using that inv sg len by (cases "j = i") (auto simp: vset_inv_upto_def)
    show "?ws ! j \<noteq> None" if "j < num_validators vs" "votes vs ! j \<noteq> None" for j
      using that len by (cases "j = i") auto
    show "?ws ! j = Some w" if "maj23 vs = Some b" "votesByBlock vs (BlockID_Key b) = Some bv"
      "j < num_validators vs" "bv_votes bv ! j = Some w" "votes vs ! j = Some w" for b bv j w
      using that \<open>votes vs ! i = None \<or> map_option BlockID_Key (maj23 vs) = Some ?k\<close> freshb bvi len
      by (cases "j = i") auto
  qed
  have conf: "same_config ?vs1 vs" by (simp add: same_config_def)
  show ?thesis
  proof (cases "votes vs ! i")
    case None
    have "voteSum vs + val_power (valSet vs) i = tally (valSet vs) ?ws"
      using tally_update [OF wf len, of i v] i(1) len None sum by simp
    then have "wrap64 (voteSum vs + val_power (valSet vs) i) = tally (valSet vs) ?ws"
      using tally_bounds(3) [OF wf] by simp
    then have "add_canonical vs v ?k (val_power (valSet vs) i) = Some (?vs1, None)"
      using None st(1) i len by (simp add: add_canonical_def)
    then show ?thesis using None new conf i(1) len by auto
  next
    case (Some c)
    then have ne: "vote_BlockID c \<noteq> vote_BlockID v" using fresh by auto
    show ?thesis
    proof (cases "map_option BlockID_Key (maj23 vs) = Some ?k")
      case True
      have "tally (valSet vs) ?ws = voteSum vs"
        using tally_update [OF wf len, of i v] i(1) len Some sum by simp
      then have "?vs1 = vs\<lparr>votes := ?ws, votesBitArray := bits\<rparr>" by simp
      moreover have "add_canonical vs v ?k (val_power (valSet vs) i) = Some (vs\<lparr>votes := ?ws, votesBitArray := bits\<rparr>, Some c)"
        using Some st(1) i len ne True by (simp add: add_canonical_def)
      ultimately show ?thesis using Some new conf i(1) len True by auto
    next
      case False
      then have "add_canonical vs v ?k (val_power (valSet vs) i) = Some (vs, Some c)"
        using Some i len ne by (auto simp: add_canonical_def)
      moreover have "vset_inv_upto {?k} ce vs" using inv by (auto simp: vset_inv_upto_def)
      ultimately show ?thesis using Some False by (auto simp: same_config_def)
    qed
  qed
qed

text \<open>Copying the votes of a block with a quorum makes it the majority.\<close>

lemma copy_majority:
  assumes inv: "vset_inv_upto {k} ce vs" and bv: "bv_inv ce vs k bv" and q: "set_quorum vs \<le> bv_sum bv"
    and k: "k = BlockID_Key b" and len: "length cs = num_validators vs"
    and cs: "\<And>j. j < num_validators vs \<Longrightarrow> cs ! j = (if bv_votes bv ! j = None then votes vs ! j else bv_votes bv ! j)"
  shows "vset_inv ce (vs\<lparr>votesByBlock := (votesByBlock vs)(k \<mapsto> bv), maj23 := Some b, votes := cs\<rparr>)"
proof -
  let ?vs2 = "vs\<lparr>votesByBlock := (votesByBlock vs)(k \<mapsto> bv), maj23 := Some b, votes := cs\<rparr>"
  have vlen: "length (votes vs) = num_validators vs" and wf: "vs_wf (valSet vs)"
    and vmir: "bav.mirrors (votesBitArray vs) (votes vs)"
    using inv by (auto simp: vset_inv_upto_def)
  have ws: "signed_by ce vs j w \<and> BlockID_Key (vote_BlockID w) = k \<and> votes vs ! j \<noteq> None"
    if "j < num_validators vs" "bv_votes bv ! j = Some w" for j w
    using bv that by (simp add: bv_inv_def)
  have some: "cs ! j = None \<longleftrightarrow> votes vs ! j = None" if "j < num_validators vs" for j
    using cs [OF that] ws [OF that] by (cases "bv_votes bv ! j") auto
  have mirrors: "bav.mirrors (votesBitArray vs) cs"
    by (rule bav.mirrors_cong [OF vmir]) (use some len vlen in auto)
  have "voters cs = voters (votes vs)"
    unfolding voters_def using some len vlen by (intro Collect_cong conj_cong) simp_all
  then have "tally (valSet vs) cs = voteSum vs"
    using inv tally_cong [of cs "votes vs"] by (simp add: vset_inv_upto_def)
  moreover have "signed_by ce vs j w \<and> ((votesByBlock vs)(k \<mapsto> bv)) (BlockID_Key (vote_BlockID w)) \<noteq> None"
    if "j < num_validators vs" "cs ! j = Some w" for j w
    using that cs [OF that(1)] ws [OF that(1)] inv
    by (cases "bv_votes bv ! j") (auto simp: vset_inv_upto_def)
  moreover have "bv_inv ce ?vs2 k' bv'" if "((votesByBlock vs)(k \<mapsto> bv)) k' = Some bv'" for k' bv'
  proof -
    have "bv_inv ce vs k' bv'" using that bv inv by (auto simp: vset_inv_upto_def split: if_splits)
    then show ?thesis using some by (auto simp: bv_inv_def)
  qed
  moreover have "maj_inv ?vs2" using q cs k by (auto simp: maj_inv_def)
  ultimately show ?thesis using wf mirrors len by (auto simp: vset_inv_upto_def)
qed

lemma add_to_block_ok:
  assumes inv: "vset_inv_upto {k} ce vs" and sg: "signed_by ce vs i v" and k: "k = BlockID_Key (vote_BlockID v)"
    and bv: "bv_inv ce vs k bv" "bv_votes bv ! i = None" and here: "votes vs ! i \<noteq> None"
    and none: "maj23 vs = None \<Longrightarrow> bv_sum bv < set_quorum vs"
    and maj: "map_option BlockID_Key (maj23 vs) = Some k \<Longrightarrow> votes vs ! i = Some v \<and> votesByBlock vs k = Some bv"
  shows "\<exists>vs'. add_to_block vs bv v k (val_power (valSet vs) i) = Some vs' \<and> vset_inv ce vs' \<and>
    same_config vs' vs \<and> peerMaj23s vs' = peerMaj23s vs \<and> (\<forall>b. maj23 vs = Some b \<longrightarrow> maj23 vs' = Some b)"
proof -
  have wf: "vs_wf (valSet vs)" and len: "length (votes vs) = num_validators vs"
    using inv by (auto simp: vset_inv_upto_def)
  have i: "i < num_validators vs" "vote_ValidatorIndex v = int i" using sg by (auto simp: signed_by_def)
  let ?T = "total_power (Validators (valSet vs))" and ?ws = "(bv_votes bv)[i := Some v]"
  obtain bits where add: "blockVotes_addVerifiedVote bv v (val_power (valSet vs) i) =
      Some (bv\<lparr>bv_bitArray := bits, bv_votes := ?ws, bv_sum := tally (valSet vs) ?ws\<rparr>)"
    and mir: "bav.mirrors bits ?ws"
    using block_add_eq [OF wf bv(1) i(2,1) bv(2)] by blast
  let ?bv = "bv\<lparr>bv_bitArray := bits, bv_votes := ?ws, bv_sum := tally (valSet vs) ?ws\<rparr>"
  have blen: "length (bv_votes bv) = num_validators vs" using bv(1) by (simp add: bv_inv_def)
  have bv': "bv_inv ce vs k ?bv"
    using bv(1) mir sg k here i(1) by (auto simp: bv_inv_def nth_list_update)
  have tot: "TotalVotingPower (valSet vs) = Some (valSet vs, ?T)" by (rule TotalVotingPower_wf [OF wf])
  have mono: "bv_sum bv \<le> bv_sum ?bv"
    using bv(1) i(1) blen by (auto simp: bv_inv_def voters_update intro!: tally_mono [OF wf])
  let ?vs1 = "vs\<lparr>votesByBlock := (votesByBlock vs)(k \<mapsto> ?bv)\<rparr>"
  show ?thesis
  proof (cases "set_quorum vs \<le> bv_sum ?bv \<and> maj23 vs = None")
    case False
    have "vset_inv_upto ({k} - {k}) ce ?vs1"
    proof (rule replace_tally [OF inv bv'])
      show "bv_sum ?bv < set_quorum vs" if "maj23 vs = None" using that False by auto
      show "set_quorum vs \<le> bv_sum ?bv \<and>
          (\<forall>j w. j < num_validators vs \<longrightarrow> bv_votes ?bv ! j = Some w \<longrightarrow> votes vs ! j = Some w)"
        if "maj23 vs = Some b" "BlockID_Key b = k" for b
      proof -
        have h: "votes vs ! i = Some v" "votesByBlock vs k = Some bv" using maj that by auto
        then have "set_quorum vs \<le> bv_sum bv \<and>
          (\<forall>j w. j < num_validators vs \<longrightarrow> bv_votes bv ! j = Some w \<longrightarrow> votes vs ! j = Some w)"
          using inv that by (auto simp: vset_inv_upto_def maj_inv_def)
        then show ?thesis using mono h(1) blen i(1) by (auto simp: nth_list_update split: if_splits)
      qed
    qed
    moreover have "add_to_block vs bv v k (val_power (valSet vs) i) = Some ?vs1"
      using tot add False by (auto simp: add_to_block_def Let_def)
    ultimately show ?thesis by (auto simp: same_config_def)
  next
    case True
    then have lt: "bv_sum bv < set_quorum vs" using none by simp
    let ?cs = "map2 (\<lambda>s d. if s = None then d else s) ?ws (votes vs)"
    let ?vs2 = "?vs1\<lparr>maj23 := Some (vote_BlockID v), votes := ?cs\<rparr>"
    have "add_to_block vs bv v k (val_power (valSet vs) i) = Some ?vs2"
      using tot add True lt copy_votes_eq [of ?ws "votes vs"] blen len by (simp add: add_to_block_def Let_def)
    moreover have "vset_inv ce ?vs2"
      using True blen len by (intro copy_majority [OF inv bv' _ k]) auto
    ultimately show ?thesis using True by (auto simp: same_config_def)
  qed
qed

lemma bv_inv_config:
  assumes "same_config a b" and "\<And>i. i < num_validators b \<Longrightarrow> votes b ! i \<noteq> None \<Longrightarrow> votes a ! i \<noteq> None"
  shows "bv_inv ce b k bv \<Longrightarrow> bv_inv ce a k bv"
  using assms by (auto simp: bv_inv_def signed_by_config [OF assms(1)] same_config_def)

lemma set_quorum_pos: "vs_wf (valSet vs) \<Longrightarrow> 0 < set_quorum vs"
  using quorum_of_eq [of "total_power (Validators (valSet vs))"] vs_wf_total_pos [of "valSet vs"]
    power_le_max [of "valSet vs"]
  by (simp add: vs_power_def pos_imp_zdiv_nonneg_iff add_nonneg_pos)

lemma newBlockVotes_inv:
  "vs_wf (valSet vs) \<Longrightarrow> bv_inv ce vs k (newBlockVotes p (Size (valSet vs)))"
  using bav.mirrors_new [of "num_validators vs"]
  by (simp add: bv_inv_def newBlockVotes_def Size_def)

text \<open>Adding a verified vote of a validator that has no vote for the block yet.\<close>

lemma addVerifiedVote_ok:
  assumes inv: "vset_inv ce vs" and sg: "signed_by ce vs i v"
    and fresh: "\<forall>c. votes vs ! i = Some c \<longrightarrow> BlockID_Key (vote_BlockID c) \<noteq> BlockID_Key (vote_BlockID v)"
    and freshb: "\<forall>bv. votesByBlock vs (BlockID_Key (vote_BlockID v)) = Some bv \<longrightarrow> bv_votes bv ! i = None"
  shows "\<exists>vs' added. addVerifiedVote vs v (BlockID_Key (vote_BlockID v)) (val_power (valSet vs) i) =
      Some (vs', added, votes vs ! i) \<and> vset_inv ce vs' \<and> same_config vs' vs \<and>
    peerMaj23s vs' = peerMaj23s vs \<and> (\<forall>b. maj23 vs = Some b \<longrightarrow> maj23 vs' = Some b) \<and>
    (votes vs ! i = None \<longrightarrow> added)"
proof -
  let ?k = "BlockID_Key (vote_BlockID v)"
  obtain vs1 where can: "add_canonical vs v ?k (val_power (valSet vs) i) = Some (vs1, votes vs ! i)"
    and inv1: "vset_inv_upto {?k} ce vs1" and conf: "same_config vs1 vs" and same: "maj23 vs1 = maj23 vs"
      "votesByBlock vs1 = votesByBlock vs" "peerMaj23s vs1 = peerMaj23s vs" and here: "votes vs1 ! i \<noteq> None"
    and stored: "votes vs ! i = None \<or> map_option BlockID_Key (maj23 vs) = Some ?k \<longrightarrow> votes vs1 ! i = Some v"
    and unchanged: "votes vs ! i \<noteq> None \<longrightarrow> map_option BlockID_Key (maj23 vs) \<noteq> Some ?k \<longrightarrow> vs1 = vs"
    using add_canonical_ok [OF inv sg fresh freshb] by (elim exE conjE) (rule that)
  have wf: "vs_wf (valSet vs1)" and val: "valSet vs1 = valSet vs"
    using inv1 conf by (auto simp: vset_inv_upto_def same_config_def)
  have sg1: "signed_by ce vs1 i v" using sg signed_by_config [OF conf] by simp
  have tracked: "vset_inv ce vs1" if "votesByBlock vs ?k = Some bv" for bv
    by (rule tracked_inv [OF inv1]) (use that same(2) in simp)
  have majb: "\<exists>bv. votesByBlock vs1 ?k = Some bv" if "map_option BlockID_Key (maj23 vs1) = Some ?k"
    using inv1 that by (auto simp: vset_inv_upto_def maj_inv_def)
  have block: "\<exists>vs'. add_to_block vs1 bv v ?k (val_power (valSet vs) i) = Some vs' \<and> vset_inv ce vs' \<and>
      same_config vs' vs \<and> peerMaj23s vs' = peerMaj23s vs \<and> (\<forall>b. maj23 vs = Some b \<longrightarrow> maj23 vs' = Some b)"
    if "bv_inv ce vs1 ?k bv" "bv_votes bv ! i = None" "maj23 vs1 = None \<longrightarrow> bv_sum bv < set_quorum vs1"
      "map_option BlockID_Key (maj23 vs1) = Some ?k \<longrightarrow> votesByBlock vs1 ?k = Some bv" for bv
    using add_to_block_ok [OF inv1 sg1 refl that(1,2) here] that(3,4) stored same conf val
    by (auto simp: same_config_def)
  show ?thesis
  proof (cases "votesByBlock vs ?k")
    case None
    show ?thesis
    proof (cases "votes vs ! i")
      case (Some c)
      then have "vs1 = vs" using unchanged majb None same by auto
      then show ?thesis using can None Some inv conf by (auto simp: addVerifiedVote_def)
    next
      case None': None
      let ?bv = "newBlockVotes False (Size (valSet vs1))"
      have "bv_sum ?bv < set_quorum vs1" using set_quorum_pos [OF wf] by (simp add: newBlockVotes_def)
      moreover have "bv_votes ?bv ! i = None"
        using sg1 by (simp add: newBlockVotes_def Size_def signed_by_def)
      moreover have "map_option BlockID_Key (maj23 vs1) \<noteq> Some ?k" using majb None same(2) by auto
      ultimately obtain vs' where "add_to_block vs1 ?bv v ?k (val_power (valSet vs) i) = Some vs'" "vset_inv ce vs'"
        "same_config vs' vs" "peerMaj23s vs' = peerMaj23s vs" "\<forall>b. maj23 vs = Some b \<longrightarrow> maj23 vs' = Some b"
        using block [OF newBlockVotes_inv [OF wf], of False] by blast
      then show ?thesis using can None None' same(2) by (auto simp: addVerifiedVote_def)
    qed
  next
    case (Some bv)
    have bv1: "bv_inv ce vs1 ?k bv"
      by (rule vset_invD(6) [OF inv1]) (simp add: Some same(2))
    show ?thesis
    proof (cases "votes vs ! i \<noteq> None \<and> \<not> bv_peerMaj23 bv")
      case True
      then have "addVerifiedVote vs v ?k (val_power (valSet vs) i) = Some (vs1, False, votes vs ! i)"
        using can Some same(2) by (simp add: addVerifiedVote_def)
      then show ?thesis
        using same conf tracked [OF Some] True by (intro exI [of _ vs1] exI [of _ False]) simp
    next
      case False
      have "maj23 vs1 = None \<longrightarrow> bv_sum bv < set_quorum vs1"
        using vset_invD(7) [OF inv1] Some same(2) by (auto simp: maj_inv_def)
      then obtain vs' where "add_to_block vs1 bv v ?k (val_power (valSet vs) i) = Some vs'" "vset_inv ce vs'"
        "same_config vs' vs" "peerMaj23s vs' = peerMaj23s vs" "\<forall>b. maj23 vs = Some b \<longrightarrow> maj23 vs' = Some b"
        using block [OF bv1] freshb Some same(2) by metis
      moreover from this(1) have "addVerifiedVote vs v ?k (val_power (valSet vs) i) = Some (vs', True, votes vs ! i)"
        using can Some same(2) False by (simp add: addVerifiedVote_def)
      ultimately show ?thesis by blast
    qed
  qed
qed

text \<open>A vote whose sign bytes can be computed.\<close>

definition signable :: "ext_env \<Rightarrow> Vote \<Rightarrow> bool" where
  "signable ce v \<longleftrightarrow> BlockID_ValidateBasic (vote_BlockID v) \<and> stdTimeMarshal ce (vote_Timestamp v) \<noteq> None"

lemma signable_bytes: "signable ce v \<Longrightarrow> \<exists>bz. VoteSignBytes ce c v = Some bz"
  by (auto simp: signable_def VoteSignBytes_def CanonicalizeVote_def CanonicalizeBlockID_def CanonicalVote_Marshal_def)

lemma check_signature_Some:
  assumes "check_signature ce vs val v = Some err"
  shows "\<exists>pk. val_PubKey val = Some pk \<and> (err = None \<longrightarrow> Vote_Verify ce (chainID vs) pk v = Some None)"
    and "\<forall>a b. err \<noteq> Some (ErrVoteConflictingVotes a b)"
proof -
  obtain pk r where pk: "val_PubKey val = Some pk" and r: "Vote_Verify ce (chainID vs) pk v = Some r"
    using assms by (auto simp: check_signature_def VerifyVoteAndExtension_def split: bind_splits if_splits)
  then have "\<forall>a b. r \<noteq> Some (ErrVoteConflictingVotes a b)"
    by (auto simp: Vote_Verify_def split: bind_splits if_splits)
  with assms pk r show "\<exists>pk. val_PubKey val = Some pk \<and> (err = None \<longrightarrow> Vote_Verify ce (chainID vs) pk v = Some None)"
    and "\<forall>a b. err \<noteq> Some (ErrVoteConflictingVotes a b)"
    by (cases r; auto simp: check_signature_def VerifyVoteAndExtension_def split: if_splits)+
qed

lemma check_signature_defined:
  assumes "signable ce v" and "val_PubKey val = Some pk"
  shows "\<exists>err. check_signature ce vs val v = Some err"
proof -
  obtain bz where "VoteSignBytes ce (chainID vs) v = Some bz" using signable_bytes [OF assms(1)] by blast
  then have "\<exists>r. Vote_Verify ce (chainID vs) pk v = Some r"
    by (cases "pkAddress ce pk = vote_ValidatorAddress v"; cases "pkVerify ce pk bz (vote_Signature v)")
       (auto simp: Vote_Verify_def)
  then obtain r where "Vote_Verify ce (chainID vs) pk v = Some r" ..
  then show ?thesis
    using assms(2) by (cases r) (auto simp: check_signature_def VerifyVoteAndExtension_def)
qed

text \<open>The lookups before the signature check find the validator, and no vote for the block.\<close>

lemma getVote_None:
  assumes inv: "vset_inv ce vs" and i: "i < num_validators vs"
  shows "\<exists>known. getVote vs (int i) k = Some known \<and>
    (known = None \<longrightarrow> (\<forall>c. votes vs ! i = Some c \<longrightarrow> BlockID_Key (vote_BlockID c) \<noteq> k) \<and>
       (\<forall>bv. votesByBlock vs k = Some bv \<longrightarrow> bv_votes bv ! i = None)) \<and>
    (\<forall>e. known = Some e \<longrightarrow> signed_by ce vs i e \<and> BlockID_Key (vote_BlockID e) = k)"
proof -
  have len: "length (votes vs) = num_validators vs"
    and sg: "\<And>c. votes vs ! i = Some c \<Longrightarrow> signed_by ce vs i c"
    and bvs: "\<And>bv. votesByBlock vs k = Some bv \<Longrightarrow> bv_inv ce vs k bv"
    using inv i by (auto simp: vset_inv_upto_def)
  show ?thesis
  proof (cases "votesByBlock vs k")
    case None
    then show ?thesis using len i sg
      by (cases "votes vs ! i") (auto simp: getVote_def getByIndex_def)
  next
    case (Some bv)
    have "length (bv_votes bv) = num_validators vs"
      and bsg: "\<And>v. bv_votes bv ! i = Some v \<Longrightarrow> signed_by ce vs i v \<and> BlockID_Key (vote_BlockID v) = k"
      using bvs [OF Some] i by (auto simp: bv_inv_def)
    then show ?thesis using Some len i sg
      by (cases "votes vs ! i") (auto simp: getVote_def getByIndex_def)
  qed
qed

text \<open>The conditions \<open>addVote\<close> checks before it looks at the votes it has.\<close>

definition vote_fits :: "VoteSet \<Rightarrow> Vote \<Rightarrow> bool" where
  "vote_fits vs v \<longleftrightarrow> 0 \<le> vote_ValidatorIndex v \<and> vote_ValidatorAddress v \<noteq> [] \<and>
    vote_Height v = height vs \<and> vote_Round v = round vs \<and> vote_Type v = signedMsgType vs \<and>
    vote_ValidatorIndex v < int (num_validators vs) \<and>
    vote_ValidatorAddress v = Address (Validators (valSet vs) ! nat (vote_ValidatorIndex v))"

lemma addVote_misfit:
  assumes "\<not> vote_fits vs v"
  shows "\<exists>e. addVote ce vs (Some v) = Some (vs, False, Some e) \<and> (\<forall>a b. e \<noteq> ErrVoteConflictingVotes a b)"
  using assms by (auto simp: addVote_def vote_fits_def GetByIndex_def Let_def)

lemma addVote_run:
  assumes "vote_fits vs v" and "vote_ValidatorIndex v = int i"
    and "getVote vs (int i) (BlockID_Key (vote_BlockID v)) = Some known"
    and "check_signature ce vs (Validators (valSet vs) ! i) v = Some err"
  shows "addVote ce vs (Some v) =
    (case known of
       Some e \<Rightarrow> if vote_Signature e = vote_Signature v then Some (vs, False, None)
                 else Some (vs, False, Some ErrVoteNonDeterministicSignature)
     | None \<Rightarrow> (case err of
         Some e \<Rightarrow> Some (vs, False, Some e)
       | None \<Rightarrow> addVerifiedVote vs v (BlockID_Key (vote_BlockID v)) (val_power (valSet vs) i) \<bind>
           (\<lambda>(vs', added, c). case c of
              Some c \<Rightarrow> Some (vs', added, Some (ErrVoteConflictingVotes c v))
            | None \<Rightarrow> if \<not> added then None else Some (vs', added, None))))"
proof -
  have i: "i < num_validators vs" "Address (Validators (valSet vs) ! i) \<noteq> []"
    "vote_ValidatorAddress v = Address (Validators (valSet vs) ! i)"
    using assms(1,2) by (auto simp: vote_fits_def)
  then show ?thesis
    using assms by (cases known; cases err)
      (simp_all add: addVote_def vote_fits_def GetByIndex_nat Let_def val_power_def)
qed

text \<open>What each outcome of \<open>addVote\<close> means.\<close>

definition add_outcome :: "ext_env \<Rightarrow> VoteSet \<Rightarrow> Vote \<Rightarrow> VoteSet \<Rightarrow> bool \<Rightarrow> vote_error option \<Rightarrow> bool" where
  "add_outcome ce vs v vs' added err \<longleftrightarrow>
    (case err of
       None \<Rightarrow> if added then \<exists>i. signed_by ce vs i v
         else vs' = vs \<and> (\<exists>i e. signed_by ce vs i e \<and> vote_ValidatorIndex v = int i \<and>
           vote_Signature e = vote_Signature v \<and> BlockID_Key (vote_BlockID e) = BlockID_Key (vote_BlockID v))
     | Some (ErrVoteConflictingVotes a b) \<Rightarrow> b = v \<and>
         (\<exists>i. signed_by ce vs i a \<and> signed_by ce vs i b \<and> vote_BlockID a \<noteq> vote_BlockID b)
     | Some e \<Rightarrow> vs' = vs \<and> \<not> added)"

lemma add_outcome_error:
  "\<forall>a b. e \<noteq> ErrVoteConflictingVotes a b \<Longrightarrow> add_outcome ce vs v vs False (Some e)"
  by (cases e) (auto simp: add_outcome_def)

text \<open>The effect of \<open>addVote\<close> when it returns, and when it cannot panic.\<close>

definition add_effect :: "ext_env \<Rightarrow> VoteSet \<Rightarrow> Vote \<Rightarrow> VoteSet \<Rightarrow> bool \<Rightarrow> vote_error option \<Rightarrow> bool" where
  "add_effect ce vs v vs' added err \<longleftrightarrow> vset_inv ce vs' \<and> same_config vs' vs \<and>
     peerMaj23s vs' = peerMaj23s vs \<and> (\<forall>b. maj23 vs = Some b \<longrightarrow> maj23 vs' = Some b) \<and>
     add_outcome ce vs v vs' added err"

lemma addVote_checked:
  assumes inv: "vset_inv ce vs" and fits: "vote_fits vs v" and i: "vote_ValidatorIndex v = int i"
    and chk: "check_signature ce vs (Validators (valSet vs) ! i) v = Some err"
  shows "\<exists>vs' added err. addVote ce vs (Some v) = Some (vs', added, err) \<and> add_effect ce vs v vs' added err"
proof -
  let ?k = "BlockID_Key (vote_BlockID v)"
  have iN: "i < num_validators vs" using fits i by (simp add: vote_fits_def)
  obtain known where known: "getVote vs (int i) ?k = Some known"
    "known = None \<longrightarrow> (\<forall>c. votes vs ! i = Some c \<longrightarrow> BlockID_Key (vote_BlockID c) \<noteq> ?k) \<and>
       (\<forall>bv. votesByBlock vs ?k = Some bv \<longrightarrow> bv_votes bv ! i = None)"
    "\<forall>e. known = Some e \<longrightarrow> signed_by ce vs i e \<and> BlockID_Key (vote_BlockID e) = ?k"
    using getVote_None [OF inv iN, of ?k] by blast
  note run = addVote_run [OF fits i known(1) chk] and chk' = check_signature_Some [OF chk]
  show ?thesis
  proof (cases "known \<noteq> None \<or> err \<noteq> None")
    case True
    let ?err = "case known of None \<Rightarrow> err | Some e \<Rightarrow>
        if vote_Signature e = vote_Signature v then None else Some ErrVoteNonDeterministicSignature"
    have "addVote ce vs (Some v) = Some (vs, False, ?err)" using run True by (auto split: option.splits)
    moreover have "add_outcome ce vs v vs False ?err"
      using True known(3) chk'(2) i add_outcome_error by (auto simp: add_outcome_def split: option.splits)
    ultimately show ?thesis using inv by (auto simp: add_effect_def same_config_def)
  next
    case False
    then have none: "known = None" "err = None" by auto
    have sg: "signed_by ce vs i v" using fits i iN chk'(1) none by (auto simp: signed_by_def vote_fits_def)
    obtain vs' added where add: "addVerifiedVote vs v ?k (val_power (valSet vs) i) = Some (vs', added, votes vs ! i)"
        "vset_inv ce vs'" "same_config vs' vs" "peerMaj23s vs' = peerMaj23s vs"
        "\<forall>b. maj23 vs = Some b \<longrightarrow> maj23 vs' = Some b" "votes vs ! i = None \<longrightarrow> added"
      using addVerifiedVote_ok [OF inv sg known(2) [rule_format, OF none(1), THEN conjunct1]
        known(2) [rule_format, OF none(1), THEN conjunct2]] by (elim exE conjE) (rule that)
    show ?thesis
    proof (cases "votes vs ! i")
      case None
      then have "addVote ce vs (Some v) = Some (vs', True, None)" using run none add by simp
      moreover have "add_outcome ce vs v vs' True None" using sg by (auto simp: add_outcome_def)
      ultimately show ?thesis using add by (auto simp: add_effect_def)
    next
      case (Some c)
      then have "addVote ce vs (Some v) = Some (vs', added, Some (ErrVoteConflictingVotes c v))"
        using run none add by simp
      moreover have "add_outcome ce vs v vs' added (Some (ErrVoteConflictingVotes c v))"
        using sg vset_invD(5) [OF inv iN Some] known(2) none(1) Some by (auto simp: add_outcome_def)
      ultimately show ?thesis using add by (auto simp: add_effect_def)
    qed
  qed
qed

lemma addVote_misfit_effect:
  assumes "vset_inv ce vs" and "\<not> vote_fits vs v"
  shows "\<exists>vs' added err. addVote ce vs (Some v) = Some (vs', added, err) \<and> add_effect ce vs v vs' added err"
proof -
  obtain e where "addVote ce vs (Some v) = Some (vs, False, Some e)" "\<forall>a b. e \<noteq> ErrVoteConflictingVotes a b"
    using addVote_misfit [OF assms(2), of ce] by blast
  then show ?thesis
    using add_outcome_error [of e ce vs v] assms(1) by (auto simp: add_effect_def same_config_def)
qed

lemma addVote_defined:
  assumes "vset_inv ce vs" and "keyed (Validators (valSet vs))" and "signable ce v"
  shows "\<exists>vs' added err. addVote ce vs (Some v) = Some (vs', added, err) \<and> add_effect ce vs v vs' added err"
proof (cases "vote_fits vs v")
  case True
  then obtain i where i: "vote_ValidatorIndex v = int i" "i < num_validators vs"
    by (auto simp: vote_fits_def intro: that [of "nat (vote_ValidatorIndex v)"])
  obtain pk where "val_PubKey (Validators (valSet vs) ! i) = Some pk"
    using assms(2) nth_mem [OF i(2)] by (auto simp: keyed_def)
  then show ?thesis
    using check_signature_defined [OF assms(3)] addVote_checked [OF assms(1) True i(1)] by blast
qed (rule addVote_misfit_effect [OF assms(1)])

lemma addVote_effect:
  assumes inv: "vset_inv ce vs" and run: "addVote ce vs (Some v) = Some (vs', added, err)"
  shows "add_effect ce vs v vs' added err"
proof (cases "vote_fits vs v")
  case True
  then obtain i where i: "vote_ValidatorIndex v = int i" "i < num_validators vs"
    by (auto simp: vote_fits_def intro: that [of "nat (vote_ValidatorIndex v)"])
  show ?thesis
  proof (cases "check_signature ce vs (Validators (valSet vs) ! i) v")
    case (Some e)
    with addVote_checked [OF inv True i(1) this] run show ?thesis by auto
  next
    case None
    let ?k = "BlockID_Key (vote_BlockID v)"
    obtain known where known: "getVote vs (int i) ?k = Some known"
      "\<forall>e. known = Some e \<longrightarrow> signed_by ce vs i e \<and> BlockID_Key (vote_BlockID e) = ?k"
      using getVote_None [OF inv i(2), of ?k] by blast
    have "Address (Validators (valSet vs) ! i) \<noteq> []" using True i by (auto simp: vote_fits_def)
    then have "addVote ce vs (Some v) = (case known of
        Some e \<Rightarrow> if vote_Signature e = vote_Signature v then Some (vs, False, None)
                  else Some (vs, False, Some ErrVoteNonDeterministicSignature)
      | None \<Rightarrow> None)"
      using True i known(1) None
      by (cases known) (simp_all add: addVote_def vote_fits_def GetByIndex_nat Let_def)
    then show ?thesis using run known(2) i(1) inv
      by (auto simp: add_effect_def add_outcome_def same_config_def split: option.splits if_splits)
  qed
next
  case False
  with addVote_misfit_effect [OF inv False] run show ?thesis by auto
qed

section \<open>Histories of a vote set\<close>

lemma NewVoteSet_inv: "NewVoteSet c h r t vals = Some vs \<Longrightarrow> vs_wf vals \<Longrightarrow> vset_inv ce vs"
  using bav.mirrors_new [of "length (Validators vals)"]
  by (auto simp: NewVoteSet_def vset_inv_upto_def maj_inv_def Size_def split: if_splits)

lemma NewExtendedVoteSet_inv: "NewExtendedVoteSet c h r t vals = Some vs \<Longrightarrow> vs_wf vals \<Longrightarrow> vset_inv ce vs"
  using bav.mirrors_new [of "length (Validators vals)"]
  by (auto simp: NewExtendedVoteSet_def NewVoteSet_def vset_inv_upto_def maj_inv_def Size_def split: if_splits bind_splits)

lemma SetPeerMaj23_inv:
  assumes inv: "vset_inv ce vs"
  shows "vset_inv ce (fst (SetPeerMaj23 vs peer b))" and "same_config (fst (SetPeerMaj23 vs peer b)) vs"
    and "maj23 (fst (SetPeerMaj23 vs peer b)) = maj23 vs" and "votes (fst (SetPeerMaj23 vs peer b)) = votes vs"
proof -
  let ?k = "BlockID_Key b" and ?vs1 = "vs\<lparr>peerMaj23s := (peerMaj23s vs)(peer \<mapsto> b)\<rparr>"
  have inv1: "vset_inv ce ?vs1" using inv by simp
  have new: "vset_inv ce (?vs1\<lparr>votesByBlock := (votesByBlock vs)(?k \<mapsto> bv)\<rparr>)"
    if "bv_inv ce ?vs1 ?k bv" "maj23 vs = None \<longrightarrow> bv_sum bv < set_quorum vs"
      "\<forall>m. maj23 vs = Some m \<longrightarrow> BlockID_Key m = ?k \<longrightarrow> (\<exists>bv'. votesByBlock vs ?k = Some bv' \<and>
         bv_sum bv = bv_sum bv' \<and> bv_votes bv = bv_votes bv')" for bv
  proof -
    have "vset_inv_upto ({} - {?k}) ce (?vs1\<lparr>votesByBlock := (votesByBlock ?vs1)(?k \<mapsto> bv)\<rparr>)"
    proof (rule replace_tally [OF inv1 that(1)])
      show "bv_sum bv < set_quorum ?vs1" if "maj23 ?vs1 = None" using that \<open>maj23 vs = None \<longrightarrow> _\<close> by simp
      show "set_quorum ?vs1 \<le> bv_sum bv \<and> (\<forall>i v. i < num_validators ?vs1 \<longrightarrow> bv_votes bv ! i = Some v \<longrightarrow>
          votes ?vs1 ! i = Some v)" if "maj23 ?vs1 = Some m" "BlockID_Key m = ?k" for m
        using that \<open>\<forall>m. maj23 vs = Some m \<longrightarrow> _\<close> vset_invD(7) [OF inv] by (auto simp: maj_inv_def)
    qed
    then show ?thesis by simp
  qed
  have wf: "vs_wf (valSet ?vs1)" using vset_invD(1) [OF inv1] .
  show "vset_inv ce (fst (SetPeerMaj23 vs peer b))"
  proof (cases "peerMaj23s vs peer")
    case (Some e)
    then show ?thesis using inv by (simp add: SetPeerMaj23_def Let_def)
  next
    case None
    show ?thesis
    proof (cases "votesByBlock vs ?k")
      case n: None
      have "set_quorum vs > 0" using set_quorum_pos wf by simp
      moreover have "\<forall>m. maj23 vs = Some m \<longrightarrow> BlockID_Key m \<noteq> ?k"
        using vset_invD(7) [OF inv] n by (auto simp: maj_inv_def)
      ultimately show ?thesis
        using None n new [OF newBlockVotes_inv [OF wf, of ce ?k True]]
        by (simp add: SetPeerMaj23_def Let_def newBlockVotes_def)
    next
      case (Some bv)
      have "bv_inv ce ?vs1 ?k (bv\<lparr>bv_peerMaj23 := True\<rparr>)"
        using vset_invD(6) [OF inv Some] by (simp add: bv_inv_def)
      moreover have "maj23 vs = None \<longrightarrow> bv_sum bv < set_quorum vs"
        using vset_invD(7) [OF inv] Some by (auto simp: maj_inv_def)
      ultimately show ?thesis
        using None Some inv1 new [of "bv\<lparr>bv_peerMaj23 := True\<rparr>"] by (simp add: SetPeerMaj23_def Let_def)
    qed
  qed
  show "same_config (fst (SetPeerMaj23 vs peer b)) vs"
    and "maj23 (fst (SetPeerMaj23 vs peer b)) = maj23 vs" and "votes (fst (SetPeerMaj23 vs peer b)) = votes vs"
    by (auto simp: SetPeerMaj23_def Let_def same_config_def split: option.splits)
qed

text \<open>The vote sets that can arise: created for a well-formed validator set, then changed by any
  sequence of votes and claims of peers.\<close>

inductive vset_reach :: "ext_env \<Rightarrow> VoteSet \<Rightarrow> bool" for ce where
  new: "NewVoteSet c h r t vals = Some vs \<Longrightarrow> vs_wf vals \<Longrightarrow> vset_reach ce vs"
| new_extended: "NewExtendedVoteSet c h r t vals = Some vs \<Longrightarrow> vs_wf vals \<Longrightarrow> vset_reach ce vs"
| add: "vset_reach ce vs \<Longrightarrow> addVote ce vs p = Some (vs', added, err) \<Longrightarrow> vset_reach ce vs'"
| peer: "vset_reach ce vs \<Longrightarrow> SetPeerMaj23 vs peer b = (vs', accepted) \<Longrightarrow> vset_reach ce vs'"

lemma vset_reach_inv: "vset_reach ce vs \<Longrightarrow> vset_inv ce vs"
proof (induction rule: vset_reach.induct)
  case (new c h r t vals vs)
  then show ?case by (rule NewVoteSet_inv)
next
  case (new_extended c h r t vals vs)
  then show ?case by (rule NewExtendedVoteSet_inv)
next
  case (add vs p vs' added err)
  then show ?case
    using addVote_effect by (cases p) (auto simp: addVote_def add_effect_def)
next
  case (peer vs peer b vs' accepted)
  then show ?case using SetPeerMaj23_inv(1) by (metis fst_conv)
qed

lemma mirrors_GetIndex:
  "bav.mirrors b xs \<Longrightarrow> i < length xs \<Longrightarrow> GetIndex b (int i) = Some (xs ! i \<noteq> None)"
  by (cases b) (auto simp: bav.mirrors_def bap_wf_def bap_nth_def BitArray_Size_def GetIndex_def getIndex_eq)

text \<open>The validators with a canonical vote for a block.\<close>

definition supporters :: "VoteSet \<Rightarrow> bytes \<Rightarrow> nat set" where
  "supporters vs k = {i. i < num_validators vs \<and> (\<exists>v. votes vs ! i = Some v \<and> BlockID_Key (vote_BlockID v) = k)}"

lemma maj23_quorum:
  assumes inv: "vset_inv ce vs" and maj: "maj23 vs = Some b"
  shows "vq.is_quorum (valSet vs) (supporters vs (BlockID_Key b))"
proof -
  obtain bv where bv: "votesByBlock vs (BlockID_Key b) = Some bv" "set_quorum vs \<le> bv_sum bv"
    "\<forall>i v. i < num_validators vs \<longrightarrow> bv_votes bv ! i = Some v \<longrightarrow> votes vs ! i = Some v"
    using vset_invD(7) [OF inv] maj by (auto simp: maj_inv_def)
  have wf: "vs_wf (valSet vs)" and b: "bv_inv ce vs (BlockID_Key b) bv"
    using vset_invD(1,6) [OF inv] bv(1) by auto
  have "2 * total_power (Validators (valSet vs)) < 3 * tally (valSet vs) (bv_votes bv)"
    using bv(2) b quorum_of_le_iff [of "total_power (Validators (valSet vs))"] vs_wf_total_pos [OF wf] power_le_max [OF wf]
    by (simp add: bv_inv_def vs_power_def)
  then have "vq.is_quorum (valSet vs) (voters (bv_votes bv))"
    by (simp add: vq.is_quorum_def tally_def weight_of_all [OF wf])
  moreover have "voters (bv_votes bv) \<subseteq> supporters vs (BlockID_Key b)"
    using b bv(3) by (auto simp: voters_def supporters_def bv_inv_def)
  ultimately show ?thesis by (blast intro: vq.quorum_mono [OF wf])
qed

section \<open>Properties\<close>

definition demo_other_block :: BlockID where
  "demo_other_block = \<lparr>bid_Hash = replicate 32 9, bid_PartSetHeader = \<lparr>psh_Total = 1, psh_Hash = replicate 32 2\<rparr>\<rparr>"

definition demo_signed_vote :: "BlockID \<Rightarrow> 8 word \<Rightarrow> int \<Rightarrow> Vote" where
  "demo_signed_vote b a i =
     (let v = (demo_vote PrecommitType 0)\<lparr>vote_BlockID := b, vote_ValidatorAddress := [a], vote_ValidatorIndex := i\<rparr>
      in v\<lparr>vote_Signature := a # the (VoteSignBytes demo_env [7] v)\<rparr>)"

definition demo_vset0 :: VoteSet where
  "demo_vset0 = the (NewVoteSet [7] 1 0 PrecommitType demo_vals)"

definition demo_vset :: "BlockID \<Rightarrow> VoteSet" where
  "demo_vset b = fst (the (addVote demo_env (fst (the (addVote demo_env demo_vset0
     (Some (demo_signed_vote b 2 0))))) (Some (demo_signed_vote b 1 1))))"

lemma demo_maj: "maj23 (demo_vset demo_block) = Some demo_block"
  and demo_other_maj: "maj23 (demo_vset demo_other_block) = Some demo_other_block"
  by code_simp+

lemma demo_add:
  assumes "addVote demo_env vs p \<noteq> None" and "vset_reach demo_env vs"
  shows "vset_reach demo_env (fst (the (addVote demo_env vs p)))"
  using assms by (cases "addVote demo_env vs p") (auto intro: vset_reach.add)

lemma demo_reach0: "vset_reach demo_env demo_vset0"
proof -
  have "NewVoteSet [7] 1 0 PrecommitType demo_vals = Some demo_vset0"
    by (simp add: demo_vset0_def NewVoteSet_def)
  then show ?thesis using demo_rot_inv by (auto simp: rot_inv_def intro: vset_reach.new)
qed

lemma demo_reach:
  "vset_reach demo_env (demo_vset demo_block)" "vset_reach demo_env (demo_vset demo_other_block)"
  unfolding demo_vset_def by (intro demo_add demo_reach0; code_simp)+

text \<open>C3. In every vote set that can arise, the bit array mirrors the votes, the sum is the power of
  the validators that voted, and every stored vote, canonical or in a block tally, carries a valid
  signature of the validator it is filed under for the height, round and type of the set.\<close>

theorem VoteSet_invariant:
  assumes "vset_reach ce vs"
  shows "length (votes vs) = num_validators vs \<and>
     voteSum vs = (\<Sum>i | i < num_validators vs \<and> votes vs ! i \<noteq> None. VotingPower (Validators (valSet vs) ! i)) \<and>
     (\<forall>i < num_validators vs. GetIndex (votesBitArray vs) (int i) = Some (votes vs ! i \<noteq> None) \<and>
        (\<forall>v. votes vs ! i = Some v \<longrightarrow> signed_by ce vs i v) \<and>
        (\<forall>b bv v. votesByBlock vs (BlockID_Key b) = Some bv \<longrightarrow> bv_votes bv ! i = Some v \<longrightarrow>
           signed_by ce vs i v \<and> BlockID_Key (vote_BlockID v) = BlockID_Key b))"
proof -
  note inv = vset_invD [OF vset_reach_inv [OF assms]]
  have "voters (votes vs) \<inter> val_indices (valSet vs) = {i. i < num_validators vs \<and> votes vs ! i \<noteq> None}"
    using inv(2) by (auto simp: voters_def val_indices_def)
  then have "voteSum vs = (\<Sum>i | i < num_validators vs \<and> votes vs ! i \<noteq> None. VotingPower (Validators (valSet vs) ! i))"
    using inv(4) by (simp add: tally_def vq.weight_of_def val_power_def)
  moreover have "signed_by ce vs i v \<and> BlockID_Key (vote_BlockID v) = k"
    if "i < num_validators vs" "votesByBlock vs k = Some bv" "bv_votes bv ! i = Some v" for i k bv v
    using inv(6) [OF that(2)] that by (auto simp: bv_inv_def)
  ultimately show ?thesis using inv(2,5) mirrors_GetIndex [OF inv(3)] by simp
qed

theorem VoteSet_invariant_witness:
  "voteSum (demo_vset demo_block) = (\<Sum>i | i < num_validators (demo_vset demo_block) \<and>
     votes (demo_vset demo_block) ! i \<noteq> None. VotingPower (Validators (valSet (demo_vset demo_block)) ! i))"
  using VoteSet_invariant [OF demo_reach(1)] by blast



text \<open>C5. A reported two-thirds majority is one: the validators whose stored vote is for that block
  hold more than two thirds of the total voting power.\<close>

theorem TwoThirdsMajority_sound:
  assumes "vset_reach ce vs" and "TwoThirdsMajority (Some vs) = (b, True)"
  shows "2 * total_power (Validators (valSet vs))
    < 3 * (\<Sum>i \<in> supporters vs (BlockID_Key b). VotingPower (Validators (valSet vs) ! i))"
proof -
  have maj: "maj23 vs = Some b" using assms(2) by (auto simp: TwoThirdsMajority_def split: option.splits)
  note inv = vset_reach_inv [OF assms(1)]
  have "supporters vs (BlockID_Key b) \<inter> val_indices (valSet vs) = supporters vs (BlockID_Key b)"
    by (auto simp: supporters_def val_indices_def)
  then show ?thesis
    using maj23_quorum [OF inv maj] weight_of_all [OF vset_invD(1) [OF inv]]
    by (simp add: vq.is_quorum_def vq.weight_of_def val_power_def)
qed

theorem TwoThirdsMajority_sound_witness:
  "2 * total_power (Validators (valSet (demo_vset demo_block)))
    < 3 * (\<Sum>i \<in> supporters (demo_vset demo_block) (BlockID_Key demo_block).
        VotingPower (Validators (valSet (demo_vset demo_block)) ! i))"
  by (rule TwoThirdsMajority_sound [OF demo_reach(1)]) (simp add: TwoThirdsMajority_def demo_maj)

text \<open>C1. Accountable safety of one round: when two vote sets for the same height, round, type and
  validators report majorities for different blocks, validators with more than a third of the
  power signed votes for both, and the two sets hold the evidence.\<close>

theorem conflicting_majorities_accountable:
  assumes "vset_reach ce vs" and "vset_reach ce ws" and "same_config vs ws"
    and "maj23 vs = Some a" and "maj23 ws = Some b" and "BlockID_Key a \<noteq> BlockID_Key b"
  shows "total_power (Validators (valSet vs)) <
    3 * (\<Sum>i | i < num_validators vs \<and> (\<exists>v w. votes vs ! i = Some v \<and> votes ws ! i = Some w \<and>
          signed_by ce vs i v \<and> signed_by ce vs i w \<and>
          BlockID_Key (vote_BlockID v) = BlockID_Key a \<and> BlockID_Key (vote_BlockID w) = BlockID_Key b).
        VotingPower (Validators (valSet vs) ! i))"
proof -
  let ?A = "supporters vs (BlockID_Key a)" and ?B = "supporters ws (BlockID_Key b)"
  let ?D = "{i. i < num_validators vs \<and> (\<exists>v w. votes vs ! i = Some v \<and> votes ws ! i = Some w \<and>
          signed_by ce vs i v \<and> signed_by ce vs i w \<and>
          BlockID_Key (vote_BlockID v) = BlockID_Key a \<and> BlockID_Key (vote_BlockID w) = BlockID_Key b)}"
  note inv = vset_reach_inv [OF assms(1)] and inv' = vset_reach_inv [OF assms(2)]
  have val: "valSet ws = valSet vs" using assms(3) by (simp add: same_config_def)
  have wf: "vs_wf (valSet vs)" using vset_invD(1) [OF inv] .
  have "?A \<inter> ?B \<inter> val_indices (valSet vs) = ?D"
    using vset_invD(5) [OF inv] vset_invD(5) [OF inv'] signed_by_config [OF assms(3)] val
    by (auto simp: supporters_def val_indices_def)
  moreover have "total_power (Validators (valSet vs)) < 3 * vq.weight_of (valSet vs) (?A \<inter> ?B)"
    using vq.quorum_intersection [OF wf maj23_quorum [OF inv assms(4)]] maj23_quorum [OF inv' assms(5)]
    by (simp add: val weight_of_all [OF wf])
  ultimately show ?thesis by (simp add: vq.weight_of_def val_power_def)
qed

theorem conflicting_majorities_accountable_witness:
  "total_power (Validators demo_vals) <
    3 * (\<Sum>i | i < num_validators (demo_vset demo_block) \<and>
        (\<exists>v w. votes (demo_vset demo_block) ! i = Some v \<and> votes (demo_vset demo_other_block) ! i = Some w \<and>
          signed_by demo_env (demo_vset demo_block) i v \<and> signed_by demo_env (demo_vset demo_block) i w \<and>
          BlockID_Key (vote_BlockID v) = BlockID_Key demo_block \<and>
          BlockID_Key (vote_BlockID w) = BlockID_Key demo_other_block).
        VotingPower (Validators (valSet (demo_vset demo_block)) ! i))"
proof -
  have "same_config (demo_vset demo_block) (demo_vset demo_other_block)"
    "BlockID_Key demo_block \<noteq> BlockID_Key demo_other_block" "valSet (demo_vset demo_block) = demo_vals"
    by code_simp+
  with conflicting_majorities_accountable [OF demo_reach this(1) demo_maj demo_other_maj this(2)]
  show ?thesis by simp
qed

end
