(* ===== verification/Commit_Verify.thy ===== *)
theory Commit_Verify
  imports Vote_Set
begin

text \<open>
  Verification of commits: \<open>types/validation.go\<close> with the batch verifiers of \<open>crypto/batch\<close>,
  \<open>crypto/ed25519\<close> and \<open>crypto/sr25519\<close>. The batch algorithm itself and the decoding of sr25519 keys
  and signatures belong to an external library and are fields of \<open>batch_lib\<close>.
\<close>

section \<open>Batch verifiers\<close>

record batch_lib =
  batchVerify :: "(PubKey \<times> bytes \<times> bytes) list \<Rightarrow> bool \<times> bool list"
  srKeyDecodes :: "bytes \<Rightarrow> bool"
  srSigDecodes :: "bytes \<Rightarrow> bool"

definition SupportsBatchVerifier :: "PubKey option \<Rightarrow> bool" where
  "SupportsBatchVerifier pk =
     (case pk of
        None \<Rightarrow> False
      | Some k \<Rightarrow> pk_type k = ''ed25519'' \<or> pk_type k = ''sr25519'')"

text \<open>The verifier is known by its key type; \<open>None\<close> is the nil key, on which \<open>Type\<close> panics.\<close>

definition CreateBatchVerifier :: "PubKey option \<Rightarrow> string option option" where
  "CreateBatchVerifier pk =
     (case pk of
        None \<Rightarrow> None
      | Some k \<Rightarrow> Some (if pk_type k = ''ed25519'' then Some ''ed25519''
                       else if pk_type k = ''sr25519'' then Some ''sr25519'' else None))"

datatype batch_error = WrongKeyType | WrongKeySize | WrongBatchSignature

definition ed25519_Add :: "PubKey option \<Rightarrow> bytes \<Rightarrow> batch_error option" where
  "ed25519_Add key signature =
     (case key of
        None \<Rightarrow> Some WrongKeyType
      | Some k \<Rightarrow>
          if pk_type k \<noteq> ''ed25519'' then Some WrongKeyType
          else if length (pk_bytes k) \<noteq> 32 then Some WrongKeySize
          else if length signature \<noteq> 64 then Some WrongBatchSignature
          else None)"

definition sr25519_Add :: "batch_lib \<Rightarrow> PubKey option \<Rightarrow> bytes \<Rightarrow> batch_error option" where
  "sr25519_Add bl key signature =
     (case key of
        None \<Rightarrow> Some WrongKeyType
      | Some k \<Rightarrow>
          if pk_type k \<noteq> ''sr25519'' then Some WrongKeyType
          else if \<not> srKeyDecodes bl (pk_bytes k) then Some WrongKeySize
          else if \<not> srSigDecodes bl signature then Some WrongBatchSignature
          else None)"

definition batch_Add :: "batch_lib \<Rightarrow> string \<Rightarrow> PubKey option \<Rightarrow> bytes \<Rightarrow> batch_error option" where
  "batch_Add bl bv key signature =
     (if bv = ''ed25519'' then ed25519_Add key signature else sr25519_Add bl key signature)"

section \<open>Verification of the signatures\<close>

datatype verify_error =
    NilValidatorSet | NilCommit
  | ErrInvalidCommitSignatures int int
  | ErrInvalidCommitHeight int int
  | WrongCommitBlockID
  | TrustLevelZeroDenominator | TrustLevelOverflow
  | InvalidSignatureAt nat
  | DoubleVote nat nat
  | NilPubKeyAt nat
  | WrongSignatureAt nat
  | ErrNotEnoughVotingPowerSigned int int
  | BatchUnsupported | BatchAddFailed batch_error | BatchBug

text \<open>The lookup of the signer, the same in both loops: by index, or by address with a record of the
  validators seen so far.\<close>

datatype signer = NoSigner | SeenAt nat | Signer Validator "int \<rightharpoonup> nat"

definition lookup_signer :: "bool \<Rightarrow> ValidatorSet \<Rightarrow> (int \<rightharpoonup> nat) \<Rightarrow> nat \<Rightarrow> CommitSig \<Rightarrow> signer option" where
  "lookup_signer lookUpByIndex vals seenVals idx commitSig =
     (if lookUpByIndex
      then map_option (\<lambda>v. Signer v seenVals) (slice_get (Validators vals) (int idx))
      else case GetByAddress vals (cs_ValidatorAddress commitSig) of
        (valIdx, None) \<Rightarrow> Some NoSigner
      | (valIdx, Some v) \<Rightarrow>
          (case seenVals valIdx of
             Some firstIndex \<Rightarrow> Some (SeenAt firstIndex)
           | None \<Rightarrow> Some (Signer v (seenVals(valIdx \<mapsto> idx)))))"

text \<open>What stays fixed during a run of a loop.\<close>

record verify_args =
  va_chain :: bytes
  va_vals :: ValidatorSet
  va_commit :: Commit
  va_needed :: int
  va_ignore :: "CommitSig \<Rightarrow> bool"
  va_count :: "CommitSig \<Rightarrow> bool"
  va_all :: bool
  va_byIndex :: bool

definition add_tally :: "verify_args \<Rightarrow> CommitSig \<Rightarrow> Validator \<Rightarrow> int \<Rightarrow> int" where
  "add_tally a cs v tallied = (if va_count a cs then wrap64 (tallied + VotingPower v) else tallied)"

fun single_loop ::
    "ext_env \<Rightarrow> verify_args \<Rightarrow> CommitSig list \<Rightarrow> nat \<Rightarrow> (int \<rightharpoonup> nat) \<Rightarrow> int \<Rightarrow> verify_error option option" where
  "single_loop ce a [] idx seen tallied =
     Some (if tallied \<le> va_needed a then Some (ErrNotEnoughVotingPowerSigned tallied (va_needed a)) else None)"
| "single_loop ce a (cs # css) idx seen tallied =
     (if va_ignore a cs then single_loop ce a css (Suc idx) seen tallied
      else if CommitSig_ValidateBasic cs \<noteq> None then Some (Some (InvalidSignatureAt idx))
      else case lookup_signer (va_byIndex a) (va_vals a) seen idx cs of
        None \<Rightarrow> None
      | Some NoSigner \<Rightarrow> single_loop ce a css (Suc idx) seen tallied
      | Some (SeenAt firstIndex) \<Rightarrow> Some (Some (DoubleVote firstIndex idx))
      | Some (Signer v seen') \<Rightarrow>
          (case val_PubKey v of
             None \<Rightarrow> Some (Some (NilPubKeyAt idx))
           | Some pk \<Rightarrow>
               (case Commit_VoteSignBytes ce (va_chain a) (va_commit a) (wrap32 (int idx)) of
                  None \<Rightarrow> None
                | Some voteSignBytes \<Rightarrow>
                    if \<not> pkVerify ce pk voteSignBytes (cs_Signature cs) then Some (Some (WrongSignatureAt idx))
                    else let tallied' = add_tally a cs v tallied
                         in if \<not> va_all a \<and> tallied' > va_needed a then Some None
                            else single_loop ce a css (Suc idx) seen' tallied')))"

definition verifyCommitSingle :: "ext_env \<Rightarrow> verify_args \<Rightarrow> verify_error option option" where
  "verifyCommitSingle ce a = single_loop ce a (com_Signatures (va_commit a)) 0 Map.empty 0"

text \<open>The loop that fills the batch; it returns the tally and the entries with their indexes.\<close>

type_synonym batch_entry = "nat \<times> PubKey \<times> bytes \<times> bytes"

fun batch_loop ::
    "ext_env \<Rightarrow> batch_lib \<Rightarrow> string \<Rightarrow> verify_args \<Rightarrow> CommitSig list \<Rightarrow> nat \<Rightarrow> (int \<rightharpoonup> nat) \<Rightarrow> int \<Rightarrow>
       batch_entry list \<Rightarrow> (verify_error + (int \<times> batch_entry list)) option" where
  "batch_loop ce bl bv a [] idx seen tallied es = Some (Inr (tallied, es))"
| "batch_loop ce bl bv a (cs # css) idx seen tallied es =
     (if va_ignore a cs then batch_loop ce bl bv a css (Suc idx) seen tallied es
      else case lookup_signer (va_byIndex a) (va_vals a) seen idx cs of
        None \<Rightarrow> None
      | Some NoSigner \<Rightarrow> batch_loop ce bl bv a css (Suc idx) seen tallied es
      | Some (SeenAt firstIndex) \<Rightarrow> Some (Inl (DoubleVote firstIndex idx))
      | Some (Signer v seen') \<Rightarrow>
          (case Commit_VoteSignBytes ce (va_chain a) (va_commit a) (wrap32 (int idx)) of
             None \<Rightarrow> None
           | Some voteSignBytes \<Rightarrow>
               (case (batch_Add bl bv (val_PubKey v) (cs_Signature cs), val_PubKey v) of
                  (None, Some pk) \<Rightarrow>
                    let es' = es @ [(idx, pk, voteSignBytes, cs_Signature cs)];
                        tallied' = add_tally a cs v tallied
                    in if \<not> va_all a \<and> tallied' > va_needed a then Some (Inr (tallied', es'))
                       else batch_loop ce bl bv a css (Suc idx) seen' tallied' es'
                | (Some e, _) \<Rightarrow> Some (Inl (BatchAddFailed e))
                | (None, None) \<Rightarrow> Some (Inl (BatchAddFailed WrongKeyType)))))"

text \<open>The search for the first invalid signature; \<open>None\<close> is the index panic of a result that is longer
  than the batch.\<close>

fun first_invalid_entry :: "bool list \<Rightarrow> batch_entry list \<Rightarrow> verify_error option" where
  "first_invalid_entry [] es = Some BatchBug"
| "first_invalid_entry (True # bs) es = first_invalid_entry bs (tl es)"
| "first_invalid_entry (False # bs) es = (case es of [] \<Rightarrow> None | e # _ \<Rightarrow> Some (WrongSignatureAt (fst e)))"

text \<open>The proposer's key, with the cache update of \<open>GetProposer\<close>; \<open>None\<close> is a nil dereference.\<close>

definition proposer_key :: "ValidatorSet \<Rightarrow> (ValidatorSet \<times> PubKey option) option" where
  "proposer_key vals =
     do {
       (vals', p) \<leftarrow> GetProposer vals;
       (case p of None \<Rightarrow> None | Some v \<Rightarrow> Some (vals', val_PubKey v))
     }"

definition verifyCommitBatch :: "ext_env \<Rightarrow> batch_lib \<Rightarrow> verify_args \<Rightarrow> verify_error option option" where
  "verifyCommitBatch ce bl a =
     do {
       (vals', pk) \<leftarrow> proposer_key (va_vals a);
       created \<leftarrow> CreateBatchVerifier pk;
       (case created of
          None \<Rightarrow> Some (Some BatchUnsupported)
        | Some bv \<Rightarrow>
            if length (com_Signatures (va_commit a)) < 2 then Some (Some BatchUnsupported)
            else do {
              r \<leftarrow> batch_loop ce bl bv a (com_Signatures (va_commit a)) 0 Map.empty 0 [];
              (case r of
                 Inl e \<Rightarrow> Some (Some e)
               | Inr (tallied, es) \<Rightarrow>
                   if tallied \<le> va_needed a then Some (Some (ErrNotEnoughVotingPowerSigned tallied (va_needed a)))
                   else let (ok, validSigs) = batchVerify bl (map snd es)
                        in if ok then Some None
                           else map_option Some (first_invalid_entry validSigs es))
            })
     }"

definition shouldBatchVerify :: "ValidatorSet \<Rightarrow> Commit \<Rightarrow> (ValidatorSet \<times> bool) option" where
  "shouldBatchVerify vals commit =
     (if length (com_Signatures commit) \<ge> 2
      then do {
        (vals', pk) \<leftarrow> proposer_key vals;
        Some (vals', SupportsBatchVerifier pk \<and> allKeysHaveSameType vals')
      }
      else Some (vals, False))"

definition verifyBasicValsAndCommit ::
    "ValidatorSet option \<Rightarrow> Commit option \<Rightarrow> int \<Rightarrow> BlockID \<Rightarrow> verify_error + (ValidatorSet \<times> Commit)" where
  "verifyBasicValsAndCommit vals commit h blockID =
     (case vals of
        None \<Rightarrow> Inl NilValidatorSet
      | Some vs \<Rightarrow>
          (case commit of
             None \<Rightarrow> Inl NilCommit
           | Some c \<Rightarrow>
               if Size vs \<noteq> int (length (com_Signatures c))
               then Inl (ErrInvalidCommitSignatures (Size vs) (int (length (com_Signatures c))))
               else if h \<noteq> com_Height c then Inl (ErrInvalidCommitHeight h (com_Height c))
               else if \<not> BlockID_Equals blockID (com_BlockID c) then Inl WrongCommitBlockID
               else Inr (vs, c)))"

text \<open>The common end of the three entry points: the batch if it is usable, one by one otherwise. The
  caches that \<open>GetProposer\<close> and \<open>TotalVotingPower\<close> fill are used but not returned.\<close>

definition verify_signatures :: "ext_env \<Rightarrow> batch_lib \<Rightarrow> verify_args \<Rightarrow> verify_error option option" where
  "verify_signatures ce bl a =
     do {
       (vals', useBatch) \<leftarrow> shouldBatchVerify (va_vals a) (va_commit a);
       (if useBatch then verifyCommitBatch ce bl (a\<lparr>va_vals := vals'\<rparr>)
        else verifyCommitSingle ce (a\<lparr>va_vals := vals'\<rparr>))
     }"

definition VerifyCommit ::
    "ext_env \<Rightarrow> batch_lib \<Rightarrow> bytes \<Rightarrow> ValidatorSet option \<Rightarrow> BlockID \<Rightarrow> int \<Rightarrow> Commit option \<Rightarrow>
       verify_error option option" where
  "VerifyCommit ce bl chain vals blockID h commit =
     (case verifyBasicValsAndCommit vals commit h blockID of
        Inl e \<Rightarrow> Some (Some e)
      | Inr (vs, c) \<Rightarrow> do {
          (vs', tvp) \<leftarrow> TotalVotingPower vs;
          verify_signatures ce bl
            \<lparr>va_chain = chain, va_vals = vs', va_commit = c, va_needed = wrap64 (tvp * 2) sdiv 3,
             va_ignore = (\<lambda>cs. cs_BlockIDFlag cs = BlockIDFlagAbsent),
             va_count = (\<lambda>cs. cs_BlockIDFlag cs = BlockIDFlagCommit),
             va_all = True, va_byIndex = True\<rparr>
        })"

definition verifyCommitLightInternal ::
    "ext_env \<Rightarrow> batch_lib \<Rightarrow> bytes \<Rightarrow> ValidatorSet option \<Rightarrow> BlockID \<Rightarrow> int \<Rightarrow> Commit option \<Rightarrow> bool \<Rightarrow>
       verify_error option option" where
  "verifyCommitLightInternal ce bl chain vals blockID h commit countAllSignatures =
     (case verifyBasicValsAndCommit vals commit h blockID of
        Inl e \<Rightarrow> Some (Some e)
      | Inr (vs, c) \<Rightarrow> do {
          (vs', tvp) \<leftarrow> TotalVotingPower vs;
          verify_signatures ce bl
            \<lparr>va_chain = chain, va_vals = vs', va_commit = c, va_needed = wrap64 (tvp * 2) sdiv 3,
             va_ignore = (\<lambda>cs. cs_BlockIDFlag cs \<noteq> BlockIDFlagCommit), va_count = (\<lambda>cs. True),
             va_all = countAllSignatures, va_byIndex = True\<rparr>
        })"

definition VerifyCommitLight where
  "VerifyCommitLight ce bl chain vals blockID h commit =
     verifyCommitLightInternal ce bl chain vals blockID h commit False"

definition VerifyCommitLightAllSignatures where
  "VerifyCommitLightAllSignatures ce bl chain vals blockID h commit =
     verifyCommitLightInternal ce bl chain vals blockID h commit True"

text \<open>The two parts of the trust level are cast from \<open>uint64\<close> to \<open>int64\<close>.\<close>

definition verifyCommitLightTrustingInternal ::
    "ext_env \<Rightarrow> batch_lib \<Rightarrow> bytes \<Rightarrow> ValidatorSet option \<Rightarrow> Commit option \<Rightarrow> Fraction \<Rightarrow> bool \<Rightarrow>
       verify_error option option" where
  "verifyCommitLightTrustingInternal ce bl chain vals commit trustLevel countAllSignatures =
     (case vals of
        None \<Rightarrow> Some (Some NilValidatorSet)
      | Some vs \<Rightarrow>
          if Denominator trustLevel = 0 then Some (Some TrustLevelZeroDenominator)
          else (case commit of
             None \<Rightarrow> Some (Some NilCommit)
           | Some c \<Rightarrow> do {
               (vs', tvp) \<leftarrow> TotalVotingPower vs;
               let (m, overflow) = safeMul tvp (wrap64 (int (Numerator trustLevel)));
               (if overflow then Some (Some TrustLevelOverflow)
                else verify_signatures ce bl
                  \<lparr>va_chain = chain, va_vals = vs', va_commit = c,
                   va_needed = wrap64 (m sdiv wrap64 (int (Denominator trustLevel))),
                   va_ignore = (\<lambda>cs. cs_BlockIDFlag cs \<noteq> BlockIDFlagCommit), va_count = (\<lambda>cs. True),
                   va_all = countAllSignatures, va_byIndex = False\<rparr>)
             }))"

definition VerifyCommitLightTrusting where
  "VerifyCommitLightTrusting ce bl chain vals commit trustLevel =
     verifyCommitLightTrustingInternal ce bl chain vals commit trustLevel False"

definition VerifyCommitLightTrustingAllSignatures where
  "VerifyCommitLightTrustingAllSignatures ce bl chain vals commit trustLevel =
     verifyCommitLightTrustingInternal ce bl chain vals commit trustLevel True"

section \<open>The two algorithms accept the same commits\<close>

text \<open>
  What the code relies on in the external library: a valid signature is well-formed, and a
  non-empty batch is accepted when all its signatures are valid.
\<close>

definition batch_sound :: "ext_env \<Rightarrow> batch_lib \<Rightarrow> bool" where
  "batch_sound ce bl \<longleftrightarrow>
     (\<forall>k m s. pkVerify ce k m s \<longrightarrow>
        (pk_type k = ''ed25519'' \<longrightarrow> length (pk_bytes k) = 32 \<and> length s = 64) \<and>
        (pk_type k = ''sr25519'' \<longrightarrow> srKeyDecodes bl (pk_bytes k) \<and> srSigDecodes bl s)) \<and>
     (\<forall>es. es \<noteq> [] \<longrightarrow>
        batchVerify bl es = (\<forall>(k, m, s) \<in> set es. pkVerify ce k m s, map (\<lambda>(k, m, s). pkVerify ce k m s) es))"

text \<open>All keys, that of the cached proposer included, have one type.\<close>

definition uniform_keys :: "string \<Rightarrow> ValidatorSet \<Rightarrow> bool" where
  "uniform_keys kt vals \<longleftrightarrow>
     (\<forall>v \<in> set (Validators vals) \<union> set_option (Proposer vals). \<exists>pk. val_PubKey v = Some pk \<and> pk_type pk = kt)"

text \<open>The entries that the loop collects for a list of signatures.\<close>

abbreviation entry_ok :: "ext_env \<Rightarrow> batch_entry \<Rightarrow> bool" where
  "entry_ok ce e \<equiv> (case e of (i, pk, m, s) \<Rightarrow> pkVerify ce pk m s)"

lemma batch_Add_valid:
  assumes "batch_sound ce bl" and "pk_type pk = bv" and "bv = ''ed25519'' \<or> bv = ''sr25519''"
    and "pkVerify ce pk m s"
  shows "batch_Add bl bv (Some pk) s = None"
  using assms by (auto simp: batch_sound_def batch_Add_def ed25519_Add_def sr25519_Add_def)

lemma lookup_signer_mem:
  assumes "lookup_signer byi vals seen idx cs = Some (Signer v seen')"
  shows "v \<in> set (Validators vals)"
proof (cases byi)
  case True
  then show ?thesis using assms by (auto simp: lookup_signer_def slice_get_def split: if_splits)
next
  case False
  then have "snd (GetByAddress vals (cs_ValidatorAddress cs)) = Some v"
    using assms by (auto simp: lookup_signer_def split: prod.splits option.splits)
  then show ?thesis unfolding GetByAddress_find by (blast dest: find_key_SomeD)
qed

lemma batch_loop_prefix:
  "batch_loop ce bl bv a css idx seen tallied es = Some (Inr (t, es')) \<Longrightarrow> \<exists>more. es' = es @ more"
proof (induction css arbitrary: idx seen tallied es)
  case Nil
  then show ?case by simp
next
  case (Cons cs css)
  then show ?case by (force simp: Let_def split: if_splits option.splits signer.splits)
qed

lemma batch_single:
  assumes "batch_sound ce bl" and "bv = ''ed25519'' \<or> bv = ''sr25519''"
    and "\<forall>v \<in> set (Validators (va_vals a)). \<exists>pk. val_PubKey v = Some pk \<and> pk_type pk = bv"
    and "\<forall>cs \<in> set css. \<not> va_ignore a cs \<longrightarrow> CommitSig_ValidateBasic cs = None"
    and "\<forall>e \<in> set es. entry_ok ce e"
  shows "single_loop ce a css idx seen tallied = Some None \<longleftrightarrow>
    (\<exists>t es'. batch_loop ce bl bv a css idx seen tallied es = Some (Inr (t, es')) \<and> va_needed a < t \<and>
       (\<forall>e \<in> set es'. entry_ok ce e))"
  using assms(4,5)
proof (induction css arbitrary: idx seen tallied es)
  case Nil
  then show ?case by auto
next
  case (Cons cs css)
  show ?case
  proof (cases "va_ignore a cs \<or> lookup_signer (va_byIndex a) (va_vals a) seen idx cs = Some NoSigner")
    case True
    then show ?thesis using Cons by auto
  next
    case False
    show ?thesis
    proof (cases "\<exists>v seen'. lookup_signer (va_byIndex a) (va_vals a) seen idx cs = Some (Signer v seen')")
      case True
      then obtain v seen' where l: "lookup_signer (va_byIndex a) (va_vals a) seen idx cs = Some (Signer v seen')" by blast
      obtain pk where pk: "val_PubKey v = Some pk" "pk_type pk = bv"
        using assms(3) lookup_signer_mem [OF l] by blast
      show ?thesis
      proof (cases "Commit_VoteSignBytes ce (va_chain a) (va_commit a) (wrap32 (int idx))")
        case None
        then show ?thesis using False l pk Cons.prems by simp
      next
        case (Some m)
        show ?thesis
        proof (cases "pkVerify ce pk m (cs_Signature cs)")
          case True
          then show ?thesis
            using False l pk Some Cons.prems batch_Add_valid [OF assms(1) pk(2) assms(2) True]
              Cons.IH [where es = "es @ [(idx, pk, m, cs_Signature cs)]"] by (simp add: Let_def)
        next
          case wrong: False
          have "\<exists>more. es' = (es @ [(idx, pk, m, cs_Signature cs)]) @ more"
            if "batch_loop ce bl bv a (cs # css) idx seen tallied es = Some (Inr (t, es'))" for t es'
            using that False l pk Some batch_loop_prefix
            by (auto simp: Let_def split: if_splits option.splits dest: batch_loop_prefix)
          then show ?thesis using False l pk Some wrong Cons.prems by fastforce
        qed
      qed
    next
      case none: False
      then show ?thesis using False Cons.prems
        by (auto split: option.splits signer.splits)
    qed
  qed
qed

lemma find_proposer_loop_mem:
  "\<exists>p. find_proposer_loop vs q = Some p \<and> set_option p \<subseteq> set vs \<union> set_option q \<and>
     (p = None \<longrightarrow> vs = [] \<and> q = None)"
proof (induction vs arbitrary: q)
  case Nil
  then show ?case by simp
next
  case (Cons v vs)
  show ?case
  proof (cases q)
    case None
    then show ?thesis using Cons [of "Some v"] by (auto simp: CompareProposerPriority_def)
  next
    case (Some r)
    show ?thesis
    proof (cases "Address r = Address v")
      case True
      then show ?thesis using Some Cons [of "Some r"] by auto
    next
      case False
      then show ?thesis
        using Some Cons [of "Some r"] Cons [of "Some v"] by (auto simp: Compare_better)
    qed
  qed
qed

lemma proposer_key_uniform:
  assumes "uniform_keys kt vals" and "Validators vals \<noteq> []"
  shows "\<exists>p pk. proposer_key vals = Some (vals\<lparr>Proposer := p\<rparr>, Some pk) \<and> pk_type pk = kt \<and>
     uniform_keys kt (vals\<lparr>Proposer := p\<rparr>)"
proof (cases "Proposer vals")
  case None
  obtain p where p: "find_proposer_loop (Validators vals) None = Some (Some p)" "p \<in> set (Validators vals)"
    using find_proposer_loop_mem [of "Validators vals" None] assms(2) by fastforce
  then obtain pk where "val_PubKey p = Some pk" "pk_type pk = kt" using assms(1) by (auto simp: uniform_keys_def)
  then show ?thesis using None p assms by (auto simp: proposer_key_def GetProposer_def findProposer_def uniform_keys_def)
next
  case (Some p)
  then obtain pk where "val_PubKey p = Some pk" "pk_type pk = kt" using assms(1) by (auto simp: uniform_keys_def)
  moreover have "vals\<lparr>Proposer := Some p\<rparr> = vals" using Some by simp
  ultimately show ?thesis using Some assms by (auto simp: proposer_key_def GetProposer_def uniform_keys_def intro!: exI [of _ "Some p"])
qed

lemma lookup_signer_Proposer [simp]:
  "lookup_signer byi (vals\<lparr>Proposer := p\<rparr>) seen idx cs = lookup_signer byi vals seen idx cs"
  by (simp add: lookup_signer_def GetByAddress_def)

lemma single_loop_Proposer [simp]:
  "single_loop ce (a\<lparr>va_vals := (va_vals a)\<lparr>Proposer := p\<rparr>\<rparr>) css idx seen tallied =
     single_loop ce a css idx seen tallied"
  by (induction css arbitrary: idx seen tallied)
     (simp_all add: add_tally_def Let_def split: option.splits signer.splits)

text \<open>A batch with enough power is not empty.\<close>

lemma batch_loop_tally:
  "batch_loop ce bl bv a css idx seen tallied es = Some (Inr (t, es')) \<Longrightarrow> es' = es \<Longrightarrow> t = tallied"
proof (induction css arbitrary: idx seen tallied es)
  case Nil
  then show ?case by simp
next
  case (Cons cs css)
  then show ?case
    by (auto simp: Let_def split: if_splits option.splits signer.splits dest!: batch_loop_prefix)
qed

text \<open>The contract of both routines: the signatures that are looked at passed the basic validation.\<close>

definition args_ok :: "string \<Rightarrow> verify_args \<Rightarrow> bool" where
  "args_ok kt a \<longleftrightarrow> uniform_keys kt (va_vals a) \<and> Validators (va_vals a) \<noteq> [] \<and> 0 \<le> va_needed a \<and>
     (\<forall>cs \<in> set (com_Signatures (va_commit a)). \<not> va_ignore a cs \<longrightarrow> CommitSig_ValidateBasic cs = None)"

lemma verifyCommitBatch_single:
  assumes ok: "args_ok kt a" and bs: "batch_sound ce bl"
    and kt: "kt = ''ed25519'' \<or> kt = ''sr25519''" and len: "2 \<le> length (com_Signatures (va_commit a))"
  shows "verifyCommitBatch ce bl a = Some None \<longleftrightarrow> verifyCommitSingle ce a = Some None"
proof -
  obtain p pk where pk: "proposer_key (va_vals a) = Some ((va_vals a)\<lparr>Proposer := p\<rparr>, Some pk)" "pk_type pk = kt"
    using ok proposer_key_uniform by (fastforce simp: args_ok_def)
  have cr: "CreateBatchVerifier (Some pk) = Some (Some kt)" using pk(2) kt by (auto simp: CreateBatchVerifier_def)
  let ?loop = "batch_loop ce bl kt a (com_Signatures (va_commit a)) 0 Map.empty 0 []"
  have eq: "verifyCommitSingle ce a = Some None \<longleftrightarrow>
    (\<exists>t es. ?loop = Some (Inr (t, es)) \<and> va_needed a < t \<and> (\<forall>e \<in> set es. entry_ok ce e))"
    unfolding verifyCommitSingle_def
    by (rule batch_single [OF bs kt]) (use ok in \<open>auto simp: args_ok_def uniform_keys_def\<close>)
  show ?thesis
  proof (cases "\<exists>t es. ?loop = Some (Inr (t, es)) \<and> va_needed a < t")
    case True
    then obtain t es where t: "?loop = Some (Inr (t, es))" "va_needed a < t" by blast
    then have "map snd es \<noteq> []" using batch_loop_tally [OF t(1)] ok by (auto simp: args_ok_def)
    then have "batchVerify bl (map snd es) =
      (\<forall>e \<in> set es. entry_ok ce e, map (entry_ok ce) es)"
      using bs by (auto simp: batch_sound_def case_prod_unfold)
    moreover have "map_option Some r \<noteq> Some None" for r :: "verify_error option" by (cases r) auto
    ultimately show ?thesis using t pk cr len by (simp add: eq verifyCommitBatch_def)
  next
    case False
    then show ?thesis using pk cr len
      by (auto simp: eq verifyCommitBatch_def split: option.splits sum.splits bind_splits)
  qed
qed

lemma verify_signatures_single:
  assumes ok: "args_ok kt a" and bs: "batch_sound ce bl"
  shows "verify_signatures ce bl a = Some None \<longleftrightarrow> verifyCommitSingle ce a = Some None"
proof -
  obtain p pk where pk: "proposer_key (va_vals a) = Some ((va_vals a)\<lparr>Proposer := p\<rparr>, Some pk)" "pk_type pk = kt"
      "uniform_keys kt ((va_vals a)\<lparr>Proposer := p\<rparr>)"
    using ok proposer_key_uniform by (fastforce simp: args_ok_def)
  let ?a = "a\<lparr>va_vals := (va_vals a)\<lparr>Proposer := p\<rparr>\<rparr>"
  have ok': "args_ok kt ?a" using ok pk(3) by (simp add: args_ok_def)
  have single: "verifyCommitSingle ce ?a = verifyCommitSingle ce a" by (simp add: verifyCommitSingle_def)
  show ?thesis
  proof (cases "2 \<le> length (com_Signatures (va_commit a)) \<and> SupportsBatchVerifier (Some pk) \<and> allKeysHaveSameType (va_vals a)")
    case True
    then have "verifyCommitBatch ce bl ?a = Some None \<longleftrightarrow> verifyCommitSingle ce ?a = Some None"
      using pk(2) by (intro verifyCommitBatch_single [OF ok' bs]) (auto simp: SupportsBatchVerifier_def)
    then show ?thesis using True pk(1) single by (simp add: verify_signatures_def shouldBatchVerify_def)
  next
    case False
    then show ?thesis using pk(1) single by (auto simp: verify_signatures_def shouldBatchVerify_def)
  qed
qed

section \<open>What an accepted commit contains\<close>

text \<open>The signature at index \<open>i\<close> of the commit is valid for validator \<open>j\<close>.\<close>

definition sig_valid :: "ext_env \<Rightarrow> bytes \<Rightarrow> ValidatorSet \<Rightarrow> Commit \<Rightarrow> nat \<Rightarrow> nat \<Rightarrow> bool" where
  "sig_valid ce chain vals commit i j \<longleftrightarrow>
     i < length (com_Signatures commit) \<and> j < length (Validators vals) \<and>
     (\<exists>pk m. val_PubKey (Validators vals ! j) = Some pk \<and> Commit_VoteSignBytes ce chain commit (int i) = Some m \<and>
        pkVerify ce pk m (cs_Signature (com_Signatures commit ! i)))"

abbreviation power_at :: "ValidatorSet \<Rightarrow> nat \<Rightarrow> int" where
  "power_at vals j \<equiv> VotingPower (Validators vals ! j)"

lemma sum_power_le:
  assumes "vs_wf vals" and "S \<subseteq> {..<length (Validators vals)}"
  shows "0 \<le> (\<Sum>j \<in> S. power_at vals j)" and "(\<Sum>j \<in> S. power_at vals j) \<le> MaxTotalVotingPower"
proof -
  have pos: "\<forall>j \<in> {..<length (Validators vals)}. 0 \<le> power_at vals j"
    using vs_wf_power(1) [OF assms(1)] by (force simp: less_imp_le)
  then show "0 \<le> (\<Sum>j \<in> S. power_at vals j)" using assms(2) by (auto intro: sum_nonneg)
  have "(\<Sum>j \<in> S. power_at vals j) \<le> (\<Sum>j < length (Validators vals). power_at vals j)"
    using pos assms(2) by (intro sum_mono2) auto
  also have "\<dots> = total_power (Validators vals)"
    by (simp add: total_power_def sum_list_sum_nth atLeast0LessThan)
  finally show "(\<Sum>j \<in> S. power_at vals j) \<le> MaxTotalVotingPower" using assms(1) by (simp add: vs_wf_def)
qed

lemma wrap_small: "0 \<le> t \<Longrightarrow> t \<le> MaxTotalVotingPower \<Longrightarrow> wrap64 t = t"
  by (simp add: in64_def)

lemma wrap32_nat: "int i \<le> MaxInt32 \<Longrightarrow> wrap32 (int i) = int i"
  by (simp add: in32_def)

text \<open>The indexes from \<open>idx\<close> on whose power is added.\<close>

definition counted :: "verify_args \<Rightarrow> nat \<Rightarrow> nat set" where
  "counted a idx = {i. idx \<le> i \<and> i < length (com_Signatures (va_commit a)) \<and>
     \<not> va_ignore a (com_Signatures (va_commit a) ! i) \<and> va_count a (com_Signatures (va_commit a) ! i)}"

lemma counted_step:
  assumes "idx < length (com_Signatures (va_commit a))"
  shows "counted a idx = (if \<not> va_ignore a (com_Signatures (va_commit a) ! idx) \<and>
      va_count a (com_Signatures (va_commit a) ! idx) then insert idx (counted a (Suc idx)) else counted a (Suc idx))"
    and "finite (counted a idx)" and "idx \<notin> counted a (Suc idx)"
  using assms by (auto simp: counted_def Suc_le_eq order_le_less)

lemma single_all_iff:
  assumes wf: "vs_wf (va_vals a)" and mode: "va_byIndex a" "va_all a"
    and len: "length (Validators (va_vals a)) = length (com_Signatures (va_commit a))"
    and small: "int (length (com_Signatures (va_commit a))) \<le> MaxInt32"
    and idx: "idx \<le> length (com_Signatures (va_commit a))" and t0: "0 \<le> t"
    and t: "t + (\<Sum>i \<in> counted a idx. power_at (va_vals a) i) \<le> MaxTotalVotingPower"
  shows "single_loop ce a (drop idx (com_Signatures (va_commit a))) idx seen t = Some None \<longleftrightarrow>
    (\<forall>i. idx \<le> i \<longrightarrow> i < length (com_Signatures (va_commit a)) \<longrightarrow>
       \<not> va_ignore a (com_Signatures (va_commit a) ! i) \<longrightarrow>
       CommitSig_ValidateBasic (com_Signatures (va_commit a) ! i) = None \<and>
       sig_valid ce (va_chain a) (va_vals a) (va_commit a) i i) \<and>
    va_needed a < t + (\<Sum>i \<in> counted a idx. power_at (va_vals a) i)"
  (is "?L idx t = (?R idx \<and> ?T idx t)")
  using idx t0 t
proof (induction arbitrary: t rule: inc_induct)
  case base
  have "counted a (length (com_Signatures (va_commit a))) = {}" by (auto simp: counted_def)
  then show ?case by auto
next
  case (step idx)
  let ?s = "com_Signatures (va_commit a) ! idx" and ?v = "Validators (va_vals a) ! idx"
  have R: "?R idx \<longleftrightarrow> (\<not> va_ignore a ?s \<longrightarrow> CommitSig_ValidateBasic ?s = None \<and>
      sig_valid ce (va_chain a) (va_vals a) (va_commit a) idx idx) \<and> ?R (Suc idx)"
    using step.hyps by (metis Suc_leD Suc_leI le_antisym not_less_eq_eq order_refl)
  have drop: "drop idx (com_Signatures (va_commit a)) = ?s # drop (Suc idx) (com_Signatures (va_commit a))"
    using step.hyps by (simp add: Cons_nth_drop_Suc)
  have look: "lookup_signer True (va_vals a) seen idx ?s = Some (Signer ?v seen)"
    using step.hyps len by (simp add: lookup_signer_def slice_get_def)
  have w32: "wrap32 (int idx) = int idx" using step.hyps small by (intro wrap32_nat) linarith
  have pow: "0 \<le> (\<Sum>i \<in> counted a (Suc idx). power_at (va_vals a) i)" "0 < VotingPower ?v"
    using vs_wf_power(1) [OF wf] step.hyps len by (auto intro!: sum_power_le(1) [OF wf] simp: counted_def)
  note sums = counted_step [OF step.hyps(2)]
  show ?case
  proof (cases "va_ignore a ?s")
    case True
    then show ?thesis using step.IH [of t] step.prems drop R sums by simp
  next
    case False
    have tal: "0 \<le> add_tally a ?s ?v t" "add_tally a ?s ?v t + (\<Sum>i \<in> counted a (Suc idx). power_at (va_vals a) i) =
        t + (\<Sum>i \<in> counted a idx. power_at (va_vals a) i)"
      using step.prems pow False sums by (cases "va_count a ?s"; simp add: add_tally_def wrap_small)+
    have add: "?L (Suc idx) (add_tally a ?s ?v t) = (?R (Suc idx) \<and> ?T idx t)"
      using step.IH [OF tal(1)] step.prems(2) unfolding tal(2) by blast
    show ?thesis
      unfolding R drop using False look mode w32 add step.hyps len
      by (auto simp: sig_valid_def Let_def split: option.splits)
  qed
qed

lemma needed_less_iff:
  "0 \<le> tvp \<Longrightarrow> tvp \<le> MaxTotalVotingPower \<Longrightarrow> wrap64 (tvp * 2) sdiv 3 < p \<longleftrightarrow> 2 * tvp < 3 * p"
  "0 \<le> tvp \<Longrightarrow> tvp \<le> MaxTotalVotingPower \<Longrightarrow> 0 \<le> wrap64 (tvp * 2) sdiv 3"
proof -
  assume t: "0 \<le> tvp" "tvp \<le> MaxTotalVotingPower"
  then have "wrap64 (tvp * 2) sdiv 3 = tvp * 2 div 3" by (simp add: sdiv_nonneg in64_def)
  then show "wrap64 (tvp * 2) sdiv 3 < p \<longleftrightarrow> 2 * tvp < 3 * p" "0 \<le> wrap64 (tvp * 2) sdiv 3"
    using t(1) by linarith+
qed

lemma commit_sigs_valid:
  "Commit_ValidateBasic c = None \<Longrightarrow> 1 \<le> com_Height c \<Longrightarrow> cs \<in> set (com_Signatures c) \<Longrightarrow>
     CommitSig_ValidateBasic cs = None"
  by (auto simp: Commit_ValidateBasic_def first_bad_sig_None split: if_splits)

text \<open>The verification of signatures by address adds the power of every validator at most once.\<close>

lemma get_by_address_index:
  "get_by_address vs k a = (j, Some v) \<Longrightarrow> \<exists>i. j = wrap32 (k + int i) \<and> i < length vs \<and> vs ! i = v \<and> Address v = a"
proof (induction vs arbitrary: k)
  case Nil
  then show ?case by simp
next
  case (Cons w vs)
  show ?case
  proof (cases "Address w = a")
    case True
    then show ?thesis using Cons.prems by (auto intro!: exI [of _ 0])
  next
    case False
    then obtain i where "j = wrap32 (k + 1 + int i)" "i < length vs" "vs ! i = v" "Address v = a"
      using Cons.IH [of "k + 1"] Cons.prems by auto
    then show ?thesis by (intro exI [of _ "Suc i"]) (auto simp: algebra_simps)
  qed
qed

definition fresh :: "bool \<Rightarrow> nat \<Rightarrow> nat set \<Rightarrow> (int \<rightharpoonup> nat) \<Rightarrow> bool" where
  "fresh byi idx S seen \<longleftrightarrow> (if byi then S \<subseteq> {..<idx} else int ` S \<subseteq> dom seen)"

lemma fresh_Suc: "fresh byi idx S seen \<Longrightarrow> fresh byi (Suc idx) S seen"
  by (auto simp: fresh_def split: if_splits)

lemma lookup_fresh:
  assumes look: "lookup_signer byi vals seen idx cs = Some (Signer v seen')" and fr: "fresh byi idx S seen"
    and small: "int (length (Validators vals)) \<le> MaxInt32"
  shows "\<exists>j < length (Validators vals). j \<notin> S \<and> Validators vals ! j = v \<and> fresh byi (Suc idx) (insert j S) seen' \<and>
     (if byi then j = idx else Address v = cs_ValidatorAddress cs)"
proof (cases byi)
  case True
  then show ?thesis using look fr
    by (auto simp: lookup_signer_def slice_get_def fresh_def split: if_splits intro!: exI [of _ idx])
next
  case False
  then obtain j' where j': "GetByAddress vals (cs_ValidatorAddress cs) = (j', Some v)" "seen j' = None" "seen' = seen(j' \<mapsto> idx)"
    using look by (auto simp: lookup_signer_def split: prod.splits option.splits)
  then obtain i where i: "j' = wrap32 (int i)" "i < length (Validators vals)" "Validators vals ! i = v"
    "Address v = cs_ValidatorAddress cs"
    using get_by_address_index [of "Validators vals" 0 _ j' v] by (auto simp: GetByAddress_def)
  then have "j' = int i" using small by (simp add: wrap32_nat)
  with i j' False fr show ?thesis by (intro exI [of _ i]) (auto simp: fresh_def)
qed

lemma drop_eq_ConsD:
  assumes "drop i xs = y # ys"
  shows "i < length xs \<and> y = xs ! i \<and> ys = drop (Suc i) xs"
proof -
  have "i < length xs" using assms by (metis drop_all leI list.simps(3))
  then show ?thesis using assms by (simp add: Cons_nth_drop_Suc [symmetric])
qed

text \<open>The signature of validator \<open>j\<close> that an accepting run looked at.\<close>

definition signs_commit :: "ext_env \<Rightarrow> verify_args \<Rightarrow> nat \<Rightarrow> bool" where
  "signs_commit ce a j \<longleftrightarrow>
     (\<exists>i. sig_valid ce (va_chain a) (va_vals a) (va_commit a) i j \<and>
        \<not> va_ignore a (com_Signatures (va_commit a) ! i) \<and>
        (if va_byIndex a then j = i
         else Address (Validators (va_vals a) ! j) = cs_ValidatorAddress (com_Signatures (va_commit a) ! i)))"

lemma single_sound:
  assumes wf: "vs_wf (va_vals a)" and cnt: "\<forall>cs. va_count a cs"
    and smalls: "int (length (Validators (va_vals a))) \<le> MaxInt32" "int (length (com_Signatures (va_commit a))) \<le> MaxInt32"
    and css: "css = drop idx (com_Signatures (va_commit a))"
    and run: "single_loop ce a css idx seen (\<Sum>j \<in> S. power_at (va_vals a) j) = Some None"
    and S: "fresh (va_byIndex a) idx S seen" "S \<subseteq> {..<length (Validators (va_vals a))}" "\<forall>j \<in> S. signs_commit ce a j"
  shows "\<exists>S \<subseteq> {..<length (Validators (va_vals a))}. (\<forall>j \<in> S. signs_commit ce a j) \<and>
    va_needed a < (\<Sum>j \<in> S. power_at (va_vals a) j)"
  using css run S
proof (induction css arbitrary: idx seen S)
  case Nil
  from Nil.prems(2) have "va_needed a < (\<Sum>j \<in> S. power_at (va_vals a) j)" by (simp split: if_splits)
  with Nil.prems(4,5) show ?case by blast
next
  case (Cons cs css)
  have idx: "idx < length (com_Signatures (va_commit a))" "cs = com_Signatures (va_commit a) ! idx"
    "css = drop (Suc idx) (com_Signatures (va_commit a))"
    using drop_eq_ConsD [OF Cons.prems(1) [symmetric]] by blast+
  have w32: "wrap32 (int idx) = int idx" using idx(1) smalls(2) by (intro wrap32_nat) linarith
  show ?case
  proof (cases "va_ignore a cs \<or> lookup_signer (va_byIndex a) (va_vals a) seen idx cs = Some NoSigner")
    case True
    then have "single_loop ce a css (Suc idx) seen (\<Sum>j \<in> S. power_at (va_vals a) j) = Some None"
      using Cons.prems(2) by (auto split: if_splits)
    from Cons.IH [OF idx(3) this fresh_Suc [OF Cons.prems(3)] Cons.prems(4,5)] show ?thesis .
  next
    case False
    then obtain v seen' pk m where l: "lookup_signer (va_byIndex a) (va_vals a) seen idx cs = Some (Signer v seen')"
      and v: "val_PubKey v = Some pk" "Commit_VoteSignBytes ce (va_chain a) (va_commit a) (int idx) = Some m"
        "pkVerify ce pk m (cs_Signature cs)"
      using Cons.prems(2) unfolding single_loop.simps w32 by (auto split: if_splits option.splits signer.splits)
    obtain j where j: "j < length (Validators (va_vals a))" "j \<notin> S" "Validators (va_vals a) ! j = v"
      "fresh (va_byIndex a) (Suc idx) (insert j S) seen'"
      "if va_byIndex a then j = idx else Address v = cs_ValidatorAddress cs"
      using lookup_fresh [OF l Cons.prems(3) smalls(1)] by blast
    have fin: "finite S" using Cons.prems(4) finite_subset by blast
    have sub: "insert j S \<subseteq> {..<length (Validators (va_vals a))}" using j(1) Cons.prems(4) by simp
    have new: "signs_commit ce a j"
      unfolding signs_commit_def sig_valid_def using j v idx False by (intro exI [of _ idx]) auto
    have t: "add_tally a cs v (\<Sum>j \<in> S. power_at (va_vals a) j) = (\<Sum>j \<in> insert j S. power_at (va_vals a) j)"
      using sum_power_le [OF wf sub] j(2,3) fin cnt by (simp add: add_tally_def wrap_small add.commute)
    have all: "\<forall>j \<in> insert j S. signs_commit ce a j" using new Cons.prems(5) by simp
    show ?thesis
    proof (cases "\<not> va_all a \<and> va_needed a < (\<Sum>j \<in> insert j S. power_at (va_vals a) j)")
      case True
      then show ?thesis using sub all by blast
    next
      case go: False
      then have "single_loop ce a css (Suc idx) seen' (\<Sum>j \<in> insert j S. power_at (va_vals a) j) = Some None"
        using Cons.prems(2) False l v w32 t by (auto simp: Let_def split: if_splits)
      from Cons.IH [OF idx(3) this j(4) sub all] show ?thesis .
    qed
  qed
qed

section \<open>The entry points\<close>

text \<open>The facts about commit and validators that the callers establish.\<close>

definition commit_ok :: "Commit \<Rightarrow> bool" where
  "commit_ok c \<longleftrightarrow> Commit_ValidateBasic c = None \<and> 1 \<le> com_Height c \<and> int (length (com_Signatures c)) \<le> MaxInt32"

definition vals_ok :: "string \<Rightarrow> ValidatorSet \<Rightarrow> bool" where
  "vals_ok kt vals \<longleftrightarrow> vs_wf vals \<and> uniform_keys kt vals \<and> int (length (Validators vals)) \<le> MaxInt32"

lemma VerifyCommit_eq:
  assumes v: "vals_ok kt vals" and c: "commit_ok c" and bs: "batch_sound ce bl"
  shows "VerifyCommit ce bl chain (Some vals) b h (Some c) = Some None \<longleftrightarrow>
    length (Validators vals) = length (com_Signatures c) \<and> h = com_Height c \<and> b = com_BlockID c \<and>
    (\<forall>i < length (com_Signatures c). cs_BlockIDFlag (com_Signatures c ! i) \<noteq> BlockIDFlagAbsent \<longrightarrow>
       sig_valid ce chain vals c i i) \<and>
    2 * total_power (Validators vals) <
      3 * (\<Sum>i | i < length (com_Signatures c) \<and> cs_BlockIDFlag (com_Signatures c ! i) = BlockIDFlagCommit. power_at vals i)"
proof (cases "length (Validators vals) = length (com_Signatures c) \<and> h = com_Height c \<and> b = com_BlockID c")
  case False
  then show ?thesis by (auto simp: VerifyCommit_def verifyBasicValsAndCommit_def Size_def)
next
  case True
  let ?tvp = "total_power (Validators vals)"
  define a where "a = \<lparr>va_chain = chain, va_vals = vals, va_commit = c, va_needed = wrap64 (?tvp * 2) sdiv 3,
      va_ignore = (\<lambda>cs. cs_BlockIDFlag cs = BlockIDFlagAbsent), va_count = (\<lambda>cs. cs_BlockIDFlag cs = BlockIDFlagCommit),
      va_all = True, va_byIndex = True\<rparr>"
  have sel [simp]: "va_chain a = chain" "va_vals a = vals" "va_commit a = c" "va_needed a = wrap64 (?tvp * 2) sdiv 3"
    "va_ignore a = (\<lambda>cs. cs_BlockIDFlag cs = BlockIDFlagAbsent)" "va_count a = (\<lambda>cs. cs_BlockIDFlag cs = BlockIDFlagCommit)"
    "va_all a = True" "va_byIndex a = True"
    by (simp_all add: a_def)
  have wf: "vs_wf vals" using v by (simp add: vals_ok_def)
  have tvp: "0 \<le> ?tvp" "?tvp \<le> MaxTotalVotingPower" using vs_wf_total_pos [OF wf] wf by (auto simp: vs_wf_def)
  have valid: "CommitSig_ValidateBasic (com_Signatures c ! i) = None" if "i < length (com_Signatures c)" for i
    using commit_sigs_valid c that by (auto simp: commit_ok_def)
  have ok: "args_ok kt a"
    using v c needed_less_iff(2) [OF tvp] commit_sigs_valid by (auto simp: args_ok_def vals_ok_def commit_ok_def vs_wf_def)
  have cnt: "counted a 0 = {i. i < length (com_Signatures c) \<and> cs_BlockIDFlag (com_Signatures c ! i) = BlockIDFlagCommit}"
    by (auto simp: counted_def)
  have sub: "counted a 0 \<subseteq> {..<length (Validators vals)}" using True by (auto simp: cnt)
  have "VerifyCommit ce bl chain (Some vals) b h (Some c) = verify_signatures ce bl a"
    using True TotalVotingPower_wf [OF wf]
    by (simp add: VerifyCommit_def verifyBasicValsAndCommit_def Size_def a_def del: MaxTotalVotingPower_eq)
  then have "VerifyCommit ce bl chain (Some vals) b h (Some c) = Some None \<longleftrightarrow>
      single_loop ce a (drop 0 (com_Signatures (va_commit a))) 0 Map.empty 0 = Some None"
    using verify_signatures_single [OF ok bs] by (simp add: verifyCommitSingle_def)
  also have "\<dots> \<longleftrightarrow> (\<forall>i. 0 \<le> i \<longrightarrow> i < length (com_Signatures (va_commit a)) \<longrightarrow>
       \<not> va_ignore a (com_Signatures (va_commit a) ! i) \<longrightarrow>
       CommitSig_ValidateBasic (com_Signatures (va_commit a) ! i) = None \<and>
       sig_valid ce (va_chain a) (va_vals a) (va_commit a) i i) \<and>
    va_needed a < 0 + (\<Sum>i \<in> counted a 0. power_at (va_vals a) i)"
    using wf True c sum_power_le(2) [OF wf sub] by (intro single_all_iff) (simp_all add: commit_ok_def)
  also have "\<dots> \<longleftrightarrow> (\<forall>i < length (com_Signatures c). cs_BlockIDFlag (com_Signatures c ! i) \<noteq> BlockIDFlagAbsent \<longrightarrow>
       sig_valid ce chain vals c i i) \<and> 2 * ?tvp < 3 * (\<Sum>i \<in> counted a 0. power_at vals i)"
    using valid needed_less_iff(1) [OF tvp] by auto
  finally show ?thesis using True unfolding cnt by blast
qed

lemma VerifyCommitLight_sig:
  assumes v: "vals_ok kt vals" and c: "commit_ok c" and bs: "batch_sound ce bl"
    and acc: "verifyCommitLightInternal ce bl chain (Some vals) b h (Some c) every = Some None"
  shows "h = com_Height c \<and> b = com_BlockID c \<and> length (Validators vals) = length (com_Signatures c) \<and>
    (\<exists>S \<subseteq> {..<length (Validators vals)}.
      (\<forall>i \<in> S. sig_valid ce chain vals c i i \<and> cs_BlockIDFlag (com_Signatures c ! i) = BlockIDFlagCommit) \<and>
      2 * total_power (Validators vals) < 3 * (\<Sum>i \<in> S. power_at vals i))"
proof -
  let ?tvp = "total_power (Validators vals)"
  define a where "a = \<lparr>va_chain = chain, va_vals = vals, va_commit = c, va_needed = wrap64 (?tvp * 2) sdiv 3,
      va_ignore = (\<lambda>cs. cs_BlockIDFlag cs \<noteq> BlockIDFlagCommit), va_count = (\<lambda>cs. True),
      va_all = every, va_byIndex = True\<rparr>"
  have sel [simp]: "va_chain a = chain" "va_vals a = vals" "va_commit a = c" "va_needed a = wrap64 (?tvp * 2) sdiv 3"
    "va_ignore a = (\<lambda>cs. cs_BlockIDFlag cs \<noteq> BlockIDFlagCommit)" "va_count a = (\<lambda>cs. True)"
    "va_all a = every" "va_byIndex a = True"
    by (simp_all add: a_def)
  have wf: "vs_wf vals" using v by (simp add: vals_ok_def)
  have tvp: "0 \<le> ?tvp" "?tvp \<le> MaxTotalVotingPower" using vs_wf_total_pos [OF wf] wf by (auto simp: vs_wf_def)
  have basic: "h = com_Height c" "b = com_BlockID c" "length (Validators vals) = length (com_Signatures c)"
    using acc by (auto simp: verifyCommitLightInternal_def verifyBasicValsAndCommit_def Size_def split: if_splits)
  have ok: "args_ok kt a"
    using v c needed_less_iff(2) [OF tvp] commit_sigs_valid by (auto simp: args_ok_def vals_ok_def commit_ok_def vs_wf_def)
  have "verify_signatures ce bl a = Some None"
    using acc basic TotalVotingPower_wf [OF wf]
    by (simp add: verifyCommitLightInternal_def verifyBasicValsAndCommit_def Size_def a_def del: MaxTotalVotingPower_eq)
  then have "single_loop ce a (com_Signatures c) 0 Map.empty (\<Sum>j \<in> {}. power_at (va_vals a) j) = Some None"
    using verify_signatures_single [OF ok bs] by (simp add: verifyCommitSingle_def)
  then have "\<exists>S \<subseteq> {..<length (Validators (va_vals a))}. (\<forall>j \<in> S. signs_commit ce a j) \<and>
    va_needed a < (\<Sum>j \<in> S. power_at (va_vals a) j)"
    using v c by (intro single_sound [OF _ _ _ _ _ \<open>single_loop _ _ _ _ _ _ = _\<close>]) (auto simp: vals_ok_def commit_ok_def fresh_def)
  then show ?thesis using basic needed_less_iff(1) [OF tvp] unfolding sel signs_commit_def by auto
qed

lemma safeMul_nonneg:
  assumes "0 \<le> x" and "x \<le> MaxInt64" and "0 \<le> y" and "y \<le> MaxInt64" and "safeMul x y = (m, False)"
  shows "m = x * y" and "x * y \<le> MaxInt64"
proof -
  have "safeMul x y = (if \<bar>x * y\<bar> \<le> MaxInt64 then (x * y, False) else (0, True))"
    using assms(1-4) by (intro safeMul_spec) (auto simp: in64_def)
  then show "m = x * y" "x * y \<le> MaxInt64" using assms(1,3,5) by (auto split: if_splits)
qed

lemma le_div_iff_int: "0 < d \<Longrightarrow> p \<le> m div d \<longleftrightarrow> p * d \<le> m" for p m d :: int
proof
  assume "0 < d" and "p \<le> m div d"
  then have "p * d \<le> m div d * d" by (simp add: mult_right_mono)
  also have "\<dots> \<le> m" using \<open>0 < d\<close> by (simp add: minus_mod_eq_div_mult [symmetric])
  finally show "p * d \<le> m" .
next
  assume "0 < d" and "p * d \<le> m"
  then show "p \<le> m div d" using zdiv_mono1 [of "p * d" m d] by simp
qed

lemma VerifyCommitLightTrusting_sig:
  assumes v: "vals_ok kt vals" and c: "commit_ok c" and bs: "batch_sound ce bl"
    and num: "int (Numerator l) \<le> MaxInt64" and den: "int (Denominator l) \<le> MaxInt64"
    and acc: "verifyCommitLightTrustingInternal ce bl chain (Some vals) (Some c) l every = Some None"
  shows "\<exists>S \<subseteq> {..<length (Validators vals)}.
      (\<forall>j \<in> S. \<exists>i. sig_valid ce chain vals c i j \<and> cs_BlockIDFlag (com_Signatures c ! i) = BlockIDFlagCommit \<and>
         Address (Validators vals ! j) = cs_ValidatorAddress (com_Signatures c ! i)) \<and>
      total_power (Validators vals) * int (Numerator l) < (\<Sum>j \<in> S. power_at vals j) * int (Denominator l)"
proof -
  let ?tvp = "total_power (Validators vals)" and ?n = "int (Numerator l)" and ?d = "int (Denominator l)"
  have wf: "vs_wf vals" using v by (simp add: vals_ok_def)
  have tvp: "0 \<le> ?tvp" "?tvp \<le> MaxInt64" using vs_wf_total_pos [OF wf] wf by (auto simp: vs_wf_def)
  have w: "wrap64 ?n = ?n" "wrap64 ?d = ?d" using num den by (simp_all add: in64_def)
  obtain m where m: "safeMul ?tvp ?n = (m, False)" and d0: "0 < ?d"
    using acc TotalVotingPower_wf [OF wf] w
    by (auto simp: verifyCommitLightTrustingInternal_def split: if_splits prod.splits)
  note mul = safeMul_nonneg [OF tvp _ num m]
  have quo: "m sdiv ?d = m div ?d" "0 \<le> m div ?d" "m div ?d \<le> MaxInt64"
    using mul tvp d0 zdiv_mono2 [of m 1 ?d] by (auto simp: sdiv_nonneg pos_imp_zdiv_nonneg_iff)
  define a where "a = \<lparr>va_chain = chain, va_vals = vals, va_commit = c, va_needed = m div ?d,
      va_ignore = (\<lambda>cs. cs_BlockIDFlag cs \<noteq> BlockIDFlagCommit), va_count = (\<lambda>cs. True),
      va_all = every, va_byIndex = False\<rparr>"
  have sel [simp]: "va_chain a = chain" "va_vals a = vals" "va_commit a = c" "va_needed a = m div ?d"
    "va_ignore a = (\<lambda>cs. cs_BlockIDFlag cs \<noteq> BlockIDFlagCommit)" "va_count a = (\<lambda>cs. True)"
    "va_all a = every" "va_byIndex a = False"
    by (simp_all add: a_def)
  have ok: "args_ok kt a"
    using v c quo commit_sigs_valid by (auto simp: args_ok_def vals_ok_def commit_ok_def vs_wf_def)
  have "verify_signatures ce bl a = Some None"
    using acc d0 TotalVotingPower_wf [OF wf] m w quo
    by (simp add: verifyCommitLightTrustingInternal_def a_def in64_def del: MaxTotalVotingPower_eq)
  then have "single_loop ce a (com_Signatures c) 0 Map.empty (\<Sum>j \<in> {}. power_at (va_vals a) j) = Some None"
    using verify_signatures_single [OF ok bs] by (simp add: verifyCommitSingle_def)
  then have "\<exists>S \<subseteq> {..<length (Validators (va_vals a))}. (\<forall>j \<in> S. signs_commit ce a j) \<and>
    va_needed a < (\<Sum>j \<in> S. power_at (va_vals a) j)"
    using v c by (intro single_sound [OF _ _ _ _ _ \<open>single_loop _ _ _ _ _ _ = _\<close>]) (auto simp: vals_ok_def commit_ok_def fresh_def)
  then show ?thesis
    using le_div_iff_int [OF d0] mul(1) unfolding sel signs_commit_def by (auto simp: not_le [symmetric])
qed

section \<open>Commits made from vote sets\<close>

lemma those_nth:
  assumes "those (map f xs) = Some ys"
  shows "length ys = length xs \<and> (\<forall>i < length xs. f (xs ! i) = Some (ys ! i))"
  using assms
proof (induction xs arbitrary: ys)
  case Nil
  then show ?case by simp
next
  case (Cons x xs)
  then obtain y zs where "f x = Some y" "those (map f xs) = Some zs" "ys = y # zs"
    by (auto split: option.splits)
  then show ?case using Cons.IH [of zs] by (auto simp: nth_Cons split: nat.splits)
qed

text \<open>The signature that \<open>MakeExtendedCommit\<close> writes for a stored vote.\<close>

lemma extended_sig_cases:
  assumes "extended_sig_for maj p = Some e"
  shows "e = NewExtendedCommitSigAbsent \<and> (\<forall>v. p = Some v \<longrightarrow> vote_BlockID v \<noteq> maj) \<or>
    (\<exists>v. p = Some v \<and> cs_ValidatorAddress (ecs_CommitSig e) = vote_ValidatorAddress v \<and>
       cs_Timestamp (ecs_CommitSig e) = vote_Timestamp v \<and> cs_Signature (ecs_CommitSig e) = vote_Signature v \<and>
       (cs_BlockIDFlag (ecs_CommitSig e) = BlockIDFlagCommit \<and> vote_BlockID v = maj \<or>
        cs_BlockIDFlag (ecs_CommitSig e) = BlockIDFlagNil \<and> vote_BlockID v = zeroBlockID))"
  using assms
  by (cases p) (auto simp: extended_sig_for_def Vote_ExtendedCommitSig_def Vote_CommitSig_def BlockID_IsZero_iff
      split: if_splits bind_splits)

lemma vote_valid_fields:
  assumes "Vote_ValidateBasic v = None"
  shows "length (vote_ValidatorAddress v) = AddressSize" and "vote_Signature v \<noteq> []"
    and "length (vote_Signature v) \<le> MaxSignatureSize" and "1 \<le> vote_Height v" and "0 \<le> vote_Round v"
    and "BlockID_IsZero (vote_BlockID v) \<or> BlockID_IsComplete (vote_BlockID v)"
  using assms unfolding Vote_ValidateBasic_def by (simp_all split: if_split_asm)

lemma made_commit:
  assumes inv: "vset_inv ce vs" and ec: "MakeExtendedCommit enableHeight vs = Some ec"
    and vb: "\<forall>i v. i < num_validators vs \<longrightarrow> votes vs ! i = Some v \<longrightarrow> Vote_ValidateBasic v = None"
  shows "signedMsgType vs = PrecommitType \<and> maj23 vs = Some (ec_BlockID ec) \<and> ec_Height ec = height vs \<and>
    ec_Round ec = round vs \<and> length (ec_ExtendedSignatures ec) = num_validators vs \<and>
    (\<forall>i < num_validators vs. extended_sig_for (ec_BlockID ec) (votes vs ! i) = Some (ec_ExtendedSignatures ec ! i))"
proof -
  obtain maj sigs where m: "maj23 vs = Some maj" "signedMsgType vs = PrecommitType"
    "those (map (extended_sig_for maj) (votes vs)) = Some sigs"
    "ec = \<lparr>ec_Height = height vs, ec_Round = round vs, ec_BlockID = maj, ec_ExtendedSignatures = sigs\<rparr>"
    using ec by (auto simp: MakeExtendedCommit_def Let_def split: if_splits option.splits bind_splits)
  then show ?thesis using those_nth [OF m(3)] vset_invD(2) [OF inv] by simp
qed

lemma made_sig_valid:
  assumes inv: "vset_inv ce vs" and ec: "MakeExtendedCommit enableHeight vs = Some ec"
    and vb: "\<forall>i v. i < num_validators vs \<longrightarrow> votes vs ! i = Some v \<longrightarrow> Vote_ValidateBasic v = None"
    and i: "i < num_validators vs"
  shows "CommitSig_ValidateBasic (com_Signatures (ToCommit ec) ! i) = None"
    and "cs_BlockIDFlag (com_Signatures (ToCommit ec) ! i) \<noteq> BlockIDFlagAbsent \<Longrightarrow>
      sig_valid ce (chainID vs) (valSet vs) (ToCommit ec) i i"
proof -
  note m = made_commit [OF inv ec vb]
  let ?e = "ec_ExtendedSignatures ec ! i"
  have sig: "com_Signatures (ToCommit ec) ! i = ecs_CommitSig ?e" using m i by (simp add: ToCommit_def)
  have cases: "?e = NewExtendedCommitSigAbsent \<or>
    (\<exists>v. votes vs ! i = Some v \<and> cs_ValidatorAddress (ecs_CommitSig ?e) = vote_ValidatorAddress v \<and>
       cs_Timestamp (ecs_CommitSig ?e) = vote_Timestamp v \<and> cs_Signature (ecs_CommitSig ?e) = vote_Signature v \<and>
       (cs_BlockIDFlag (ecs_CommitSig ?e) = BlockIDFlagCommit \<and> vote_BlockID v = ec_BlockID ec \<or>
        cs_BlockIDFlag (ecs_CommitSig ?e) = BlockIDFlagNil \<and> vote_BlockID v = zeroBlockID))"
    using extended_sig_cases m i by blast
  have lens: "length (vote_ValidatorAddress v) = AddressSize" "vote_Signature v \<noteq> []" "length (vote_Signature v) \<le> MaxSignatureSize"
    if "votes vs ! i = Some v" for v
    using vote_valid_fields(1-3) vb i that by blast+
  show "CommitSig_ValidateBasic (com_Signatures (ToCommit ec) ! i) = None"
    unfolding sig using cases
  proof (elim disjE exE conjE)
    assume "?e = NewExtendedCommitSigAbsent"
    then show "CommitSig_ValidateBasic (ecs_CommitSig ?e) = None"
      by (simp add: CommitSig_ValidateBasic_def NewExtendedCommitSigAbsent_def NewCommitSigAbsent_def)
  qed (simp_all add: CommitSig_ValidateBasic_def lens not_less)
  assume "cs_BlockIDFlag (com_Signatures (ToCommit ec) ! i) \<noteq> BlockIDFlagAbsent"
  then have "?e \<noteq> NewExtendedCommitSigAbsent"
    unfolding sig by (auto simp: NewExtendedCommitSigAbsent_def NewCommitSigAbsent_def)
  with cases obtain v where v: "votes vs ! i = Some v" "cs_Timestamp (ecs_CommitSig ?e) = vote_Timestamp v"
      "cs_Signature (ecs_CommitSig ?e) = vote_Signature v"
      and flag: "cs_BlockIDFlag (ecs_CommitSig ?e) = BlockIDFlagCommit \<and> vote_BlockID v = ec_BlockID ec \<or>
        cs_BlockIDFlag (ecs_CommitSig ?e) = BlockIDFlagNil \<and> vote_BlockID v = zeroBlockID"
    by blast
  have b: "CommitSig_BlockID (ecs_CommitSig ?e) (ec_BlockID ec) = Some (vote_BlockID v)"
    using flag by (elim disjE conjE) (simp_all add: CommitSig_BlockID_def)
  obtain w where w: "Commit_GetVote (ToCommit ec) (int i) = Some w" "vote_Type w = PrecommitType"
      "vote_Height w = height vs" "vote_Round w = round vs" "vote_BlockID w = vote_BlockID v" "vote_Timestamp w = vote_Timestamp v"
    using m i v b by (simp add: Commit_GetVote_def slice_get_def ToCommit_def)
  have sgn: "signed_by ce vs i v" using vset_invD(5) [OF inv i v(1)] .
  then have "VoteSignBytes ce (chainID vs) w = VoteSignBytes ce (chainID vs) v"
    using m w by (intro VoteSignBytes_cong) (auto simp: signed_by_def)
  then show "sig_valid ce (chainID vs) (valSet vs) (ToCommit ec) i i"
    using sgn m i v sig w
    by (auto simp: sig_valid_def signed_by_def Vote_Verify_def Commit_VoteSignBytes_def ToCommit_def split: if_splits bind_splits)
qed

lemma made_supporters:
  assumes inv: "vset_inv ce vs" and ec: "MakeExtendedCommit enableHeight vs = Some ec"
    and vb: "\<forall>i v. i < num_validators vs \<longrightarrow> votes vs ! i = Some v \<longrightarrow> Vote_ValidateBasic v = None"
    and b: "BlockID_IsComplete (ec_BlockID ec)"
  shows "supporters vs (BlockID_Key (ec_BlockID ec)) \<subseteq>
    {i. i < num_validators vs \<and> cs_BlockIDFlag (com_Signatures (ToCommit ec) ! i) = BlockIDFlagCommit}"
proof
  fix i
  assume "i \<in> supporters vs (BlockID_Key (ec_BlockID ec))"
  then obtain v where v: "i < num_validators vs" "votes vs ! i = Some v" "BlockID_Key (vote_BlockID v) = BlockID_Key (ec_BlockID ec)"
    by (auto simp: supporters_def)
  note m = made_commit [OF inv ec vb]
  have "vote_BlockID v = ec_BlockID ec" using vote_valid_fields(6) vb v b by (intro BlockID_Key_inj) auto
  then have "cs_BlockIDFlag (ecs_CommitSig e) = BlockIDFlagCommit" if "extended_sig_for (ec_BlockID ec) (Some v) = Some e" for e
    using b that by (auto simp: extended_sig_for_def Vote_ExtendedCommitSig_def Vote_CommitSig_def split: bind_splits)
  then have "cs_BlockIDFlag (ecs_CommitSig (ec_ExtendedSignatures ec ! i)) = BlockIDFlagCommit"
    using m v by metis
  then show "i \<in> {i. i < num_validators vs \<and> cs_BlockIDFlag (com_Signatures (ToCommit ec) ! i) = BlockIDFlagCommit}"
    using v(1) m by (simp add: ToCommit_def)
qed

section \<open>Properties\<close>

text \<open>Two ed25519 validators; a signature is the start of the key followed by the message.\<close>

definition ed_env :: ext_env where
  "ed_env = \<lparr>pkAddress = (\<lambda>k. take 20 (pk_bytes k)),
     pkVerify = (\<lambda>k m s. length (pk_bytes k) = 32 \<and> s = take 64 (pk_bytes k @ m @ replicate 64 0)),
     stdTimeMarshal = (\<lambda>t. if t < 0 then None else Some (replicate (nat t) 1))\<rparr>"

definition ed_lib :: batch_lib where
  "ed_lib = \<lparr>batchVerify = (\<lambda>es. (\<forall>(k, m, s) \<in> set es. pkVerify ed_env k m s, map (\<lambda>(k, m, s). pkVerify ed_env k m s) es)),
     srKeyDecodes = (\<lambda>k. length k = 32), srSigDecodes = (\<lambda>s. length s = 64)\<rparr>"

lemma ed_batch_sound: "batch_sound ed_env ed_lib"
  by (auto simp: batch_sound_def ed_lib_def ed_env_def)

definition ed_validator :: "8 word \<Rightarrow> int \<Rightarrow> Validator" where
  "ed_validator a p =
     \<lparr>Address = replicate 20 a, val_PubKey = Some \<lparr>pk_type = ''ed25519'', pk_bytes = replicate 32 a\<rparr>,
      VotingPower = p, ProposerPriority = 0\<rparr>"

definition ed_vals :: ValidatorSet where
  "ed_vals = \<lparr>Validators = [ed_validator 2 2, ed_validator 1 1], Proposer = None,
     totalVotingPower = 3, allKeysHaveSameType = True\<rparr>"

definition ed_vote :: "8 word \<Rightarrow> int \<Rightarrow> Vote" where
  "ed_vote a i =
     (let v = (demo_vote PrecommitType 0)\<lparr>vote_ValidatorAddress := replicate 20 a, vote_ValidatorIndex := i\<rparr>
      in v\<lparr>vote_Signature := take 64 (replicate 32 a @ the (VoteSignBytes ed_env [7] v) @ replicate 64 0)\<rparr>)"

definition ed_vset0 :: VoteSet where
  "ed_vset0 = the (NewVoteSet [7] 1 0 PrecommitType ed_vals)"

definition ed_vset :: VoteSet where
  "ed_vset = fst (the (addVote ed_env (fst (the (addVote ed_env ed_vset0 (Some (ed_vote 2 0))))) (Some (ed_vote 1 1))))"

definition ed_commit :: Commit where
  "ed_commit = ToCommit (the (MakeExtendedCommit 0 ed_vset))"

definition ed_args :: verify_args where
  "ed_args = \<lparr>va_chain = [7], va_vals = ed_vals, va_commit = ed_commit, va_needed = 2,
     va_ignore = (\<lambda>cs. cs_BlockIDFlag cs = BlockIDFlagAbsent), va_count = (\<lambda>cs. cs_BlockIDFlag cs = BlockIDFlagCommit),
     va_all = True, va_byIndex = True\<rparr>"

lemma ed_uniform: "uniform_keys ''ed25519'' ed_vals"
  by (auto simp: uniform_keys_def ed_vals_def ed_validator_def)

lemma ed_vals_ok: "vals_ok ''ed25519'' ed_vals"
proof -
  have "vs_wf ed_vals" "int (length (Validators ed_vals)) \<le> MaxInt32" by code_simp+
  then show ?thesis using ed_uniform by (simp add: vals_ok_def)
qed

lemma ed_reach: "vset_reach ed_env ed_vset"
proof -
  have "NewVoteSet [7] 1 0 PrecommitType ed_vals = Some ed_vset0"
    by (simp add: ed_vset0_def NewVoteSet_def)
  then have r0: "vset_reach ed_env ed_vset0" using ed_vals_ok by (auto simp: vals_ok_def intro: vset_reach.new)
  have step: "vset_reach ed_env vs \<Longrightarrow> addVote ed_env vs p \<noteq> None \<Longrightarrow> vset_reach ed_env (fst (the (addVote ed_env vs p)))" for vs p
    by (cases "addVote ed_env vs p") (auto intro: vset_reach.add)
  show ?thesis unfolding ed_vset_def by (intro step r0; code_simp)
qed

lemma ed_made: "MakeExtendedCommit 0 ed_vset = Some (the (MakeExtendedCommit 0 ed_vset))"
  and ed_commit_ok: "commit_ok ed_commit"
  and ed_sigs: "com_Signatures (va_commit ed_args) = com_Signatures ed_commit"
  and ed_all_valid: "list_all (\<lambda>v. case v of None \<Rightarrow> True | Some v \<Rightarrow> Vote_ValidateBasic v = None) (votes ed_vset)"
  by code_simp+

lemma ed_args_ok: "args_ok ''ed25519'' ed_args"
proof -
  have "\<forall>cs \<in> set (com_Signatures ed_commit). CommitSig_ValidateBasic cs = None" by code_simp
  then show ?thesis using ed_uniform by (simp add: args_ok_def ed_args_def) (simp add: ed_vals_def)
qed

text \<open>C16. Batch verification accepts exactly the commits that verification one signature at a time
  accepts, when the looked-at signatures passed the basic validation, the keys have one type and the
  batch algorithm of the library is sound.\<close>

theorem verifyCommitBatch_equivalent:
  assumes "args_ok kt a" and "batch_sound ce bl" and "kt = ''ed25519'' \<or> kt = ''sr25519''"
    and "2 \<le> length (com_Signatures (va_commit a))"
  shows "verifyCommitBatch ce bl a = Some None \<longleftrightarrow> verifyCommitSingle ce a = Some None"
  using verifyCommitBatch_single [OF assms] .

theorem verifyCommitBatch_equivalent_witness:
  "verifyCommitBatch ed_env ed_lib ed_args = Some None \<and> verifyCommitSingle ed_env ed_args = Some None"
proof -
  have "verifyCommitSingle ed_env ed_args = Some None" "2 \<le> length (com_Signatures (va_commit ed_args))"
    by code_simp+
  then show ?thesis using verifyCommitBatch_equivalent [OF ed_args_ok ed_batch_sound] by simp
qed

text \<open>C6. \<open>VerifyCommit\<close> accepts a validated commit exactly when it is for the given height and block,
  has a slot for every validator, every signature that is present is valid for the validator of
  its slot, and the validators that signed the block hold more than two thirds of the power.\<close>

theorem VerifyCommit_iff:
  assumes "vals_ok kt vals" and "commit_ok c" and "batch_sound ce bl"
  shows "VerifyCommit ce bl chain (Some vals) b h (Some c) = Some None \<longleftrightarrow>
    length (Validators vals) = length (com_Signatures c) \<and> h = com_Height c \<and> b = com_BlockID c \<and>
    (\<forall>i < length (com_Signatures c). cs_BlockIDFlag (com_Signatures c ! i) \<noteq> BlockIDFlagAbsent \<longrightarrow>
       sig_valid ce chain vals c i i) \<and>
    2 * total_power (Validators vals) <
      3 * (\<Sum>i | i < length (com_Signatures c) \<and> cs_BlockIDFlag (com_Signatures c ! i) = BlockIDFlagCommit. power_at vals i)"
  using VerifyCommit_eq [OF assms] .

theorem VerifyCommit_iff_witness:
  "VerifyCommit ed_env ed_lib [7] (Some ed_vals) demo_block 1 (Some ed_commit) = Some None \<and>
   sig_valid ed_env [7] ed_vals ed_commit 0 0"
proof -
  have acc: "VerifyCommit ed_env ed_lib [7] (Some ed_vals) demo_block 1 (Some ed_commit) = Some None"
    "0 < length (com_Signatures ed_commit)" "cs_BlockIDFlag (com_Signatures ed_commit ! 0) \<noteq> BlockIDFlagAbsent"
    by code_simp+
  then show ?thesis using VerifyCommit_iff [OF ed_vals_ok ed_commit_ok ed_batch_sound] by blast
qed

text \<open>C15. When \<open>VerifyCommitLightTrusting\<close> accepts, different members of the trusted set with more
  than the trust level of its power signed the commit, whatever set the commit was made by.\<close>

theorem VerifyCommitLightTrusting_sound:
  assumes "vals_ok kt vals" and "commit_ok c" and "batch_sound ce bl"
    and "int (Numerator l) \<le> MaxInt64" and "int (Denominator l) \<le> MaxInt64"
    and "VerifyCommitLightTrusting ce bl chain (Some vals) (Some c) l = Some None"
  shows "\<exists>S \<subseteq> {..<length (Validators vals)}.
      (\<forall>j \<in> S. \<exists>i. sig_valid ce chain vals c i j \<and> cs_BlockIDFlag (com_Signatures c ! i) = BlockIDFlagCommit \<and>
         Address (Validators vals ! j) = cs_ValidatorAddress (com_Signatures c ! i)) \<and>
      total_power (Validators vals) * int (Numerator l) < (\<Sum>j \<in> S. power_at vals j) * int (Denominator l)"
  using VerifyCommitLightTrusting_sig [OF assms(1-5)] assms(6) unfolding VerifyCommitLightTrusting_def .

theorem VerifyCommitLightTrusting_sound_witness:
  "\<exists>S \<subseteq> {..<length (Validators ed_vals)}.
      (\<forall>j \<in> S. \<exists>i. sig_valid ed_env [7] ed_vals ed_commit i j \<and>
         cs_BlockIDFlag (com_Signatures ed_commit ! i) = BlockIDFlagCommit \<and>
         Address (Validators ed_vals ! j) = cs_ValidatorAddress (com_Signatures ed_commit ! i)) \<and>
      total_power (Validators ed_vals) * 1 < (\<Sum>j \<in> S. power_at ed_vals j) * 3"
proof -
  have "VerifyCommitLightTrusting ed_env ed_lib [7] (Some ed_vals) (Some ed_commit) \<lparr>Numerator = 1, Denominator = 3\<rparr> = Some None"
    by code_simp
  from VerifyCommitLightTrusting_sound [OF ed_vals_ok ed_commit_ok ed_batch_sound _ _ this]
  show ?thesis by simp
qed

text \<open>C7. The commit made from a vote set with a majority for a block, over votes that passed the basic
  validation, is valid and is accepted by \<open>VerifyCommit\<close> for the chain, validators, height and
  block of the set.\<close>

theorem MakeExtendedCommit_verifies:
  assumes "vset_reach ce vs" and "MakeExtendedCommit enableHeight vs = Some ec"
    and "\<forall>i v. i < num_validators vs \<longrightarrow> votes vs ! i = Some v \<longrightarrow> Vote_ValidateBasic v = None"
    and "BlockID_IsComplete (ec_BlockID ec)" and "1 \<le> height vs" and "0 \<le> round vs"
    and "vals_ok kt (valSet vs)" and "batch_sound ce bl"
  shows "Commit_ValidateBasic (ToCommit ec) = None \<and>
    VerifyCommit ce bl (chainID vs) (Some (valSet vs)) (ec_BlockID ec) (height vs) (Some (ToCommit ec)) = Some None"
proof -
  note inv = vset_reach_inv [OF assms(1)]
  note m = made_commit [OF inv assms(2,3)] and sigs = made_sig_valid [OF inv assms(2,3)]
  let ?c = "ToCommit ec"
  have len: "length (com_Signatures ?c) = num_validators vs" using m by (simp add: ToCommit_def)
  have ne: "Validators (valSet vs) \<noteq> []" using assms(7) by (simp add: vals_ok_def vs_wf_def)
  have "CommitSig_ValidateBasic cs = None" if "cs \<in> set (com_Signatures ?c)" for cs
    using that sigs(1) len by (auto simp: in_set_conv_nth)
  then have vb: "Commit_ValidateBasic ?c = None"
    using m assms(4-6) len ne by (simp add: Commit_ValidateBasic_def first_bad_sig_None) (simp add: ToCommit_def complete_not_zero)
  then have ok: "commit_ok ?c"
    using assms(5,7) len m by (simp add: commit_ok_def vals_ok_def) (simp add: ToCommit_def)
  let ?C = "{i. i < length (com_Signatures ?c) \<and> cs_BlockIDFlag (com_Signatures ?c ! i) = BlockIDFlagCommit}"
  have "vq.is_quorum (valSet vs) ?C"
    using made_supporters [OF inv assms(2,3,4)] m len
    by (intro vq.quorum_mono [OF vset_invD(1) [OF inv] maj23_quorum [OF inv]]) auto
  moreover have "?C \<inter> val_indices (valSet vs) = ?C" using len by (auto simp: val_indices_def)
  ultimately have "2 * total_power (Validators (valSet vs)) < 3 * (\<Sum>i \<in> ?C. power_at (valSet vs) i)"
    using weight_of_all [OF vset_invD(1) [OF inv]] by (simp add: vq.is_quorum_def vq.weight_of_def val_power_def)
  then show ?thesis
    unfolding VerifyCommit_eq [OF assms(7) ok assms(8)] using vb sigs(2) m len by (auto simp: ToCommit_def)
qed

theorem MakeExtendedCommit_verifies_witness:
  "VerifyCommit ed_env ed_lib [7] (Some ed_vals) demo_block 1 (Some ed_commit) = Some None"
proof -
  have "\<forall>i v. i < num_validators ed_vset \<longrightarrow> votes ed_vset ! i = Some v \<longrightarrow> Vote_ValidateBasic v = None"
  proof (intro allI impI)
    fix i v
    assume "i < num_validators ed_vset" and "votes ed_vset ! i = Some v"
    moreover have "length (votes ed_vset) = num_validators ed_vset" by code_simp
    ultimately show "Vote_ValidateBasic v = None" using ed_all_valid by (force simp: list_all_length)
  qed
  moreover have sel: "chainID ed_vset = [7]" "valSet ed_vset = ed_vals" "height ed_vset = 1" "round ed_vset = 0"
    "ec_BlockID (the (MakeExtendedCommit 0 ed_vset)) = demo_block" "BlockID_IsComplete demo_block"
    by code_simp+
  ultimately show ?thesis
    using MakeExtendedCommit_verifies [OF ed_reach ed_made _ _ _ _ _ ed_batch_sound, of "''ed25519''"] ed_vals_ok
    by (simp add: ed_commit_def)
qed

end
