(* ===== verification/Sha256.thy ===== *)
theory Sha256
  imports Prelude
begin

text \<open>
  SHA-256, the hash of \<open>crypto/tmhash/hash.go\<close> (\<open>Sum\<close>, \<open>SumMany\<close>, \<open>SumTruncated\<close>) from the standard
  library of Go, after FIPS 180-4. The components below are stated for an arbitrary hash function
  with results of 32 bytes, and this one is such a function.
\<close>

unbundle bit_operations_syntax

text \<open>
  The constants of the standard, by the rule it gives for them: the first 32 bits of the fractional
  parts of the cube roots of the first 64 primes, and of the square roots of the first eight. The
  root of \<open>n\<close> is found bit by bit; \<open>b\<close> is the number of bits still to decide and \<open>r\<close> the root so far.
\<close>

fun root_bits :: "nat \<Rightarrow> nat \<Rightarrow> nat \<Rightarrow> nat \<Rightarrow> nat" where
  "root_bits k n 0 r = r"
| "root_bits k n (Suc b) r = (let r' = r + 2 ^ b in root_bits k n b (if r' ^ k \<le> n then r' else r))"

definition sha_primes :: "nat list" where
  "sha_primes = filter (\<lambda>p. list_all (\<lambda>d. p mod d \<noteq> 0) [2..<p]) [2..<312]"

definition root_fraction :: "nat \<Rightarrow> nat \<Rightarrow> 32 word" where
  "root_fraction k p = word_of_nat (root_bits k (p * 2 ^ (32 * k)) 40 0)"

definition sha_k :: "32 word list" where
  "sha_k = map (root_fraction 3) sha_primes"

record sha_state =
  sa :: "32 word"
  sb :: "32 word"
  sc :: "32 word"
  sd :: "32 word"
  se :: "32 word"
  sf :: "32 word"
  sg :: "32 word"
  sh :: "32 word"

definition sha_init :: sha_state where
  "sha_init = (let h = map (root_fraction 2) (take 8 sha_primes)
     in \<lparr>sa = h ! 0, sb = h ! 1, sc = h ! 2, sd = h ! 3, se = h ! 4, sf = h ! 5, sg = h ! 6, sh = h ! 7\<rparr>)"

definition rotr :: "nat \<Rightarrow> 32 word \<Rightarrow> 32 word" where
  "rotr n x = drop_bit n x OR push_bit (32 - n) x"

definition small0 :: "32 word \<Rightarrow> 32 word" where
  "small0 x = rotr 7 x XOR rotr 18 x XOR drop_bit 3 x"

definition small1 :: "32 word \<Rightarrow> 32 word" where
  "small1 x = rotr 17 x XOR rotr 19 x XOR drop_bit 10 x"

definition big0 :: "32 word \<Rightarrow> 32 word" where
  "big0 x = rotr 2 x XOR rotr 13 x XOR rotr 22 x"

definition big1 :: "32 word \<Rightarrow> 32 word" where
  "big1 x = rotr 6 x XOR rotr 11 x XOR rotr 25 x"

text \<open>The schedule keeps the last sixteen words, the most recent one first.\<close>

fun schedule :: "nat \<Rightarrow> 32 word list \<Rightarrow> 32 word list \<Rightarrow> 32 word list" where
  "schedule 0 win acc = rev acc"
| "schedule (Suc n) win acc =
     (let w = small1 (win ! 1) + win ! 6 + small0 (win ! 14) + win ! 15
      in schedule n (w # butlast win) (w # acc))"

definition sha_round :: "sha_state \<Rightarrow> 32 word \<times> 32 word \<Rightarrow> sha_state" where
  "sha_round s kw =
     (case kw of (k, w) \<Rightarrow>
        let t1 = sh s + big1 (se s) + ((se s AND sf s) XOR (NOT (se s) AND sg s)) + k + w;
            t2 = big0 (sa s) + ((sa s AND sb s) XOR (sa s AND sc s) XOR (sb s AND sc s))
        in \<lparr>sa = t1 + t2, sb = sa s, sc = sb s, sd = sc s, se = sd s + t1, sf = se s, sg = sf s, sh = sg s\<rparr>)"

fun be_word :: "bytes \<Rightarrow> 32 word" where
  "be_word bs = fold (\<lambda>b acc. push_bit 8 acc OR ucast b) bs 0"

definition be_bytes :: "32 word \<Rightarrow> bytes" where
  "be_bytes w = [ucast (drop_bit 24 w), ucast (drop_bit 16 w), ucast (drop_bit 8 w), ucast w]"

fun chunks :: "nat \<Rightarrow> 'a list \<Rightarrow> 'a list list" where
  "chunks n xs = (if xs = [] \<or> n = 0 then [] else take n xs # chunks n (drop n xs))"

declare chunks.simps [simp del]

definition sha_block :: "sha_state \<Rightarrow> bytes \<Rightarrow> sha_state" where
  "sha_block s blk =
     (let ws = map be_word (chunks 4 blk);
          full = ws @ schedule 48 (rev ws) [];
          r = foldl sha_round s (zip sha_k full)
      in \<lparr>sa = sa s + sa r, sb = sb s + sb r, sc = sc s + sc r, sd = sd s + sd r,
          se = se s + se r, sf = sf s + sf r, sg = sg s + sg r, sh = sh s + sh r\<rparr>)"

definition len_bytes :: "nat \<Rightarrow> bytes" where
  "len_bytes n = map (\<lambda>i. ucast (drop_bit i (word_of_nat n :: 64 word))) [56, 48, 40, 32, 24, 16, 8, 0]"

definition sha_pad :: "bytes \<Rightarrow> bytes" where
  "sha_pad m = m @ [0x80] @ replicate ((119 - length m mod 64) mod 64) 0 @ len_bytes (8 * length m)"

definition sha256 :: "bytes \<Rightarrow> bytes" where
  "sha256 m =
     (let s = foldl sha_block sha_init (chunks 64 (sha_pad m))
      in concat (map be_bytes [sa s, sb s, sc s, sd s, se s, sf s, sg s, sh s]))"

lemma length_sha256 [simp]: "length (sha256 m) = 32"
  by (simp add: sha256_def Let_def be_bytes_def)

end
