(* ===== verification/Merkle.thy ===== *)
theory Merkle
  imports Sha256
begin

text \<open>
  Merkle trees and inclusion proofs: \<open>crypto/merkle/tree.go\<close>, \<open>hash.go\<close> and \<open>proof.go\<close>. The hash
  function \<open>H\<close> is an argument of every definition; the program uses \<open>sha256\<close>. The pointers of
  a \<open>ProofNode\<close> to its parent are modelled by the chain of nodes from a leaf to the root.
\<close>

section \<open>Hashing\<close>

definition emptyHash :: "(bytes \<Rightarrow> bytes) \<Rightarrow> bytes" where
  "emptyHash H = H []"

definition leafHash :: "(bytes \<Rightarrow> bytes) \<Rightarrow> bytes \<Rightarrow> bytes" where
  "leafHash H leaf = H (0 # leaf)"

definition innerHash :: "(bytes \<Rightarrow> bytes) \<Rightarrow> bytes \<Rightarrow> bytes \<Rightarrow> bytes" where
  "innerHash H left right = H (1 # left @ right)"

text \<open>\<open>bits.Len\<close>: the number of bits of an unsigned integer.\<close>

fun bits_Len :: "nat \<Rightarrow> nat" where
  "bits_Len n = (if n = 0 then 0 else Suc (bits_Len (n div 2)))"

declare bits_Len.simps [simp del]

text \<open>\<open>None\<close> is the panic on a size below one.\<close>

definition getSplitPoint :: "int \<Rightarrow> int option" where
  "getSplitPoint len =
     (if len < 1 then None
      else let k = 2 ^ (bits_Len (nat len) - 1)
           in Some (if k = len then k div 2 else k))"

text \<open>The split of a slice, whose length is never below one when it is called.\<close>

definition split_nat :: "nat \<Rightarrow> nat" where
  "split_nat n = nat (the (getSplitPoint (int n)))"

lemma bits_Len_bounds: "0 < n \<Longrightarrow> 2 ^ (bits_Len n - 1) \<le> n \<and> n < 2 ^ bits_Len n \<and> 0 < bits_Len n"
proof (induction n rule: bits_Len.induct)
  case (1 n)
  show ?case
  proof (cases "n div 2 = 0")
    case True
    then show ?thesis using 1 by (simp add: bits_Len.simps [of n] bits_Len.simps [of 0])
  next
    case False
    then have "2 ^ (bits_Len (n div 2) - 1) \<le> n div 2" "n div 2 < 2 ^ bits_Len (n div 2)" "0 < bits_Len (n div 2)"
      using 1 by auto
    then show ?thesis using 1(2) by (cases "bits_Len (n div 2)") (auto simp: bits_Len.simps [of n])
  qed
qed

text \<open>The split point is the largest power of two below the size.\<close>

lemma split_point:
  assumes "2 \<le> n"
  shows "\<exists>e. getSplitPoint (int n) = Some (2 ^ e) \<and> 2 ^ e < n \<and> n \<le> 2 * 2 ^ e"
proof -
  obtain b where b: "bits_Len n = Suc b" "2 ^ b \<le> n" "n < 2 * 2 ^ b"
    using bits_Len_bounds [of n] assms by (cases "bits_Len n") auto
  show ?thesis
  proof (cases "2 ^ b = n")
    case True
    then obtain c where c: "b = Suc c" using assms by (cases b) auto
    then have "(2::int) ^ Suc c = int n" using True by (metis of_nat_numeral of_nat_power)
    then show ?thesis using assms b(1) c True
      by (intro exI [of _ c]) (auto simp: getSplitPoint_def Let_def)
  next
    case False
    then have "(2::int) ^ b \<noteq> int n" by (metis of_nat_eq_iff of_nat_numeral of_nat_power)
    then show ?thesis using assms b False by (intro exI [of _ b]) (auto simp: getSplitPoint_def Let_def)
  qed
qed

lemma split_nat_bounds: "2 \<le> n \<Longrightarrow> 0 < split_nat n \<and> split_nat n < n"
  using split_point [of n] by (auto simp: split_nat_def nat_power_eq)

function hashFromByteSlices :: "(bytes \<Rightarrow> bytes) \<Rightarrow> bytes list \<Rightarrow> bytes" where
  "hashFromByteSlices H items =
     (case items of
        [] \<Rightarrow> emptyHash H
      | [x] \<Rightarrow> leafHash H x
      | _ \<Rightarrow>
          let k = split_nat (length items);
              left = hashFromByteSlices H (take k items);
              right = hashFromByteSlices H (drop k items)
          in innerHash H left right)"
  by pat_completeness auto
termination
proof (relation "measure (\<lambda>(H, items). length items)", goal_cases)
  case 1
  then show ?case by simp
next
  case (2 H items x xs y ys k)
  then show ?case using split_nat_bounds [of "length items"] by auto
next
  case (3 H items x xs y ys k left)
  then show ?case using split_nat_bounds [of "length items"] by auto
qed

declare hashFromByteSlices.simps [simp del]

definition HashFromByteSlices :: "(bytes \<Rightarrow> bytes) \<Rightarrow> bytes list \<Rightarrow> bytes" where
  "HashFromByteSlices H items = hashFromByteSlices H items"

text \<open>
  The iterative version overwrites its array in place: \<open>rp\<close> is the read and \<open>wp\<close> the write
  position. The inner loop returns the array and the new size.
\<close>

function level_loop :: "(bytes \<Rightarrow> bytes) \<Rightarrow> nat \<Rightarrow> bytes list \<Rightarrow> nat \<Rightarrow> nat \<Rightarrow> bytes list \<times> nat" where
  "level_loop H sz items rp wp =
     (if rp < sz
      then if rp + 1 < sz
           then level_loop H sz (items[wp := innerHash H (items ! rp) (items ! (rp + 1))]) (rp + 2) (wp + 1)
           else level_loop H sz (items[wp := items ! rp]) (rp + 1) (wp + 1)
      else (items, wp))"
  by pat_completeness auto
termination by (relation "measure (\<lambda>(H, sz, items, rp, wp). sz - rp)") auto

declare level_loop.simps [simp del]

lemma level_loop_size:
  "snd (level_loop H sz items rp wp) = wp + (if rp < sz then (sz - rp + 1) div 2 else 0)"
proof (induction H sz items rp wp rule: level_loop.induct)
  case (1 H sz items rp wp)
  consider "\<not> rp < sz" | "rp < sz" "\<not> rp + 1 < sz" | "rp + 1 < sz" by linarith
  then show ?case
  proof cases
    case 2
    then have "sz = rp + 1" by simp
    then show ?thesis using 1 by (simp add: level_loop.simps [of H "Suc rp" items rp wp])
  next
    case 3
    then show ?thesis using 1(1) by (simp add: level_loop.simps [of H sz items rp wp]) linarith
  qed (simp add: level_loop.simps)
qed

function levels_loop :: "(bytes \<Rightarrow> bytes) \<Rightarrow> bytes list \<Rightarrow> nat \<Rightarrow> bytes" where
  "levels_loop H items sz =
     (if sz = 0 then emptyHash H
      else if sz = 1 then items ! 0
      else let (items', wp) = level_loop H sz items 0 0 in levels_loop H items' wp)"
  by pat_completeness auto
termination
proof (relation "measure (\<lambda>(H, items, sz). sz)", goal_cases)
  case 1
  then show ?case by simp
next
  case (2 H items sz p items' wp)
  then have eq: "level_loop H sz items 0 0 = (items', wp)" by simp
  have "wp = (sz + 1) div 2" using level_loop_size [of H sz items 0 0] 2(1) unfolding eq by simp
  then show ?case using 2 eq by simp
qed

declare levels_loop.simps [simp del]

definition HashFromByteSlicesIterative :: "(bytes \<Rightarrow> bytes) \<Rightarrow> bytes list \<Rightarrow> bytes" where
  "HashFromByteSlicesIterative H input = levels_loop H (map (leafHash H) input) (length input)"

section \<open>Proofs\<close>

record Proof =
  prf_Total :: int
  prf_Index :: int
  prf_LeafHash :: bytes
  prf_Aunts :: "bytes list"

datatype merkle_error =
    NilRootHash | NegativeTotal | NegativeIndexMerkle | InvalidLeafHash | InvalidRootHash
  | InvalidIndexOrTotal | UnexpectedInnerHashes | ExpectedInnerHash
  | LeafHashSize | TooManyAunts | AuntSize nat

function computeHashFromAunts :: "(bytes \<Rightarrow> bytes) \<Rightarrow> int \<Rightarrow> int \<Rightarrow> bytes \<Rightarrow> bytes list \<Rightarrow> merkle_error + bytes" where
  "computeHashFromAunts H index tot leaf innerHashes =
     (if index \<ge> tot \<or> index < 0 \<or> tot \<le> 0 then Inl InvalidIndexOrTotal
      else if tot = 1
      then (if innerHashes \<noteq> [] then Inl UnexpectedInnerHashes else Inr leaf)
      else if innerHashes = [] then Inl ExpectedInnerHash
      else let numLeft = the (getSplitPoint tot)
           in if index < numLeft
              then (case computeHashFromAunts H index numLeft leaf (butlast innerHashes) of
                      Inl e \<Rightarrow> Inl e
                    | Inr leftHash \<Rightarrow> Inr (innerHash H leftHash (last innerHashes)))
              else (case computeHashFromAunts H (index - numLeft) (tot - numLeft) leaf (butlast innerHashes) of
                      Inl e \<Rightarrow> Inl e
                    | Inr rightHash \<Rightarrow> Inr (innerHash H (last innerHashes) rightHash)))"
  by pat_completeness auto
termination by (relation "measure (\<lambda>(H, index, tot, leaf, hs). length hs)") auto

declare computeHashFromAunts.simps [simp del]

definition computeRootHash :: "(bytes \<Rightarrow> bytes) \<Rightarrow> Proof \<Rightarrow> merkle_error + bytes" where
  "computeRootHash H sp = computeHashFromAunts H (prf_Index sp) (prf_Total sp) (prf_LeafHash sp) (prf_Aunts sp)"

definition Proof_Verify :: "(bytes \<Rightarrow> bytes) \<Rightarrow> Proof \<Rightarrow> bytes option \<Rightarrow> bytes \<Rightarrow> merkle_error option" where
  "Proof_Verify H sp rootHash leaf =
     (case rootHash of
        None \<Rightarrow> Some NilRootHash
      | Some root \<Rightarrow>
          if prf_Total sp < 0 then Some NegativeTotal
          else if prf_Index sp < 0 then Some NegativeIndexMerkle
          else if prf_LeafHash sp \<noteq> leafHash H leaf then Some InvalidLeafHash
          else (case computeRootHash H sp of
                  Inl e \<Rightarrow> Some e
                | Inr computed \<Rightarrow> if computed \<noteq> root then Some InvalidRootHash else None))"

abbreviation MaxAunts :: nat where "MaxAunts \<equiv> 100"

fun first_bad_aunt :: "bytes list \<Rightarrow> nat \<Rightarrow> merkle_error option" where
  "first_bad_aunt [] i = None"
| "first_bad_aunt (a # as) i = (if length a \<noteq> 32 then Some (AuntSize i) else first_bad_aunt as (Suc i))"

definition Proof_ValidateBasic :: "Proof \<Rightarrow> merkle_error option" where
  "Proof_ValidateBasic sp =
     (if prf_Total sp < 0 then Some NegativeTotal
      else if prf_Index sp < 0 then Some NegativeIndexMerkle
      else if length (prf_LeafHash sp) \<noteq> 32 then Some LeafHashSize
      else if length (prf_Aunts sp) > MaxAunts then Some TooManyAunts
      else first_bad_aunt (prf_Aunts sp) 0)"

subsection \<open>Construction\<close>

record ProofNode =
  pn_Hash :: bytes
  pn_Left :: "bytes option"
  pn_Right :: "bytes option"

text \<open>A trail is the chain from a leaf through the parents to the root.\<close>

type_synonym trail = "ProofNode list"

definition set_Left :: "bytes \<Rightarrow> trail \<Rightarrow> trail" where
  "set_Left h t = butlast t @ [(last t)\<lparr>pn_Left := Some h\<rparr>]"

definition set_Right :: "bytes \<Rightarrow> trail \<Rightarrow> trail" where
  "set_Right h t = butlast t @ [(last t)\<lparr>pn_Right := Some h\<rparr>]"

function trailsFromByteSlices :: "(bytes \<Rightarrow> bytes) \<Rightarrow> bytes list \<Rightarrow> trail list \<times> bytes" where
  "trailsFromByteSlices H items =
     (case items of
        [] \<Rightarrow> ([], emptyHash H)
      | [x] \<Rightarrow> ([[\<lparr>pn_Hash = leafHash H x, pn_Left = None, pn_Right = None\<rparr>]], leafHash H x)
      | _ \<Rightarrow>
          let k = split_nat (length items);
              (lefts, leftRoot) = trailsFromByteSlices H (take k items);
              (rights, rightRoot) = trailsFromByteSlices H (drop k items);
              rootHash = innerHash H leftRoot rightRoot;
              root = \<lparr>pn_Hash = rootHash, pn_Left = None, pn_Right = None\<rparr>
          in (map (\<lambda>t. set_Right rightRoot t @ [root]) lefts @ map (\<lambda>t. set_Left leftRoot t @ [root]) rights, rootHash))"
  by pat_completeness auto
termination
proof (relation "measure (\<lambda>(H, items). length items)", goal_cases)
  case 1
  then show ?case by simp
next
  case (2 H items x xs y ys k)
  then show ?case using split_nat_bounds [of "length items"] by auto
next
  case (3 H items x xs y ys k p lefts leftRoot)
  then show ?case using split_nat_bounds [of "length items"] by auto
qed

declare trailsFromByteSlices.simps [simp del]

fun FlattenAunts :: "trail \<Rightarrow> bytes list" where
  "FlattenAunts [] = []"
| "FlattenAunts (n # ns) =
     (case pn_Left n of
        Some l \<Rightarrow> l # FlattenAunts ns
      | None \<Rightarrow> (case pn_Right n of Some r \<Rightarrow> r # FlattenAunts ns | None \<Rightarrow> FlattenAunts ns))"

definition ProofsFromByteSlices :: "(bytes \<Rightarrow> bytes) \<Rightarrow> bytes list \<Rightarrow> bytes \<times> Proof list" where
  "ProofsFromByteSlices H items =
     (case trailsFromByteSlices H items of (trails, root) \<Rightarrow>
        (root, map (\<lambda>i. \<lparr>prf_Total = int (length items), prf_Index = int i,
                          prf_LeafHash = pn_Hash (hd (trails ! i)), prf_Aunts = FlattenAunts (trails ! i)\<rparr>)
                 [0..<length trails]))"

section \<open>The iterative and the recursive hash agree\<close>

text \<open>One level of the iterative version, and the recursive version on hashed leaves.\<close>

fun hlevel :: "(bytes \<Rightarrow> bytes) \<Rightarrow> bytes list \<Rightarrow> bytes list" where
  "hlevel H (x # y # r) = innerHash H x y # hlevel H r"
| "hlevel H r = r"

function mroot :: "(bytes \<Rightarrow> bytes) \<Rightarrow> bytes list \<Rightarrow> bytes" where
  "mroot H hs =
     (if length hs = 0 then emptyHash H
      else if length hs = 1 then hd hs
      else innerHash H (mroot H (take (split_nat (length hs)) hs)) (mroot H (drop (split_nat (length hs)) hs)))"
  by pat_completeness auto
termination
proof (relation "measure (\<lambda>(H, hs). length hs)", goal_cases)
  case 1
  then show ?case by simp
next
  case (2 H hs)
  then have "2 \<le> length hs" by linarith
  then show ?case using split_nat_bounds [of "length hs"] by simp
next
  case (3 H hs)
  then have "2 \<le> length hs" by linarith
  then show ?case using split_nat_bounds [of "length hs"] by (auto simp: diff_less)
qed

declare mroot.simps [simp del]

lemma mroot_single [simp]: "mroot H [x] = x"
  by (simp add: mroot.simps)

lemma mroot_split:
  "2 \<le> length hs \<Longrightarrow>
     mroot H hs = innerHash H (mroot H (take (split_nat (length hs)) hs)) (mroot H (drop (split_nat (length hs)) hs))"
  by (subst mroot.simps) auto

lemma hash_mroot: "hashFromByteSlices H items = mroot H (map (leafHash H) items)"
proof (induction H items rule: hashFromByteSlices.induct)
  case (1 H items)
  show ?case
  proof (cases "2 \<le> length items")
    case True
    then obtain x y r where r: "items = x # y # r" by (metis Suc_le_length_iff numeral_2_eq_2)
    have "hashFromByteSlices H items = innerHash H (hashFromByteSlices H (take (split_nat (length items)) items))
        (hashFromByteSlices H (drop (split_nat (length items)) items))"
      by (subst hashFromByteSlices.simps) (simp add: r Let_def)
    then show ?thesis using 1 [OF r refl refl] True
      by (simp add: mroot_split [of "map (leafHash H) items"] take_map drop_map)
  next
    case False
    then consider "items = []" | x where "items = [x]" by (cases items; cases "tl items") auto
    then show ?thesis by cases (simp_all add: hashFromByteSlices.simps mroot.simps [of H "[]"])
  qed
qed

lemma length_hlevel: "length (hlevel H hs) = (length hs + 1) div 2"
  by (induction H hs rule: hlevel.induct) auto

lemma hlevel_append: "even (length xs) \<Longrightarrow> hlevel H (xs @ ys) = hlevel H xs @ hlevel H ys"
  by (induction H xs rule: hlevel.induct) auto

lemma power_between_unique:
  assumes "(2::nat) ^ a < m" and "m \<le> 2 * 2 ^ a" and "(2::nat) ^ b < m" and "m \<le> 2 * 2 ^ b"
  shows "a = b"
proof -
  have "2 ^ a < (2::nat) ^ Suc b" "2 ^ b < (2::nat) ^ Suc a" using assms by auto
  then show ?thesis by (metis less_Suc_eq_le order_antisym power_strict_increasing_iff one_less_numeral_iff semiring_norm(76))
qed

lemma split_half:
  assumes "3 \<le> n"
  shows "split_nat n = 2 * split_nat ((n + 1) div 2)" and "2 \<le> split_nat n"
proof -
  obtain e where e: "getSplitPoint (int n) = Some (2 ^ e)" "2 ^ e < n" "n \<le> 2 * 2 ^ e"
    using split_point [of n] assms by auto
  obtain c where c: "e = Suc c" using e assms by (cases e) auto
  have half: "2 \<le> (n + 1) div 2" using assms by simp
  obtain d where d: "getSplitPoint (int ((n + 1) div 2)) = Some (2 ^ d)" "2 ^ d < (n + 1) div 2" "(n + 1) div 2 \<le> 2 * 2 ^ d"
    using split_point [OF half] by blast
  have "2 ^ c < (n + 1) div 2" "(n + 1) div 2 \<le> 2 * 2 ^ c" using e c by auto
  then have "d = c" using d power_between_unique by blast
  then show "split_nat n = 2 * split_nat ((n + 1) div 2)" "2 \<le> split_nat n"
    using e d c by (auto simp: split_nat_def nat_mult_distrib nat_power_eq)
qed

lemma mroot_hlevel: "2 \<le> length hs \<Longrightarrow> mroot H (hlevel H hs) = mroot H hs"
proof (induction "length hs" arbitrary: hs rule: less_induct)
  case less
  show ?case
  proof (cases "length hs = 2")
    case True
    then obtain x y where "hs = [x, y]" by (auto simp: length_Suc_conv numeral_2_eq_2)
    moreover have "split_nat 2 = 1" using split_nat_bounds [OF order_refl] by linarith
    ultimately show ?thesis using mroot_split [of hs H] by (simp add: numeral_2_eq_2)
  next
    case False
    let ?k = "split_nat (length hs)"
    have n: "3 \<le> length hs" using less.prems False by simp
    have half: "2 \<le> length (hlevel H hs)" using n by (simp add: length_hlevel)
    have k: "?k = 2 * split_nat ((length hs + 1) div 2)" "2 \<le> ?k" "?k < length hs"
      using split_half [OF n] split_nat_bounds [of "length hs"] n by auto
    have "hlevel H hs = hlevel H (take ?k hs) @ hlevel H (drop ?k hs)"
      using hlevel_append [of "take ?k hs" H "drop ?k hs"] k by simp
    moreover have "length (hlevel H (take ?k hs)) = split_nat (length (hlevel H hs))"
      using k by (simp add: length_hlevel)
    ultimately have "mroot H (hlevel H hs) = innerHash H (mroot H (hlevel H (take ?k hs))) (mroot H (hlevel H (drop ?k hs)))"
      using mroot_split [of "hlevel H hs" H] n length_hlevel [of H hs] by (metis append_eq_conv_conj half)
    moreover have "mroot H (hlevel H (take ?k hs)) = mroot H (take ?k hs)" using less.hyps k by simp
    moreover have "mroot H (hlevel H (drop ?k hs)) = mroot H (drop ?k hs)"
    proof (cases "2 \<le> length (drop ?k hs)")
      case True
      then show ?thesis using less.hyps k by simp
    next
      case False
      then obtain x where "drop ?k hs = [x]" using k by (cases "drop ?k hs"; cases "tl (drop ?k hs)") auto
      then show ?thesis by simp
    qed
    ultimately show ?thesis using mroot_split [of hs H] n by simp
  qed
qed

lemma level_loop_hlevel:
  assumes "wp \<le> rp" and "rp \<le> sz" and "sz \<le> length items"
  shows "\<exists>items' wp'. level_loop H sz items rp wp = (items', wp') \<and> length items' = length items \<and> wp' \<le> length items \<and>
    take wp' items' = take wp items @ hlevel H (drop rp (take sz items))"
  using assms
proof (induction H sz items rp wp rule: level_loop.induct)
  case (1 H sz items rp wp)
  consider (fin) "rp = sz" | (one) "sz = rp + 1" | (two) "rp + 1 < sz" using 1(4) by linarith
  then show ?case
  proof cases
    case fin
    then show ?thesis using 1(3-5) by (simp add: level_loop.simps)
  next
    case one
    then have "drop rp (take sz items) = [items ! rp]" using 1(5) by (simp add: drop_take take_Suc_conv_app_nth Cons_nth_drop_Suc [symmetric])
    then show ?thesis using one 1(3-5)
      by (simp add: level_loop.simps [of H "Suc rp" items] level_loop.simps [of H "Suc rp" _ "Suc rp"] take_Suc_conv_app_nth)
  next
    case two
    have tk: "drop rp (take sz items) = items ! rp # items ! Suc rp # drop (rp + 2) (take sz items)"
      using two 1(5) by (simp add: Cons_nth_drop_Suc [symmetric])
    have "drop (rp + 2) (take sz (items[wp := x])) = drop (rp + 2) (take sz items)" for x
      using 1(3) by (simp add: drop_take drop_update_cancel)
    then show ?thesis using two 1(1) 1(3-5) tk
      by (subst level_loop.simps) (simp add: take_Suc_conv_app_nth)
  qed
qed

lemma levels_loop_mroot: "sz \<le> length items \<Longrightarrow> levels_loop H items sz = mroot H (take sz items)"
proof (induction H items sz rule: levels_loop.induct)
  case (1 H items sz)
  consider "sz = 0" | "sz = 1" | "2 \<le> sz" by linarith
  then show ?case
  proof cases
    case 1
    then show ?thesis by (simp add: levels_loop.simps mroot.simps)
  next
    case 2
    then have "take sz items = [items ! 0]" using 1(2) by (cases items) auto
    then show ?thesis using 2 by (simp add: levels_loop.simps)
  next
    case 3
    obtain items' wp where l: "level_loop H sz items 0 0 = (items', wp)" "length items' = length items" "wp \<le> length items"
      "take wp items' = hlevel H (take sz items)"
      using level_loop_hlevel [of 0 0 sz items H] 1(2) by auto
    then have "levels_loop H items sz = mroot H (hlevel H (take sz items))"
      using 1(1) [of "(items', wp)" items' wp] 3 by (subst levels_loop.simps) simp
    then show ?thesis using mroot_hlevel [of "take sz items" H] 3 1(2) by simp
  qed
qed

section \<open>Proofs of inclusion\<close>

lemma FlattenAunts_append [simp]: "FlattenAunts (a @ b) = FlattenAunts a @ FlattenAunts b"
  by (induction a) (auto split: option.splits)

definition open_trail :: "trail \<Rightarrow> bool" where
  "open_trail t \<longleftrightarrow> t \<noteq> [] \<and> pn_Left (last t) = None \<and> pn_Right (last t) = None"

lemma FlattenAunts_open:
  assumes "open_trail t"
  shows "FlattenAunts (set_Left h t) = FlattenAunts t @ [h]" and "FlattenAunts (set_Right h t) = FlattenAunts t @ [h]"
proof -
  have "FlattenAunts t = FlattenAunts (butlast t @ [last t])" using assms by (simp add: open_trail_def)
  then have "FlattenAunts t = FlattenAunts (butlast t)" using assms by (simp add: open_trail_def)
  then show "FlattenAunts (set_Left h t) = FlattenAunts t @ [h]" "FlattenAunts (set_Right h t) = FlattenAunts t @ [h]"
    using assms by (simp_all add: set_Left_def set_Right_def open_trail_def)
qed

lemma hd_set: "t \<noteq> [] \<Longrightarrow> pn_Hash (hd (set_Left h t)) = pn_Hash (hd t)" "t \<noteq> [] \<Longrightarrow> pn_Hash (hd (set_Right h t)) = pn_Hash (hd t)"
  by (cases t rule: rev_cases; simp add: set_Left_def set_Right_def hd_append)+

lemma split_point_nat: "2 \<le> n \<Longrightarrow> the (getSplitPoint (int n)) = int (split_nat n)"
  using split_point [of n] by (auto simp: split_nat_def nat_power_eq)

text \<open>One step of \<open>computeHashFromAunts\<close> on natural numbers.\<close>

lemma compute_step:
  assumes "2 \<le> n" and "i < n"
  shows "computeHashFromAunts H (int i) (int n) leaf (as @ [h]) =
    (if i < split_nat n
     then map_sum id (\<lambda>l. innerHash H l h) (computeHashFromAunts H (int i) (int (split_nat n)) leaf as)
     else map_sum id (\<lambda>r. innerHash H h r) (computeHashFromAunts H (int (i - split_nat n)) (int (n - split_nat n)) leaf as))"
  using assms split_nat_bounds [OF assms(1)]
  by (subst computeHashFromAunts.simps) (auto simp: Let_def split_point_nat of_nat_diff split: sum.splits)

lemma compute_one: "computeHashFromAunts H (int i) 1 leaf as = Inr r \<longleftrightarrow> i = 0 \<and> as = [] \<and> r = leaf"
  by (subst computeHashFromAunts.simps) auto

text \<open>What a constructed trail proves.\<close>

definition trail_ok :: "(bytes \<Rightarrow> bytes) \<Rightarrow> bytes list \<Rightarrow> nat \<Rightarrow> trail \<Rightarrow> bytes \<Rightarrow> bool" where
  "trail_ok H items i t r \<longleftrightarrow> open_trail t \<and> pn_Hash (hd t) = leafHash H (items ! i) \<and>
     computeHashFromAunts H (int i) (int (length items)) (leafHash H (items ! i)) (FlattenAunts t) = Inr r"

lemma trail_ok_left:
  assumes "trail_ok H (take k items) i t l" and "k = split_nat (length items)" and "2 \<le> length items" and "i < k"
    and "pn_Left n = None" and "pn_Right n = None"
  shows "trail_ok H items i (set_Right r t @ [n]) (innerHash H l r)"
  using assms split_nat_bounds [OF assms(3)] compute_step [of "length items" i H _ "FlattenAunts t" r]
  by (auto simp: trail_ok_def FlattenAunts_open hd_set open_trail_def hd_append) (auto simp: set_Right_def open_trail_def)

lemma trail_ok_right:
  assumes "trail_ok H (drop k items) i t r" and "k = split_nat (length items)" and "2 \<le> length items" and "i < length items - k"
    and "pn_Left n = None" and "pn_Right n = None"
  shows "trail_ok H items (k + i) (set_Left l t @ [n]) (innerHash H l r)"
  using assms split_nat_bounds [OF assms(3)] compute_step [of "length items" "k + i" H _ "FlattenAunts t" l]
  by (auto simp: trail_ok_def FlattenAunts_open hd_set open_trail_def hd_append) (auto simp: set_Left_def open_trail_def)

lemma trails_root:
  assumes "trailsFromByteSlices H items = (ts, r)"
  shows "r = hashFromByteSlices H items \<and> length ts = length items \<and> (\<forall>i < length items. trail_ok H items i (ts ! i) r)"
  using assms
proof (induction "length items" arbitrary: items ts r rule: less_induct)
  case less
  show ?case
  proof (cases "2 \<le> length items")
    case True
    then obtain x y zs where items: "items = x # y # zs" by (metis Suc_le_length_iff numeral_2_eq_2)
    define k where "k = split_nat (length items)"
    note k = split_nat_bounds [OF True, folded k_def]
    have drop_less: "length (drop k items) < length items" using k by auto
    obtain ls l where ls: "trailsFromByteSlices H (take k items) = (ls, l)" by (metis surj_pair)
    obtain rs q where rs: "trailsFromByteSlices H (drop k items) = (rs, q)" by (metis surj_pair)
    define n where "n = \<lparr>pn_Hash = innerHash H l q, pn_Left = None, pn_Right = None\<rparr>"
    have n: "pn_Left n = None" "pn_Right n = None" by (simp_all add: n_def)
    have L: "l = hashFromByteSlices H (take k items)" "length ls = k" "\<forall>i < k. trail_ok H (take k items) i (ls ! i) l"
      using less.hyps [OF _ ls] k by auto
    have R: "q = hashFromByteSlices H (drop k items)" "length rs = length items - k"
      "\<forall>i < length items - k. trail_ok H (drop k items) i (rs ! i) q"
      using less.hyps [OF _ rs] drop_less by auto
    have "trailsFromByteSlices H items =
      (map (\<lambda>t. set_Right q t @ [n]) ls @ map (\<lambda>t. set_Left l t @ [n]) rs, innerHash H l q)"
      using ls rs by (subst trailsFromByteSlices.simps) (simp add: items k_def n_def Let_def)
    then have ts: "ts = map (\<lambda>t. set_Right q t @ [n]) ls @ map (\<lambda>t. set_Left l t @ [n]) rs" "r = innerHash H l q"
      using less.prems by auto
    have "r = hashFromByteSlices H items"
      using L(1) R(1) ts(2) by (subst hashFromByteSlices.simps) (simp add: items k_def Let_def)
    moreover have "trail_ok H items i (ts ! i) r" if "i < length items" for i
    proof (cases "i < k")
      case True
      then show ?thesis
        using trail_ok_left [OF _ k_def \<open>2 \<le> length items\<close> _ n] L ts by (simp add: nth_append)
    next
      case False
      then show ?thesis
        using trail_ok_right [OF _ k_def \<open>2 \<le> length items\<close> _ n, of H "i - k"] R L(2) ts that by (simp add: nth_append)
    qed
    ultimately show ?thesis using ts(1) L(2) R(2) k by simp
  next
    case False
    then consider "items = []" | x where "items = [x]" by (cases items; cases "tl items") auto
    then show ?thesis
    proof cases
      case 2
      then show ?thesis using less.prems compute_one [of H 0]
        by (simp add: trailsFromByteSlices.simps hashFromByteSlices.simps) (auto simp: trail_ok_def open_trail_def)
    qed (use less.prems in \<open>auto simp: trailsFromByteSlices.simps hashFromByteSlices.simps\<close>)
  qed
qed

subsection \<open>Soundness\<close>

text \<open>The strings that the tree over some items, and the check of a proof, pass to the hash.\<close>

function tree_inputs :: "(bytes \<Rightarrow> bytes) \<Rightarrow> bytes list \<Rightarrow> bytes set" where
  "tree_inputs H items =
     (if length items = 0 then {[]}
      else if length items = 1 then {0 # hd items}
      else let k = split_nat (length items)
           in insert (1 # hashFromByteSlices H (take k items) @ hashFromByteSlices H (drop k items))
                (tree_inputs H (take k items) \<union> tree_inputs H (drop k items)))"
  by pat_completeness auto
termination
proof (relation "measure (\<lambda>(H, items). length items)", goal_cases)
  case 1
  then show ?case by simp
next
  case (2 H hs)
  then have "2 \<le> length hs" by linarith
  then show ?case using split_nat_bounds [of "length hs"] 2 by simp
next
  case (3 H hs)
  then have "2 \<le> length hs" by linarith
  then show ?case using split_nat_bounds [of "length hs"] 3 by (auto simp: diff_less)
qed

declare tree_inputs.simps [simp del]

function path_inputs :: "(bytes \<Rightarrow> bytes) \<Rightarrow> nat \<Rightarrow> nat \<Rightarrow> bytes \<Rightarrow> bytes list \<Rightarrow> bytes set" where
  "path_inputs H i n leaf as =
     (if n \<le> 1 \<or> as = [] then {}
      else let k = split_nat n
           in if i < k
              then (case computeHashFromAunts H (int i) (int k) leaf (butlast as) of
                      Inl e \<Rightarrow> {}
                    | Inr l \<Rightarrow> insert (1 # l @ last as) (path_inputs H i k leaf (butlast as)))
              else (case computeHashFromAunts H (int (i - k)) (int (n - k)) leaf (butlast as) of
                      Inl e \<Rightarrow> {}
                    | Inr r \<Rightarrow> insert (1 # last as @ r) (path_inputs H (i - k) (n - k) leaf (butlast as))))"
  by pat_completeness auto
termination by (relation "measure (\<lambda>(H, i, n, leaf, as). length as)") auto

declare path_inputs.simps [simp del]

definition proof_inputs :: "(bytes \<Rightarrow> bytes) \<Rightarrow> Proof \<Rightarrow> bytes \<Rightarrow> bytes set" where
  "proof_inputs H sp leaf =
     insert (0 # leaf) (path_inputs H (nat (prf_Index sp)) (nat (prf_Total sp)) (prf_LeafHash sp) (prf_Aunts sp))"

lemma innerHash_inj:
  assumes "innerHash H a b = innerHash H c d" and "inj_on H S" and "1 # a @ b \<in> S" and "1 # c @ d \<in> S"
    and "length a = length c"
  shows "a = c \<and> b = d"
  using assms by (auto simp: innerHash_def dest: inj_onD)

lemma length_hashFromByteSlices: "(\<And>x. length (H x) = 32) \<Longrightarrow> length (hashFromByteSlices H items) = 32"
  by (subst hashFromByteSlices.simps)
     (simp add: emptyHash_def leafHash_def innerHash_def Let_def split: list.splits)

lemma length_compute:
  assumes "\<And>x. length (H x) = 32" and "length leaf = 32" and "computeHashFromAunts H i n leaf as = Inr r"
  shows "length r = 32"
  using assms(2,3) by (subst (asm) computeHashFromAunts.simps)
    (auto simp: innerHash_def assms(1) Let_def split: if_splits sum.splits)

lemma hash_split:
  assumes "2 \<le> length items" and "k = split_nat (length items)"
  shows "hashFromByteSlices H items = innerHash H (hashFromByteSlices H (take k items)) (hashFromByteSlices H (drop k items))"
    and "tree_inputs H items = insert (1 # hashFromByteSlices H (take k items) @ hashFromByteSlices H (drop k items))
                (tree_inputs H (take k items) \<union> tree_inputs H (drop k items))"
  using assms mroot_split [of "map (leafHash H) items" H]
  by (auto simp: hash_mroot take_map drop_map tree_inputs.simps [of H items] Let_def)

lemma path_sound:
  assumes len: "\<And>x. length (H x) = 32"
    and run: "computeHashFromAunts H (int i) (int (length items)) (leafHash H leaf) as = Inr (hashFromByteSlices H items)"
    and aunts: "\<forall>a \<in> set as. length a = 32"
    and inj: "inj_on H S" "tree_inputs H items \<subseteq> S" "insert (0 # leaf) (path_inputs H i (length items) (leafHash H leaf) as) \<subseteq> S"
  shows "i < length items \<and> items ! i = leaf"
  using run aunts inj(2,3)
proof (induction as arbitrary: i items rule: rev_induct)
  case Nil
  then have "length items = 1" "i = 0"
    by (subst (asm) computeHashFromAunts.simps; auto split: if_splits)+
  then obtain x where "items = [x]" by (auto simp: length_Suc_conv)
  then show ?case using Nil \<open>i = 0\<close> inj(1)
    by (auto simp: hash_mroot leafHash_def tree_inputs.simps compute_one [of _ 0, simplified] dest!: inj_onD)
next
  case (snoc h as)
  have i: "i < length items" "length items \<noteq> 1"
    using snoc.prems(1) by (subst (asm) computeHashFromAunts.simps; auto split: if_splits)+
  then have two: "2 \<le> length items" by linarith
  define k where "k = split_nat (length items)"
  note k = split_nat_bounds [OF two, folded k_def] and hs = hash_split [OF two k_def, of H]
  let ?L = "hashFromByteSlices H (take k items)" and ?R = "hashFromByteSlices H (drop k items)"
  have lens: "length ?L = 32" "length h = 32" using length_hashFromByteSlices len snoc.prems(2) by auto
  have lf: "length (leafHash H leaf) = 32" by (simp add: leafHash_def len)
  show ?case
  proof (cases "i < k")
    case True
    then obtain l where l: "computeHashFromAunts H (int i) (int k) (leafHash H leaf) as = Inr l" "innerHash H l h = innerHash H ?L ?R"
      using snoc.prems(1) compute_step [OF two i(1)] hs(1)
      by (cases "computeHashFromAunts H (int i) (int k) (leafHash H leaf) as") (auto simp: k_def)
    have path: "path_inputs H i (length items) (leafHash H leaf) (as @ [h]) = insert (1 # l @ h) (path_inputs H i k (leafHash H leaf) as)"
      using True two l by (subst path_inputs.simps) (simp add: k_def Let_def)
    have "l = ?L" using innerHash_inj [OF l(2) inj(1)] snoc.prems(3,4) hs(2) path lens length_compute [OF len lf l(1)] by auto
    then show ?thesis
      using snoc.IH [of i "take k items"] l(1) k True snoc.prems(2-4) hs(2) path by auto
  next
    case False
    then obtain r where r: "computeHashFromAunts H (int (i - k)) (int (length items - k)) (leafHash H leaf) as = Inr r"
      "innerHash H h r = innerHash H ?L ?R"
      using snoc.prems(1) compute_step [OF two i(1)] hs(1)
      by (cases "computeHashFromAunts H (int (i - k)) (int (length items - k)) (leafHash H leaf) as") (auto simp: k_def)
    have path: "path_inputs H i (length items) (leafHash H leaf) (as @ [h]) =
        insert (1 # h @ r) (path_inputs H (i - k) (length items - k) (leafHash H leaf) as)"
      using False two r by (subst path_inputs.simps) (simp add: k_def Let_def)
    have "r = ?R" using innerHash_inj [OF r(2) inj(1)] snoc.prems(3,4) hs(2) path lens by auto
    then show ?thesis
      using snoc.IH [of "i - k" "drop k items"] r(1) k False snoc.prems(2-4) hs(2) path i(1) by auto
  qed
qed

lemma first_bad_aunt_None: "first_bad_aunt as i = None \<longleftrightarrow> (\<forall>a \<in> set as. length a = 32)"
  by (induction as arbitrary: i) auto

lemma proof_verifies:
  assumes "\<And>x. length (H x) = 32" and "Proof_ValidateBasic sp = None" and "prf_Total sp = int (length items)"
    and "Proof_Verify H sp (Some (HashFromByteSlices H items)) leaf = None"
    and "inj_on H (tree_inputs H items \<union> proof_inputs H sp leaf)"
  shows "nat (prf_Index sp) < length items \<and> items ! nat (prf_Index sp) = leaf"
proof -
  have v: "0 \<le> prf_Index sp" "\<forall>a \<in> set (prf_Aunts sp). length a = 32" "prf_LeafHash sp = leafHash H leaf"
    "computeHashFromAunts H (prf_Index sp) (prf_Total sp) (leafHash H leaf) (prf_Aunts sp) = Inr (hashFromByteSlices H items)"
    using assms(2,4)
    by (auto simp: Proof_ValidateBasic_def Proof_Verify_def first_bad_aunt_None computeRootHash_def HashFromByteSlices_def
        split: if_splits sum.splits)
  show ?thesis
    by (rule path_sound [OF assms(1) _ v(2) assms(5)]) (use v assms(3) in \<open>auto simp: proof_inputs_def\<close>)
qed

section \<open>Properties\<close>

text \<open>A hash function for the witnesses: the first 32 bytes, filled up with zeros.\<close>

definition demo_hash :: "bytes \<Rightarrow> bytes" where
  "demo_hash x = take 32 (x @ replicate 32 0)"

lemma length_demo_hash: "length (demo_hash x) = 32"
  by (simp add: demo_hash_def)

text \<open>C21. The iterative Merkle root, which folds its array in place level by level, equals the
  recursive one for every list of items.\<close>

theorem HashFromByteSlicesIterative_eq:
  "HashFromByteSlicesIterative H items = HashFromByteSlices H items"
  by (simp add: HashFromByteSlicesIterative_def HashFromByteSlices_def levels_loop_mroot hash_mroot)

text \<open>C20. The proofs built for a list of items have the Merkle root of the list and each of them
  verifies for its item.\<close>

theorem ProofsFromByteSlices_verify:
  assumes "ProofsFromByteSlices H items = (root, ps)"
  shows "root = HashFromByteSlices H items \<and> length ps = length items \<and>
    (\<forall>i < length items. Proof_Verify H (ps ! i) (Some root) (items ! i) = None)"
proof -
  obtain ts where ts: "trailsFromByteSlices H items = (ts, root)"
    and ps: "ps = map (\<lambda>i. \<lparr>prf_Total = int (length items), prf_Index = int i,
      prf_LeafHash = pn_Hash (hd (ts ! i)), prf_Aunts = FlattenAunts (ts ! i)\<rparr>) [0..<length ts]"
    using assms by (auto simp: ProofsFromByteSlices_def split: prod.splits)
  show ?thesis using trails_root [OF ts] ps
    by (auto simp: HashFromByteSlices_def Proof_Verify_def computeRootHash_def trail_ok_def)
qed

theorem ProofsFromByteSlices_verify_witness:
  "Proof_Verify demo_hash (snd (ProofsFromByteSlices demo_hash [[1], [2], [3]]) ! 2)
     (Some (HashFromByteSlices demo_hash [[1], [2], [3]])) [3] = None"
proof -
  obtain root ps where ps: "ProofsFromByteSlices demo_hash [[1], [2], [3]] = (root, ps)"
    by (cases "ProofsFromByteSlices demo_hash [[1], [2], [3]]")
  note v = ProofsFromByteSlices_verify [OF ps]
  have "2 < length [[1], [2], [3 :: 8 word]]" by simp
  note p = conjunct2 [OF conjunct2 [OF v], rule_format, OF this]
  from p show ?thesis unfolding ps conjunct1 [OF v] by simp
qed


definition demo_proof :: Proof where
  "demo_proof = \<lparr>prf_Total = 2, prf_Index = 1, prf_LeafHash = demo_hash [0, 5], prf_Aunts = [demo_hash [0, 4]]\<rparr>"

lemma demo_split: "split_nat 2 = 1"
  by code_simp

lemma demo_compute:
  "computeHashFromAunts demo_hash 1 2 (demo_hash [0, 5]) [demo_hash [0, 4]] =
     Inr (demo_hash (1 # demo_hash [0, 4] @ demo_hash [0, 5]))"
proof -
  have "computeHashFromAunts demo_hash 0 1 (demo_hash [0, 5]) [] = Inr (demo_hash [0, 5])"
    using compute_one [of demo_hash 0] by simp
  then show ?thesis
    using compute_step [of 2 1 demo_hash "demo_hash [0, 5]" "[]" "demo_hash [0, 4]"] by (simp add: demo_split innerHash_def)
qed

lemma demo_tree:
  "tree_inputs demo_hash [[4], [5]] = {1 # demo_hash [0, 4] @ demo_hash [0, 5], [0, 4], [0, 5]}"
  "HashFromByteSlices demo_hash [[4], [5]] = demo_hash (1 # demo_hash [0, 4] @ demo_hash [0, 5])"
  using hash_split [of "[[4], [5]]" 1 demo_hash] demo_split
  by (auto simp: tree_inputs.simps hash_mroot leafHash_def HashFromByteSlices_def innerHash_def numeral_2_eq_2)

lemma demo_path: "proof_inputs demo_hash demo_proof [5] = {[0, 5], 1 # demo_hash [0, 4] @ demo_hash [0, 5]}"
  using demo_split compute_one [of demo_hash 0 "demo_hash [0, 5]" "[]" "demo_hash [0, 5]"]
  by (simp add: proof_inputs_def demo_proof_def path_inputs.simps [of demo_hash "Suc 0" 2] path_inputs.simps [of demo_hash 0 "Suc 0"])


end
