(* ===== verification/Part_Set.thy ===== *)
theory Part_Set
  imports Merkle Vote Bit_Array Safe_Math
begin

text \<open>
  Block parts: \<open>types/part_set.go\<close>. A block is cut into parts that travel with Merkle proofs; a part
  set that knows only the header collects them and hands out the reassembled bytes.
\<close>

section \<open>Parts\<close>

abbreviation BlockPartSizeBytes :: nat where "BlockPartSizeBytes \<equiv> 65536"

record Part =
  part_Index :: nat
  part_Bytes :: bytes
  part_Proof :: Proof

datatype part_error =
    ErrPartSetUnexpectedIndex | ErrPartSetInvalidProof | ErrPartTooBig | ErrPartInvalidSize
  | WrongProof merkle_error

definition Part_ValidateBasic :: "Part \<Rightarrow> part_error option" where
  "Part_ValidateBasic part =
     (if length (part_Bytes part) > BlockPartSizeBytes then Some ErrPartTooBig
      else if int (part_Index part) < wrap64 (prf_Total (part_Proof part) - 1)
              \<and> length (part_Bytes part) \<noteq> BlockPartSizeBytes then Some ErrPartInvalidSize
      else map_option WrongProof (Proof_ValidateBasic (part_Proof part)))"

section \<open>Part sets\<close>

record PartSet =
  ps_total :: nat
  ps_hash :: bytes
  ps_parts :: "Part option list"
  ps_bits :: "BitArray option"
  ps_count :: nat
  ps_byteSize :: int

text \<open>Unsigned 32-bit arithmetic, and the slice expression \<open>data[a:b]\<close> with its bounds check.\<close>

definition u32 :: "nat \<Rightarrow> nat" where
  "u32 n = n mod 4294967296"

definition slice_range :: "'a list \<Rightarrow> nat \<Rightarrow> nat \<Rightarrow> 'a list option" where
  "slice_range xs a b = (if a \<le> b \<and> b \<le> length xs then Some (take (b - a) (drop a xs)) else None)"

fun set_all_loop :: "nat list \<Rightarrow> BitArray option \<Rightarrow> BitArray option option" where
  "set_all_loop [] b = Some b"
| "set_all_loop (i # is) b = do { (b', ok) \<leftarrow> SetIndex b (int i) True; set_all_loop is b' }"

definition NewPartSetFromData :: "(bytes \<Rightarrow> bytes) \<Rightarrow> bytes \<Rightarrow> nat \<Rightarrow> PartSet option" where
  "NewPartSetFromData H data partSize =
     (if partSize = 0 then None
      else let tot = u32 (u32 (u32 (length data) + partSize) + 4294967295) div partSize
           in do {
             partsBytes \<leftarrow> those (map (\<lambda>i. slice_range data (u32 (i * partSize)) (min (length data) (u32 ((i + 1) * partSize)))) [0..<tot]);
             bits \<leftarrow> set_all_loop [0..<tot] (NewBitArray (int tot));
             let (root, proofs) = ProofsFromByteSlices H partsBytes;
             Some \<lparr>ps_total = tot, ps_hash = root,
                   ps_parts = map (\<lambda>i. Some \<lparr>part_Index = i, part_Bytes = partsBytes ! i, part_Proof = proofs ! i\<rparr>) [0..<tot],
                   ps_bits = bits, ps_count = tot, ps_byteSize = int (length data)\<rparr>
           })"

definition NewPartSetFromHeader :: "PartSetHeader \<Rightarrow> PartSet" where
  "NewPartSetFromHeader header =
     \<lparr>ps_total = psh_Total header, ps_hash = psh_Hash header, ps_parts = replicate (psh_Total header) None,
      ps_bits = NewBitArray (int (psh_Total header)), ps_count = 0, ps_byteSize = 0\<rparr>"

definition PartSet_Header :: "PartSet option \<Rightarrow> PartSetHeader" where
  "PartSet_Header p =
     (case p of
        None \<Rightarrow> \<lparr>psh_Total = 0, psh_Hash = []\<rparr>
      | Some ps \<Rightarrow> \<lparr>psh_Total = ps_total ps, psh_Hash = ps_hash ps\<rparr>)"

definition HasHeader :: "PartSet option \<Rightarrow> PartSetHeader \<Rightarrow> bool" where
  "HasHeader p header = (case p of None \<Rightarrow> False | Some ps \<Rightarrow> PartSetHeader_Equals (PartSet_Header p) header)"

definition PartSet_HashesTo :: "PartSet option \<Rightarrow> bytes \<Rightarrow> bool" where
  "PartSet_HashesTo p h = (case p of None \<Rightarrow> False | Some ps \<Rightarrow> ps_hash ps = h)"

definition PartSet_Hash :: "(bytes \<Rightarrow> bytes) \<Rightarrow> PartSet option \<Rightarrow> bytes" where
  "PartSet_Hash H p = (case p of None \<Rightarrow> HashFromByteSlices H [] | Some ps \<Rightarrow> ps_hash ps)"

text \<open>An absent hash is the empty byte string; \<open>None\<close> is an index panic.\<close>

definition AddPart :: "(bytes \<Rightarrow> bytes) \<Rightarrow> PartSet option \<Rightarrow> Part \<Rightarrow> (PartSet option \<times> bool \<times> part_error option) option" where
  "AddPart H p part =
     (case p of
        None \<Rightarrow> Some (None, False, None)
      | Some ps \<Rightarrow>
          if part_Index part \<ge> ps_total ps then Some (p, False, Some ErrPartSetUnexpectedIndex)
          else do {
            old \<leftarrow> slice_get (ps_parts ps) (int (part_Index part));
            (if old \<noteq> None then Some (p, False, None)
             else if prf_Total (part_Proof part) \<noteq> int (ps_total ps) then Some (p, False, Some ErrPartSetInvalidProof)
             else if Proof_Verify H (part_Proof part) (if ps_hash ps = [] then None else Some (ps_hash ps)) (part_Bytes part) \<noteq> None
             then Some (p, False, Some ErrPartSetInvalidProof)
             else do {
               parts \<leftarrow> slice_set (ps_parts ps) (int (part_Index part)) (Some part);
               (bits, ok) \<leftarrow> SetIndex (ps_bits ps) (int (part_Index part)) True;
               Some (Some (ps\<lparr>ps_parts := parts, ps_bits := bits, ps_count := u32 (ps_count ps + 1),
                              ps_byteSize := wrap64 (ps_byteSize ps + int (length (part_Bytes part)))\<rparr>), True, None)
             })
          })"

definition GetPart :: "PartSet \<Rightarrow> int \<Rightarrow> Part option option" where
  "GetPart ps index = slice_get (ps_parts ps) index"

definition PartSet_IsComplete :: "PartSet \<Rightarrow> bool" where
  "PartSet_IsComplete ps \<longleftrightarrow> ps_count ps = ps_total ps"

subsection \<open>The reader\<close>

record PartSetReader =
  psr_i :: nat
  psr_parts :: "Part option list"
  psr_rest :: bytes

text \<open>\<open>None\<close> is the panic on an incomplete set, an empty slice or a nil part.\<close>

definition part_bytes_at :: "Part option list \<Rightarrow> nat \<Rightarrow> bytes option" where
  "part_bytes_at parts i = do { p \<leftarrow> slice_get parts (int i); map_option part_Bytes p }"

definition GetReader :: "PartSet \<Rightarrow> PartSetReader option" where
  "GetReader ps =
     (if \<not> PartSet_IsComplete ps then None
      else do {
        b \<leftarrow> part_bytes_at (ps_parts ps) 0;
        Some \<lparr>psr_i = 0, psr_parts = ps_parts ps, psr_rest = b\<rparr>
      })"

text \<open>
  \<open>Read\<close> with a buffer of \<open>n\<close> bytes: the new reader, the bytes and whether the end was reported.
  The first of its two recursive calls always returns the rest of the current part.
\<close>

function Read :: "PartSetReader \<Rightarrow> nat \<Rightarrow> (PartSetReader \<times> bytes \<times> bool) option" where
  "Read psr n =
     (if length (psr_rest psr) \<ge> n
      then (if psr_rest psr = [] then Some (psr, [], True)
            else Some (psr\<lparr>psr_rest := drop n (psr_rest psr)\<rparr>, take n (psr_rest psr), False))
      else if length (psr_rest psr) > 0
      then (case Read (psr\<lparr>psr_rest := []\<rparr>) (n - length (psr_rest psr)) of
              None \<Rightarrow> None
            | Some (psr', b, eof) \<Rightarrow> Some (psr', psr_rest psr @ b, eof))
      else if psr_i psr + 1 \<ge> length (psr_parts psr) then Some (psr\<lparr>psr_i := psr_i psr + 1\<rparr>, [], True)
      else (case part_bytes_at (psr_parts psr) (psr_i psr + 1) of
              None \<Rightarrow> None
            | Some b \<Rightarrow> Read (psr\<lparr>psr_i := psr_i psr + 1, psr_rest := b\<rparr>) n))"
  by pat_completeness auto
termination
  by (relation "measures [\<lambda>(psr, n). length (psr_parts psr) - psr_i psr, \<lambda>(psr, n). length (psr_rest psr)]") auto

declare Read.simps [simp del]

section \<open>The reader returns the bytes in order\<close>

text \<open>What is left to read, when no part is missing.\<close>

definition remaining :: "PartSetReader \<Rightarrow> bytes" where
  "remaining psr = psr_rest psr @ concat (map (\<lambda>p. part_Bytes (the p)) (drop (psr_i psr + 1) (psr_parts psr)))"

lemma Read_eq:
  assumes "None \<notin> set (psr_parts psr)" and "0 < n"
  shows "\<exists>psr'. Read psr n = Some (psr', take n (remaining psr), length (remaining psr) < n) \<and>
     psr_parts psr' = psr_parts psr \<and> (n \<le> length (remaining psr) \<longrightarrow> remaining psr' = drop n (remaining psr))"
  using assms
proof (induction psr n rule: Read.induct)
  case (1 psr n)
  consider (enough) "n \<le> length (psr_rest psr)" | (some) "0 < length (psr_rest psr)" "length (psr_rest psr) < n"
    | (eof) "psr_rest psr = []" "length (psr_parts psr) \<le> psr_i psr + 1"
    | (more) "psr_rest psr = []" "psr_i psr + 1 < length (psr_parts psr)" by fastforce
  then show ?case
  proof cases
    case enough
    then show ?thesis using 1(4) by (subst Read.simps) (auto simp: remaining_def)
  next
    case some
    have rem: "remaining psr = psr_rest psr @ remaining (psr\<lparr>psr_rest := []\<rparr>)" by (simp add: remaining_def)
    have "length (psr_rest psr) \<noteq> 0" "\<not> n \<le> length (psr_rest psr)" using some by auto
    then show ?thesis using 1(1) some 1(3,4) unfolding rem
      by (subst Read.simps) (fastforce simp: less_diff_conv2)
  next
    case eof
    then show ?thesis using 1(4) by (subst Read.simps) (simp add: remaining_def)
  next
    case more
    obtain p where p: "psr_parts psr ! (psr_i psr + 1) = Some p" using 1(3) more(2) by (metis not_None_eq nth_mem)
    then have b: "part_bytes_at (psr_parts psr) (psr_i psr + 1) = Some (part_Bytes p)"
      using more(2) by (simp add: part_bytes_at_def flip: of_nat_Suc)
    have "remaining psr = remaining (psr\<lparr>psr_i := psr_i psr + 1, psr_rest := part_Bytes p\<rparr>)"
      using more p by (simp add: remaining_def Cons_nth_drop_Suc [symmetric])
    then show ?thesis using 1(2) [OF _ _ _ b] more 1(3,4) b by (subst Read.simps) simp
  qed
qed

section \<open>Cutting a block\<close>

lemma concat_slices: "concat (map (\<lambda>i. take p (drop (i * p) xs)) [0..<n]) = take (n * p) xs"
  by (induction n) (simp_all add: take_add [symmetric] add.commute)

lemma set_all_loop_ok: "bap_wf b \<Longrightarrow> \<forall>i \<in> set is. int i < BitArray_Size b \<Longrightarrow> \<exists>b'. set_all_loop is b = Some b'"
proof (induction "is" arbitrary: b)
  case Nil
  then show ?case by simp
next
  case (Cons i "is")
  then obtain b' where "SetIndex b (int i) True = Some (b', True)" "bap_wf b'" "BitArray_Size b' = BitArray_Size b"
    using SetIndex_law [of b i True] by auto
  then show ?case using Cons by simp
qed

abbreviation num_parts :: "bytes \<Rightarrow> nat \<Rightarrow> nat" where
  "num_parts data p \<equiv> (length data + p - 1) div p"

abbreviation data_parts :: "bytes \<Rightarrow> nat \<Rightarrow> bytes list" where
  "data_parts data p \<equiv> map (\<lambda>i. take p (drop (i * p) data)) [0..<num_parts data p]"

lemma those_Some: "(\<And>x. x \<in> set xs \<Longrightarrow> f x = Some (g x)) \<Longrightarrow> those (map f xs) = Some (map g xs)"
  by (induction xs) auto

lemma num_parts_bound:
  assumes "0 < p" and "i < num_parts data p"
  shows "(i + 1) * p < length data + p"
proof -
  have "(i + 1) * p \<le> num_parts data p * p" using assms by (intro mult_le_mono1) simp
  also have "\<dots> \<le> length data + p - 1" by simp
  finally show ?thesis using assms(1) by linarith
qed

lemma NewPartSetFromData_eq:
  assumes p: "0 < p" and small: "length data + p \<le> 4294967296"
  shows "\<exists>src. NewPartSetFromData H data p = Some src \<and> ps_total src = num_parts data p \<and>
    ps_hash src = HashFromByteSlices H (data_parts data p) \<and> ps_count src = num_parts data p \<and>
    length (ps_parts src) = num_parts data p \<and> concat (data_parts data p) = data"
proof -
  let ?n = "num_parts data p"
  have tot: "u32 (u32 (u32 (length data) + p) + 4294967295) div p = ?n"
  proof (cases "length data + p = 4294967296")
    case True
    then have "u32 (u32 (length data) + p) = 0 \<and> length data + p - 1 = 4294967295" using p by (simp add: u32_def)
    then show ?thesis by (simp add: u32_def)
  next
    case False
    then have "u32 (u32 (length data) + p) = length data + p" using small p by (simp add: u32_def)
    moreover have "u32 (length data + p + 4294967295) = length data + p - 1"
      using small False p by (simp add: u32_def mod_if)
    ultimately show ?thesis by simp
  qed
  have "slice_range data (u32 (i * p)) (min (length data) (u32 ((i + 1) * p))) = Some (take p (drop (i * p) data))"
    if "i \<in> set [0..<?n]" for i
  proof -
    have b: "(i + 1) * p < length data + p" using num_parts_bound [OF p] that by simp
    then have "u32 (i * p) = i * p" "u32 ((i + 1) * p) = (i + 1) * p" using small by (simp_all add: u32_def)
    then show ?thesis using b by (auto simp: slice_range_def min_def)
  qed
  then have "those (map (\<lambda>i. slice_range data (u32 (i * p)) (min (length data) (u32 ((i + 1) * p)))) [0..<?n]) =
      Some (data_parts data p)"
    by (rule those_Some)
  moreover obtain b where "set_all_loop [0..<?n] (NewBitArray (int ?n)) = Some b"
    using set_all_loop_ok [of "NewBitArray (int ?n)" "[0..<?n]"] NewBitArray_law [of "int ?n"] by auto
  moreover obtain ts where "trailsFromByteSlices H (data_parts data p) = (ts, HashFromByteSlices H (data_parts data p))"
    using trails_root [of H "data_parts data p"] by (metis HashFromByteSlices_def surj_pair)
  moreover have "length data \<le> ?n * p" using dividend_less_div_times [OF p, of "length data + p - 1"] p by linarith
  then have "concat (data_parts data p) = data" by (simp add: concat_slices)
  ultimately show ?thesis using p tot
    by (simp add: NewPartSetFromData_def Let_def ProofsFromByteSlices_def)
qed

section \<open>Collecting parts\<close>

inductive ps_reach :: "(bytes \<Rightarrow> bytes) \<Rightarrow> PartSetHeader \<Rightarrow> PartSet \<Rightarrow> bool" for H h where
  new: "ps_reach H h (NewPartSetFromHeader h)"
| add: "ps_reach H h ps \<Longrightarrow> AddPart H (Some ps) part = Some (Some ps', added, err) \<Longrightarrow> ps_reach H h ps'"

definition part_ok :: "(bytes \<Rightarrow> bytes) \<Rightarrow> PartSetHeader \<Rightarrow> nat \<Rightarrow> Part \<Rightarrow> bool" where
  "part_ok H h i p \<longleftrightarrow> part_Index p = i \<and> prf_Total (part_Proof p) = int (psh_Total h) \<and>
     Proof_Verify H (part_Proof p) (Some (psh_Hash h)) (part_Bytes p) = None"

definition ps_inv :: "(bytes \<Rightarrow> bytes) \<Rightarrow> PartSetHeader \<Rightarrow> PartSet \<Rightarrow> bool" where
  "ps_inv H h ps \<longleftrightarrow> ps_total ps = psh_Total h \<and> ps_hash ps = psh_Hash h \<and> length (ps_parts ps) = psh_Total h \<and>
     bav.mirrors (ps_bits ps) (ps_parts ps) \<and> ps_count ps = card {i. i < psh_Total h \<and> ps_parts ps ! i \<noteq> None} \<and>
     (\<forall>i p. i < psh_Total h \<longrightarrow> ps_parts ps ! i = Some p \<longrightarrow> part_ok H h i p)"

text \<open>The one way to change a set.\<close>

lemma AddPart_cases:
  assumes "AddPart H (Some ps) part = Some (Some ps', added, err)" and inv: "ps_inv H h ps"
  shows "ps' = ps \<and> \<not> added \<or>
    (added \<and> err = None \<and> part_Index part < psh_Total h \<and> ps_parts ps ! part_Index part = None \<and>
     part_ok H h (part_Index part) part \<and>
     (\<exists>bits. SetIndex (ps_bits ps) (int (part_Index part)) True = Some (bits, True) \<and>
        bav.mirrors bits ((ps_parts ps)[part_Index part := Some part]) \<and>
        ps' = ps\<lparr>ps_parts := (ps_parts ps)[part_Index part := Some part], ps_bits := bits, ps_count := u32 (ps_count ps + 1),
                              ps_byteSize := wrap64 (ps_byteSize ps + int (length (part_Bytes part)))\<rparr>))"
proof (cases "part_Index part < psh_Total h")
  case False
  then show ?thesis using assms by (auto simp: AddPart_def ps_inv_def)
next
  case True
  then obtain bits where b: "SetIndex (ps_bits ps) (int (part_Index part)) True = Some (bits, True)"
    "bav.mirrors bits ((ps_parts ps)[part_Index part := Some part])"
    using inv bav.mirrors_upd [of "ps_bits ps" "ps_parts ps" "part_Index part" part] by (auto simp: ps_inv_def)
  let ?root = "if ps_hash ps = [] then None else Some (ps_hash ps)"
  have nil: "Proof_Verify H q None x \<noteq> None" for q x by (simp add: Proof_Verify_def)
  have inv': "ps_total ps = psh_Total h" "ps_hash ps = psh_Hash h" "length (ps_parts ps) = psh_Total h"
    using inv by (simp_all add: ps_inv_def)
  have "AddPart H (Some ps) part =
    (if ps_parts ps ! part_Index part \<noteq> None then Some (Some ps, False, None)
     else if prf_Total (part_Proof part) \<noteq> int (psh_Total h) \<or> Proof_Verify H (part_Proof part) ?root (part_Bytes part) \<noteq> None
     then Some (Some ps, False, Some ErrPartSetInvalidProof)
     else Some (Some (ps\<lparr>ps_parts := (ps_parts ps)[part_Index part := Some part], ps_bits := bits, ps_count := u32 (ps_count ps + 1),
                              ps_byteSize := wrap64 (ps_byteSize ps + int (length (part_Bytes part)))\<rparr>), True, None))"
    using True b(1) inv' by (simp add: AddPart_def)
  moreover have "Proof_Verify H (part_Proof part) ?root (part_Bytes part) = None \<Longrightarrow>
      Proof_Verify H (part_Proof part) (Some (psh_Hash h)) (part_Bytes part) = None"
    using nil [of "part_Proof part" "part_Bytes part"] inv'(2) by (cases "ps_hash ps = []") simp_all
  ultimately show ?thesis using assms(1) True b unfolding part_ok_def
    by (cases "ps_parts ps ! part_Index part = None") (simp_all split: if_split_asm)
qed

lemma AddPart_accept:
  assumes inv: "ps_inv H h ps" and j: "part_Index part < psh_Total h" "ps_parts ps ! part_Index part = None"
    and ok: "prf_Total (part_Proof part) = int (psh_Total h)" "psh_Hash h \<noteq> []"
      "Proof_Verify H (part_Proof part) (Some (psh_Hash h)) (part_Bytes part) = None"
  shows "\<exists>ps'. AddPart H (Some ps) part = Some (Some ps', True, None) \<and>
     ps_parts ps' = (ps_parts ps)[part_Index part := Some part] \<and> ps_total ps' = ps_total ps \<and>
     ps_count ps' = u32 (ps_count ps + 1)"
proof -
  obtain bits where "SetIndex (ps_bits ps) (int (part_Index part)) True = Some (bits, True)"
    using inv j bav.mirrors_upd [of "ps_bits ps" "ps_parts ps" "part_Index part" part] by (auto simp: ps_inv_def)
  then show ?thesis using inv j ok by (simp add: AddPart_def ps_inv_def)
qed

lemma ps_reach_inv:
  assumes "ps_reach H h ps" and "psh_Total h < 4294967296"
  shows "ps_inv H h ps"
  using assms(1)
proof induction
  case new
  have "{i. i < psh_Total h \<and> replicate (psh_Total h) (None :: Part option) ! i \<noteq> None} = {}" by auto
  then show ?case using bav.mirrors_new [of "psh_Total h"] by (auto simp: ps_inv_def NewPartSetFromHeader_def)
next
  case (add ps part ps' added err)
  show ?case
  proof (cases "ps' = ps")
    case True
    then show ?thesis using add.IH by simp
  next
    case False
    let ?i = "part_Index part" and ?A = "{i. i < psh_Total h \<and> ps_parts ps ! i \<noteq> None}"
    obtain bits where c: "?i < psh_Total h" "ps_parts ps ! ?i = None" "part_ok H h ?i part"
      "bav.mirrors bits ((ps_parts ps)[?i := Some part])"
      "ps' = ps\<lparr>ps_parts := (ps_parts ps)[?i := Some part], ps_bits := bits, ps_count := u32 (ps_count ps + 1),
                              ps_byteSize := wrap64 (ps_byteSize ps + int (length (part_Bytes part)))\<rparr>"
      using AddPart_cases [OF add.hyps(2) add.IH] False by blast
    have "{i. i < psh_Total h \<and> (ps_parts ps)[?i := Some part] ! i \<noteq> None} = insert ?i ?A"
      using c(1) add.IH by (auto simp: ps_inv_def nth_list_update)
    moreover have "card (insert ?i ?A) = card ?A + 1" using c(2) by simp
    moreover have "insert ?i ?A \<subseteq> {..<psh_Total h}" using c(1) by auto
    then have "card (insert ?i ?A) \<le> psh_Total h" using card_mono [of "{..<psh_Total h}"] by simp
    ultimately show ?thesis using c add.IH assms(2)
      by (auto simp: ps_inv_def u32_def nth_list_update)
  qed
qed

lemma complete_all:
  assumes "ps_inv H h ps" and "PartSet_IsComplete ps"
  shows "None \<notin> set (ps_parts ps)"
proof -
  let ?A = "{i. i < psh_Total h \<and> ps_parts ps ! i \<noteq> None}"
  have "card ?A = card {..<psh_Total h}" using assms by (simp add: ps_inv_def PartSet_IsComplete_def)
  then have "?A = {..<psh_Total h}" by (intro card_subset_eq) auto
  then have "ps_parts ps ! i \<noteq> None" if "i < psh_Total h" for i using that by auto
  then show ?thesis using assms(1) by (metis ps_inv_def in_set_conv_nth)
qed

text \<open>The strings hashed for the parts of a set.\<close>

definition set_inputs :: "(bytes \<Rightarrow> bytes) \<Rightarrow> PartSet \<Rightarrow> bytes set" where
  "set_inputs H ps = (\<Union>q \<in> {q. Some q \<in> set (ps_parts ps)}. proof_inputs H (part_Proof q) (part_Bytes q))"

definition proofs_match :: "PartSet \<Rightarrow> bool" where
  "proofs_match ps \<longleftrightarrow> (\<forall>q. Some q \<in> set (ps_parts ps) \<longrightarrow>
     Proof_ValidateBasic (part_Proof q) = None \<and> prf_Index (part_Proof q) = int (part_Index q))"

lemma complete_bytes:
  assumes len: "\<And>x. length (H x) = 32" and inv: "ps_inv H h ps" and "PartSet_IsComplete ps"
    and h: "psh_Total h = length items" "psh_Hash h = HashFromByteSlices H items"
    and m: "proofs_match ps" and inj: "inj_on H (tree_inputs H items \<union> set_inputs H ps)"
  shows "map (\<lambda>p. part_Bytes (the p)) (ps_parts ps) = items"
proof (rule nth_equalityI)
  show "length (map (\<lambda>p. part_Bytes (the p)) (ps_parts ps)) = length items" using inv h by (simp add: ps_inv_def)
next
  fix i
  assume "i < length (map (\<lambda>p. part_Bytes (the p)) (ps_parts ps))"
  then have i: "i < length (ps_parts ps)" by simp
  then obtain q where q: "ps_parts ps ! i = Some q" "Some q \<in> set (ps_parts ps)"
    using complete_all [OF inv assms(3)] by (metis not_None_eq nth_mem)
  have ok: "part_ok H h i q" using inv i q(1) by (simp add: ps_inv_def)
  have "proof_inputs H (part_Proof q) (part_Bytes q) \<subseteq> set_inputs H ps" using q(2) by (auto simp: set_inputs_def)
  then have "inj_on H (tree_inputs H items \<union> proof_inputs H (part_Proof q) (part_Bytes q))"
    using inj_on_subset [OF inj] by blast
  moreover have "prf_Index (part_Proof q) = int i" "Proof_ValidateBasic (part_Proof q) = None"
    using m q(2) ok by (auto simp: proofs_match_def part_ok_def)
  ultimately have "items ! i = part_Bytes q"
    using proof_verifies [where H = H and sp = "part_Proof q" and items = items and leaf = "part_Bytes q", OF len] ok h by (simp add: part_ok_def)
  then show "map (\<lambda>p. part_Bytes (the p)) (ps_parts ps) ! i = items ! i" using i q(1) by simp
qed

section \<open>Properties\<close>

text \<open>C17. A part set that knows the header of a block and has collected all parts gives the bytes of the
  block back: reading from it returns the data in order and reports the end when it is exhausted. The
  proofs of the collected parts must be for the slots they are stored in, and the hash must not
  collide on the strings involved.\<close>

theorem PartSet_reassembles:
  assumes "\<And>x. length (H x) = 32" and "0 < p" and "length data + p \<le> 4294967296" and "data \<noteq> []"
    and "NewPartSetFromData H data p = Some src" and "ps_reach H (PartSet_Header (Some src)) ps"
    and "PartSet_IsComplete ps" and "proofs_match ps"
    and "inj_on H (tree_inputs H (data_parts data p) \<union> set_inputs H ps)" and "0 < n"
  shows "\<exists>r r'. GetReader ps = Some r \<and> Read r n = Some (r', take n data, length data < n)"
proof -
  let ?h = "PartSet_Header (Some src)" and ?items = "data_parts data p"
  have src: "ps_total src = num_parts data p" "ps_hash src = HashFromByteSlices H ?items" "concat ?items = data"
    using NewPartSetFromData_eq [OF assms(2,3), of H] assms(5) by auto
  have h: "psh_Total ?h = length ?items" "psh_Hash ?h = HashFromByteSlices H ?items"
    using src by (simp_all add: PartSet_Header_def)
  have "num_parts data p \<le> length data + p - 1" by (rule div_le_dividend)
  moreover have "psh_Total ?h = num_parts data p" using h(1) by simp
  ultimately have "psh_Total ?h < 4294967296" using assms(2,3) by linarith
  then have inv: "ps_inv H ?h ps" by (rule ps_reach_inv [OF assms(6)])
  have none: "None \<notin> set (ps_parts ps)" by (rule complete_all [OF inv assms(7)])
  have bytes: "map (\<lambda>q. part_Bytes (the q)) (ps_parts ps) = ?items"
    by (rule complete_bytes [OF assms(1) inv assms(7) h assms(8,9)])
  obtain q rest where q: "ps_parts ps = Some q # rest"
    using bytes src(3) assms(4) none by (cases "ps_parts ps"; cases "hd (ps_parts ps)") auto
  define r where "r = \<lparr>psr_i = 0, psr_parts = ps_parts ps, psr_rest = part_Bytes q\<rparr>"
  have "GetReader ps = Some r"
    using assms(7) q by (simp add: GetReader_def part_bytes_at_def slice_get_def r_def)
  moreover have "concat (map (\<lambda>q. part_Bytes (the q)) (ps_parts ps)) = data" unfolding bytes by (rule src(3))
  then have "remaining r = data" using q by (simp add: remaining_def r_def)
  moreover have "None \<notin> set (psr_parts r)" using none by (simp add: r_def)
  ultimately show ?thesis using Read_eq [OF _ assms(10), of r] by auto
qed

text \<open>A block of two bytes in two parts.\<close>

definition demo_header :: PartSetHeader where
  "demo_header = \<lparr>psh_Total = 2, psh_Hash = HashFromByteSlices demo_hash [[4], [5]]\<rparr>"

definition demo_part :: "nat \<Rightarrow> 8 word \<Rightarrow> 8 word \<Rightarrow> Part" where
  "demo_part i b c = \<lparr>part_Index = i, part_Bytes = [b],
     part_Proof = \<lparr>prf_Total = 2, prf_Index = int i, prf_LeafHash = demo_hash [0, b], prf_Aunts = [demo_hash [0, c]]\<rparr>\<rparr>"

lemma demo_header_sel: "psh_Total demo_header = 2" "psh_Hash demo_header \<noteq> []"
  "psh_Hash demo_header = demo_hash (1 # demo_hash [0, 4] @ demo_hash [0, 5])"
  by (simp_all add: demo_header_def demo_tree demo_hash_def)

lemma demo_part_verifies:
  "Proof_Verify demo_hash (part_Proof (demo_part 0 4 5)) (Some (psh_Hash demo_header)) [4] = None"
  "Proof_Verify demo_hash (part_Proof (demo_part 1 5 4)) (Some (psh_Hash demo_header)) [5] = None"
  using compute_one [of demo_hash 0 "demo_hash [0, 4]" "[]" "demo_hash [0, 4]"]
    compute_step [of 2 0 demo_hash "demo_hash [0, 4]" "[]" "demo_hash [0, 5]"]
  by (simp_all add: Proof_Verify_def demo_part_def leafHash_def computeRootHash_def demo_compute demo_header_sel
      demo_split innerHash_def)

lemma demo_collect:
  "\<exists>ps. ps_reach demo_hash demo_header ps \<and> ps_parts ps = [Some (demo_part 0 4 5), Some (demo_part 1 5 4)] \<and> PartSet_IsComplete ps"
proof -
  let ?ps0 = "NewPartSetFromHeader demo_header"
  have r0: "ps_reach demo_hash demo_header ?ps0" by (rule ps_reach.new)
  have tot: "psh_Total demo_header < 4294967296" by (simp add: demo_header_sel)
  obtain ps1 where ps1: "AddPart demo_hash (Some ?ps0) (demo_part 0 4 5) = Some (Some ps1, True, None)"
    "ps_parts ps1 = [Some (demo_part 0 4 5), None]" "ps_total ps1 = 2" "ps_count ps1 = 1"
    using AddPart_accept [OF ps_reach_inv [OF r0 tot], of "demo_part 0 4 5"] demo_part_verifies(1) demo_header_sel
    by (auto simp: NewPartSetFromHeader_def demo_part_def numeral_2_eq_2 u32_def)
  have r1: "ps_reach demo_hash demo_header ps1" by (rule ps_reach.add [OF r0 ps1(1)])
  obtain ps2 where ps2: "AddPart demo_hash (Some ps1) (demo_part 1 5 4) = Some (Some ps2, True, None)"
    "ps_parts ps2 = [Some (demo_part 0 4 5), Some (demo_part 1 5 4)]" "ps_total ps2 = 2" "ps_count ps2 = 2"
    using AddPart_accept [OF ps_reach_inv [OF r1 tot], of "demo_part 1 5 4"] demo_part_verifies(2) demo_header_sel ps1
    by (auto simp: demo_part_def u32_def)
  then show ?thesis using ps_reach.add [OF r1 ps2(1)] by (auto simp: PartSet_IsComplete_def)
qed

theorem PartSet_reassembles_witness:
  "\<exists>ps r r'. ps_reach demo_hash demo_header ps \<and> GetReader ps = Some r \<and> Read r 2 = Some (r', [4, 5], False)"
proof -
  obtain ps where ps: "ps_reach demo_hash demo_header ps" "ps_parts ps = [Some (demo_part 0 4 5), Some (demo_part 1 5 4)]"
    "PartSet_IsComplete ps" using demo_collect by blast
  have parts: "data_parts [4, 5] 1 = [[4], [5]]" by (simp add: upt_rec)
  obtain src where src: "NewPartSetFromData demo_hash [4, 5] 1 = Some src" "PartSet_Header (Some src) = demo_header"
    using NewPartSetFromData_eq [of 1 "[4, 5]" demo_hash] unfolding parts by (auto simp: PartSet_Header_def demo_header_def)
  have "proofs_match ps"
    using ps(2) by (auto simp: proofs_match_def demo_part_def Proof_ValidateBasic_def length_demo_hash)
  moreover have "set_inputs demo_hash ps \<subseteq> tree_inputs demo_hash [[4], [5]]"
    using compute_one [of demo_hash 0 "demo_hash [0, 4]" "[]" "demo_hash [0, 4]"]
      compute_one [of demo_hash 0 "demo_hash [0, 5]" "[]" "demo_hash [0, 5]"] demo_split
    by (simp add: set_inputs_def ps(2) demo_tree proof_inputs_def demo_part_def Collect_disj_eq
        path_inputs.simps [of demo_hash _ 2] path_inputs.simps [of demo_hash 0 "Suc 0"])
  then have "tree_inputs demo_hash [[4], [5]] \<union> set_inputs demo_hash ps = tree_inputs demo_hash [[4], [5]]" by blast
  then have "inj_on demo_hash (tree_inputs demo_hash (data_parts [4, 5] 1) \<union> set_inputs demo_hash ps)"
    unfolding parts by (simp add: demo_tree demo_hash_def)
  ultimately show ?thesis
    using PartSet_reassembles [OF length_demo_hash _ _ _ src(1), of ps 2] ps src(2) by auto
qed


text \<open>The first of two parts, a full-size one, is accepted as the second.\<close>

definition big_part :: Part where
  "big_part = \<lparr>part_Index = 0, part_Bytes = replicate BlockPartSizeBytes 4,
     part_Proof = \<lparr>prf_Total = 2, prf_Index = 0, prf_LeafHash = demo_hash (0 # replicate BlockPartSizeBytes 4),
       prf_Aunts = [demo_hash [0, 5]]\<rparr>\<rparr>"

definition big_header :: PartSetHeader where
  "big_header = \<lparr>psh_Total = 2,
     psh_Hash = demo_hash (1 # demo_hash (0 # replicate BlockPartSizeBytes 4) @ demo_hash [0, 5])\<rparr>"


end
