(* ===== verification/Proto_Decode.thy ===== *)
theory Proto_Decode
  imports Proto_Wire
begin

text \<open>
  Reading the signed messages: the generated unmarshallers of
  \<open>proto/tendermint/types/canonical.pb.go\<close> and the length-delimited reader of
  \<open>libs/protoio/reader.go\<close>. The position in the buffer is represented by the bytes that are left; \<open>l\<close>
  is the length of the whole buffer where an error check needs it. The decoder of a timestamp
  belongs to the protobuf runtime and is the argument \<open>tu\<close>.
\<close>

unbundle bit_operations_syntax

section \<open>Primitive fields\<close>

datatype proto_error =
    ErrIntOverflow | ErrUnexpectedEOF | ErrInvalidLength | ErrUnexpectedEndOfGroup
  | IllegalWireType | IllegalTag | EndGroupTag | WrongWireType | TimeError
  | LengthOutOfRange | MessageTooBig

fun varint_loop :: "nat \<Rightarrow> 64 word \<Rightarrow> bytes \<Rightarrow> proto_error + (64 word \<times> bytes)" where
  "varint_loop shift acc bs =
     (if shift \<ge> 64 then Inl ErrIntOverflow
      else case bs of
        [] \<Rightarrow> Inl ErrUnexpectedEOF
      | b # bs' \<Rightarrow>
          let acc' = acc OR push_bit shift (ucast (b AND 0x7F))
          in if b < 0x80 then Inr (acc', bs') else varint_loop (shift + 7) acc' bs')"

declare varint_loop.simps [simp del]

definition read_varint :: "bytes \<Rightarrow> proto_error + (64 word \<times> bytes)" where
  "read_varint bs = varint_loop 0 0 bs"

text \<open>A length-delimited field: the length as a signed integer, then that many bytes.\<close>

definition read_delim :: "nat \<Rightarrow> bytes \<Rightarrow> proto_error + (bytes \<times> bytes)" where
  "read_delim l bs =
     (case read_varint bs of
        Inl e \<Rightarrow> Inl e
      | Inr (w, rest) \<Rightarrow>
          let n = sint w
          in if n < 0 then Inl ErrInvalidLength
             else if wrap64 (int (l - length rest) + n) < 0 then Inl ErrInvalidLength
             else if n > int (length rest) then Inl ErrUnexpectedEOF
             else Inr (take (nat n) rest, drop (nat n) rest))"

fun le_val :: "bytes \<Rightarrow> nat" where
  "le_val [] = 0"
| "le_val (b # bs) = unat b + 256 * le_val bs"

definition read_fixed64 :: "bytes \<Rightarrow> proto_error + (int \<times> bytes)" where
  "read_fixed64 bs =
     (if length bs < 8 then Inl ErrUnexpectedEOF
      else Inr (sint (word_of_nat (le_val (take 8 bs)) :: 64 word), drop 8 bs))"

text \<open>Consumption, which makes the loops below end.\<close>

lemma varint_loop_shorter: "varint_loop s acc bs = Inr (w, rest) \<Longrightarrow> length rest < length bs"
proof (induction s acc bs rule: varint_loop.induct)
  case (1 s acc bs)
  then show ?case
    by (cases bs) (auto simp: varint_loop.simps [of s acc] Let_def less_SucI split: if_splits)
qed

lemma read_varint_shorter: "read_varint bs = Inr (w, rest) \<Longrightarrow> length rest < length bs"
  by (simp add: read_varint_def varint_loop_shorter)

section \<open>Unknown fields\<close>

text \<open>The index is not negative; it becomes so only when an addition passes \<open>MaxInt64\<close>.\<close>

definition skip_field :: "bytes \<Rightarrow> nat \<Rightarrow> nat \<Rightarrow> proto_error + (int \<times> nat)" where
  "skip_field dAtA iNdEx depth =
     (case read_varint (drop iNdEx dAtA) of
        Inl e \<Rightarrow> Inl e
      | Inr (wire, rest) \<Rightarrow>
          let i = length dAtA - length rest;
              wireType = unat (wire AND 7)
          in if wireType = 0
             then (case read_varint rest of
                     Inl e \<Rightarrow> Inl e
                   | Inr (w, rest') \<Rightarrow> Inr (int (length dAtA - length rest'), depth))
             else if wireType = 1 then Inr (int i + 8, depth)
             else if wireType = 2
             then (case read_varint rest of
                     Inl e \<Rightarrow> Inl e
                   | Inr (w, rest') \<Rightarrow>
                       if sint w < 0 then Inl ErrInvalidLength
                       else Inr (int (length dAtA - length rest') + sint w, depth))
             else if wireType = 3 then Inr (int i, depth + 1)
             else if wireType = 4 then (if depth = 0 then Inl ErrUnexpectedEndOfGroup else Inr (int i, depth - 1))
             else if wireType = 5 then Inr (int i + 4, depth)
             else Inl IllegalWireType)"

lemma skip_field_progress:
  assumes "skip_field d i k = Inr (j, k')" and "i < length d"
  shows "int i < j"
proof -
  obtain wire rest where r: "read_varint (drop i d) = Inr (wire, rest)"
    using assms(1) by (cases "read_varint (drop i d)") (auto simp: skip_field_def)
  have len: "length rest < length d - i" using read_varint_shorter [OF r] by simp
  then show ?thesis using assms r
    by (auto simp: skip_field_def Let_def split: if_splits sum.splits prod.splits dest!: read_varint_shorter)
qed

function skip_loop :: "bytes \<Rightarrow> nat \<Rightarrow> nat \<Rightarrow> proto_error + int" where
  "skip_loop dAtA iNdEx depth =
     (if iNdEx \<ge> length dAtA then Inl ErrUnexpectedEOF
      else case skip_field dAtA iNdEx depth of
        Inl e \<Rightarrow> Inl e
      | Inr (j, depth') \<Rightarrow>
          if j > MaxInt64 then Inl ErrInvalidLength
          else if depth' = 0 then Inr j
          else skip_loop dAtA (nat j) depth')"
  by pat_completeness auto
termination by (relation "measure (\<lambda>(d, i, k). length d - i)") (auto dest!: skip_field_progress)

declare skip_loop.simps [simp del]

definition skipCanonical :: "bytes \<Rightarrow> proto_error + int" where
  "skipCanonical dAtA = skip_loop dAtA 0 0"

section \<open>The loop over the fields\<close>

text \<open>
  A handler decodes the field with a given number and wire type; \<open>None\<close> is an unknown field. The fuel
  is the number of bytes, and every turn consumes at least one.
\<close>

type_synonym 'm handler = "int \<Rightarrow> nat \<Rightarrow> nat \<Rightarrow> 'm \<Rightarrow> bytes \<Rightarrow> (proto_error + ('m \<times> bytes)) option"

fun unmarshal_loop :: "'m handler \<Rightarrow> nat \<Rightarrow> nat \<Rightarrow> 'm \<Rightarrow> bytes \<Rightarrow> (proto_error + 'm) option" where
  "unmarshal_loop h l fuel m [] = Some (Inr m)"
| "unmarshal_loop h l 0 m (b # bs) = None"
| "unmarshal_loop h l (Suc fuel) m (b # bs) =
     (case read_varint (b # bs) of
        Inl e \<Rightarrow> Some (Inl e)
      | Inr (wire, rest) \<Rightarrow>
          let fieldNum = sint (ucast (drop_bit 3 wire) :: 32 word);
              wireType = unat (wire AND 7)
          in if wireType = 4 then Some (Inl EndGroupTag)
             else if fieldNum \<le> 0 then Some (Inl IllegalTag)
             else (case h fieldNum wireType l m rest of
                 Some (Inl e) \<Rightarrow> Some (Inl e)
               | Some (Inr (m', rest')) \<Rightarrow> unmarshal_loop h l fuel m' rest'
               | None \<Rightarrow>
                   (case skipCanonical (b # bs) of
                      Inl e \<Rightarrow> Some (Inl e)
                    | Inr skippy \<Rightarrow>
                        let iNdEx = int (l - length (b # bs))
                        in if skippy < 0 \<or> wrap64 (iNdEx + skippy) < 0 then Some (Inl ErrInvalidLength)
                           else if skippy > int (length (b # bs)) then Some (Inl ErrUnexpectedEOF)
                           else unmarshal_loop h l fuel m (drop (nat skippy) (b # bs)))))"

definition unmarshal :: "'m handler \<Rightarrow> 'm \<Rightarrow> bytes \<Rightarrow> (proto_error + 'm) option" where
  "unmarshal h m dAtA = unmarshal_loop h (length dAtA) (length dAtA) m dAtA"

text \<open>Decoding a field and storing it.\<close>

definition field_varint :: "nat \<Rightarrow> bytes \<Rightarrow> (64 word \<Rightarrow> 'm) \<Rightarrow> (proto_error + ('m \<times> bytes)) option" where
  "field_varint wireType bs f =
     Some (if wireType \<noteq> 0 then Inl WrongWireType
           else case read_varint bs of Inl e \<Rightarrow> Inl e | Inr (w, rest) \<Rightarrow> Inr (f w, rest))"

definition field_fixed64 :: "nat \<Rightarrow> bytes \<Rightarrow> (int \<Rightarrow> 'm) \<Rightarrow> (proto_error + ('m \<times> bytes)) option" where
  "field_fixed64 wireType bs f =
     Some (if wireType \<noteq> 1 then Inl WrongWireType
           else case read_fixed64 bs of Inl e \<Rightarrow> Inl e | Inr (x, rest) \<Rightarrow> Inr (f x, rest))"

definition field_bytes :: "nat \<Rightarrow> nat \<Rightarrow> bytes \<Rightarrow> (bytes \<Rightarrow> 'm) \<Rightarrow> (proto_error + ('m \<times> bytes)) option" where
  "field_bytes wireType l bs f =
     Some (if wireType \<noteq> 2 then Inl WrongWireType
           else case read_delim l bs of Inl e \<Rightarrow> Inl e | Inr (x, rest) \<Rightarrow> Inr (f x, rest))"

text \<open>A nested message, decoded by \<open>u\<close>; the fuel of \<open>u\<close> does not run out.\<close>

definition field_msg :: "nat \<Rightarrow> nat \<Rightarrow> bytes \<Rightarrow> (bytes \<Rightarrow> (proto_error + 'x) option) \<Rightarrow> ('x \<Rightarrow> 'm) \<Rightarrow>
    (proto_error + ('m \<times> bytes)) option" where
  "field_msg wireType l bs u f =
     Some (if wireType \<noteq> 2 then Inl WrongWireType
           else case read_delim l bs of
             Inl e \<Rightarrow> Inl e
           | Inr (x, rest) \<Rightarrow>
               (case the (u x) of Inl e \<Rightarrow> Inl e | Inr v \<Rightarrow> Inr (f v, rest)))"

section \<open>Messages\<close>

definition CanonicalPartSetHeader_field :: "PartSetHeader handler" where
  "CanonicalPartSetHeader_field fieldNum wireType l m bs =
     (if fieldNum = 1 then field_varint wireType bs (\<lambda>w. m\<lparr>psh_Total := unat (ucast w :: 32 word)\<rparr>)
      else if fieldNum = 2 then field_bytes wireType l bs (\<lambda>x. m\<lparr>psh_Hash := x\<rparr>)
      else None)"

definition CanonicalPartSetHeader_Unmarshal :: "PartSetHeader \<Rightarrow> bytes \<Rightarrow> (proto_error + PartSetHeader) option" where
  "CanonicalPartSetHeader_Unmarshal m dAtA = unmarshal CanonicalPartSetHeader_field m dAtA"

definition CanonicalBlockID_field :: "CanonicalBlockID handler" where
  "CanonicalBlockID_field fieldNum wireType l m bs =
     (if fieldNum = 1 then field_bytes wireType l bs (\<lambda>x. m\<lparr>cbid_Hash := x\<rparr>)
      else if fieldNum = 2
      then field_msg wireType l bs (CanonicalPartSetHeader_Unmarshal (cbid_PartSetHeader m))
             (\<lambda>v. m\<lparr>cbid_PartSetHeader := v\<rparr>)
      else None)"

definition CanonicalBlockID_Unmarshal :: "CanonicalBlockID \<Rightarrow> bytes \<Rightarrow> (proto_error + CanonicalBlockID) option" where
  "CanonicalBlockID_Unmarshal m dAtA = unmarshal CanonicalBlockID_field m dAtA"

abbreviation zero_psh :: PartSetHeader where "zero_psh \<equiv> \<lparr>psh_Total = 0, psh_Hash = []\<rparr>"
abbreviation zero_cbid :: CanonicalBlockID where "zero_cbid \<equiv> \<lparr>cbid_Hash = [], cbid_PartSetHeader = zero_psh\<rparr>"

definition or_new :: "CanonicalBlockID option \<Rightarrow> CanonicalBlockID" where
  "or_new b = (case b of None \<Rightarrow> zero_cbid | Some m \<Rightarrow> m)"

definition time_Unmarshal :: "(bytes \<Rightarrow> int option) \<Rightarrow> bytes \<Rightarrow> (proto_error + int) option" where
  "time_Unmarshal tu dAtA = Some (case tu dAtA of None \<Rightarrow> Inl TimeError | Some t \<Rightarrow> Inr t)"

definition CanonicalVote_field :: "(bytes \<Rightarrow> int option) \<Rightarrow> CanonicalVote handler" where
  "CanonicalVote_field tu fieldNum wireType l m bs =
     (if fieldNum = 1 then field_varint wireType bs (\<lambda>w. m\<lparr>cv_Type := sint (ucast w :: 32 word)\<rparr>)
      else if fieldNum = 2 then field_fixed64 wireType bs (\<lambda>x. m\<lparr>cv_Height := x\<rparr>)
      else if fieldNum = 3 then field_fixed64 wireType bs (\<lambda>x. m\<lparr>cv_Round := x\<rparr>)
      else if fieldNum = 4
      then field_msg wireType l bs (CanonicalBlockID_Unmarshal (or_new (cv_BlockID m))) (\<lambda>v. m\<lparr>cv_BlockID := Some v\<rparr>)
      else if fieldNum = 5 then field_msg wireType l bs (time_Unmarshal tu) (\<lambda>v. m\<lparr>cv_Timestamp := v\<rparr>)
      else if fieldNum = 6 then field_bytes wireType l bs (\<lambda>x. m\<lparr>cv_ChainID := x\<rparr>)
      else None)"

definition CanonicalVote_Unmarshal :: "(bytes \<Rightarrow> int option) \<Rightarrow> bytes \<Rightarrow> (proto_error + CanonicalVote) option" where
  "CanonicalVote_Unmarshal tu dAtA =
     unmarshal (CanonicalVote_field tu)
       \<lparr>cv_Type = 0, cv_Height = 0, cv_Round = 0, cv_BlockID = None, cv_Timestamp = 0, cv_ChainID = []\<rparr> dAtA"

definition CanonicalProposal_field :: "(bytes \<Rightarrow> int option) \<Rightarrow> CanonicalProposal handler" where
  "CanonicalProposal_field tu fieldNum wireType l m bs =
     (if fieldNum = 1 then field_varint wireType bs (\<lambda>w. m\<lparr>cp_Type := sint (ucast w :: 32 word)\<rparr>)
      else if fieldNum = 2 then field_fixed64 wireType bs (\<lambda>x. m\<lparr>cp_Height := x\<rparr>)
      else if fieldNum = 3 then field_fixed64 wireType bs (\<lambda>x. m\<lparr>cp_Round := x\<rparr>)
      else if fieldNum = 4 then field_varint wireType bs (\<lambda>w. m\<lparr>cp_POLRound := sint w\<rparr>)
      else if fieldNum = 5
      then field_msg wireType l bs (CanonicalBlockID_Unmarshal (or_new (cp_BlockID m))) (\<lambda>v. m\<lparr>cp_BlockID := Some v\<rparr>)
      else if fieldNum = 6 then field_msg wireType l bs (time_Unmarshal tu) (\<lambda>v. m\<lparr>cp_Timestamp := v\<rparr>)
      else if fieldNum = 7 then field_bytes wireType l bs (\<lambda>x. m\<lparr>cp_ChainID := x\<rparr>)
      else None)"

definition CanonicalProposal_Unmarshal :: "(bytes \<Rightarrow> int option) \<Rightarrow> bytes \<Rightarrow> (proto_error + CanonicalProposal) option" where
  "CanonicalProposal_Unmarshal tu dAtA =
     unmarshal (CanonicalProposal_field tu)
       \<lparr>cp_Type = 0, cp_Height = 0, cp_Round = 0, cp_POLRound = 0, cp_BlockID = None, cp_Timestamp = 0, cp_ChainID = []\<rparr> dAtA"

definition CanonicalVoteExtension_field :: "CanonicalVoteExtension handler" where
  "CanonicalVoteExtension_field fieldNum wireType l m bs =
     (if fieldNum = 1 then field_bytes wireType l bs (\<lambda>x. m\<lparr>ce_Extension := x\<rparr>)
      else if fieldNum = 2 then field_fixed64 wireType bs (\<lambda>x. m\<lparr>ce_Height := x\<rparr>)
      else if fieldNum = 3 then field_fixed64 wireType bs (\<lambda>x. m\<lparr>ce_Round := x\<rparr>)
      else if fieldNum = 4 then field_bytes wireType l bs (\<lambda>x. m\<lparr>ce_ChainId := x\<rparr>)
      else None)"

definition CanonicalVoteExtension_Unmarshal :: "bytes \<Rightarrow> (proto_error + CanonicalVoteExtension) option" where
  "CanonicalVoteExtension_Unmarshal dAtA =
     unmarshal CanonicalVoteExtension_field \<lparr>ce_Extension = [], ce_Height = 0, ce_Round = 0, ce_ChainId = []\<rparr> dAtA"

section \<open>The delimited reader\<close>

text \<open>\<open>binary.ReadUvarint\<close>: at most ten bytes, the last of them at most 1.\<close>

fun read_uvarint :: "nat \<Rightarrow> nat \<Rightarrow> bytes \<Rightarrow> proto_error + (nat \<times> bytes)" where
  "read_uvarint i x [] = Inl ErrUnexpectedEOF"
| "read_uvarint i x (b # bs) =
     (if i \<ge> 10 then Inl ErrIntOverflow
      else if b < 0x80 then (if i = 9 \<and> b > 1 then Inl ErrIntOverflow else Inr (x + unat b * 128 ^ i, bs))
      else read_uvarint (Suc i) (x + (unat b - 128) * 128 ^ i) bs)"

definition UnmarshalDelimited :: "(bytes \<Rightarrow> (proto_error + 'm) option) \<Rightarrow> bytes \<Rightarrow> (proto_error + 'm) option" where
  "UnmarshalDelimited u data =
     (case read_uvarint 0 0 data of
        Inl e \<Rightarrow> Some (Inl e)
      | Inr (len, rest) \<Rightarrow>
          if int len \<ge> MaxInt64 \<or> wrap64 (int (length data - length rest) + int len) < 0 then Some (Inl LengthOutOfRange)
          else if len > length data then Some (Inl MessageTooBig)
          else if length rest < len then Some (Inl ErrUnexpectedEOF)
          else u (take len rest))"

section \<open>Reading what was written\<close>

lemma low_bits: "word_of_nat (n mod 128) OR push_bit 7 (word_of_nat (n div 128)) = (word_of_nat n :: 64 word)"
proof -
  have "n = take_bit 7 n OR push_bit 7 (drop_bit 7 n)"
  proof (rule bit_eqI)
    fix i
    show "bit n i = bit (take_bit 7 n OR push_bit 7 (drop_bit 7 n)) i"
      by (cases "i < 7") (auto simp: bit_or_iff bit_take_bit_iff bit_push_bit_iff bit_drop_bit_eq)
  qed
  then have "(word_of_nat n :: 64 word) = word_of_nat (take_bit 7 n OR push_bit 7 (drop_bit 7 n))" by simp
  then show ?thesis by (simp add: of_nat_or_eq of_nat_push_bit take_bit_eq_mod drop_bit_eq_div)
qed

lemma ucast_via_unat: "unat (x :: 8 word) = k \<Longrightarrow> ucast x = (word_of_nat k :: 64 word)"
  by auto

lemma byte_low: "k < 128 \<Longrightarrow> ucast ((word_of_nat k :: 8 word) AND 0x7F) = (word_of_nat k :: 64 word)"
  and byte_high: "k < 128 \<Longrightarrow> ucast ((word_of_nat (k + 128) :: 8 word) AND 0x7F) = (word_of_nat k :: 64 word)"
proof -
  assume k: "k < 128"
  have "unat ((w :: 8 word) AND 0x7F) = unat w mod 128" for w
  proof -
    have "w AND 0x7F = take_bit 7 w" by (simp add: take_bit_eq_mask mask_eq_exp_minus_1)
    then show ?thesis by (simp only: unsigned_take_bit_eq) (simp add: take_bit_eq_mod)
  qed
  then show "ucast ((word_of_nat k :: 8 word) AND 0x7F) = (word_of_nat k :: 64 word)"
    "ucast ((word_of_nat (k + 128) :: 8 word) AND 0x7F) = (word_of_nat k :: 64 word)"
    using k by (auto intro!: ucast_via_unat simp: byte_of_nat simp del: of_nat_add)
qed

lemma varint_loop_varint:
  assumes "n * 2 ^ s < 2 ^ 64" and "0 < n \<or> s < 64"
  shows "varint_loop s acc (varint n @ rest) = Inr (acc OR push_bit s (word_of_nat n), rest)"
  using assms
proof (induction n arbitrary: s acc rule: varint.induct)
  case (1 n)
  have s: "s < 64"
  proof (rule ccontr)
    assume "\<not> s < 64"
    then have "0 < n" "(2 :: nat) ^ 64 \<le> 2 ^ s" using 1(3) power_increasing [of 64 s "2 :: nat"] by auto
    then have "(2 :: nat) ^ 64 \<le> n * 2 ^ s" by (metis mult_le_mono nat_mult_1 Suc_leI One_nat_def)
    then show False using 1(2) by simp
  qed
  show ?case
  proof (cases "128 \<le> n")
    case False
    then show ?thesis using s
      by (simp add: varint.simps [of n] varint_loop.simps [of s] byte_low Let_def word_less_nat_alt byte_of_nat)
  next
    case True
    have d: "n div 128 * 2 ^ (s + 7) < 2 ^ 64"
    proof -
      have "n div 128 * 2 ^ (s + 7) = (n div 128 * 128) * 2 ^ s" by (simp add: power_add)
      also have "\<dots> \<le> n * 2 ^ s" by (intro mult_le_mono1) simp
      finally show ?thesis using 1(2) by simp
    qed
    have "push_bit s (word_of_nat (n mod 128)) OR push_bit (s + 7) (word_of_nat (n div 128)) =
        push_bit s (word_of_nat (n mod 128) OR push_bit 7 (word_of_nat (n div 128) :: 64 word))"
      by (simp add: push_bit_or push_bit_push_bit)
    then have "push_bit s (word_of_nat (n mod 128)) OR push_bit (s + 7) (word_of_nat (n div 128)) =
        push_bit s (word_of_nat n :: 64 word)"
      by (simp only: low_bits)
    moreover define b where "b = (word_of_nat (n mod 128 + 128) :: 8 word)"
    have "\<not> b < 0x80" "ucast (b AND 0x7F) = (word_of_nat (n mod 128) :: 64 word)"
      using byte_of_nat [of "n mod 128 + 128"] byte_high [of "n mod 128"] by (simp_all add: word_less_nat_alt b_def del: of_nat_add)
    moreover have "varint n = b # varint (n div 128)" using True by (simp add: varint.simps [of n] b_def)
    moreover have "0 < n div 128 \<or> s + 7 < 64" using True by (simp add: div_greater_zero_iff)
    ultimately show ?thesis using True s 1(1) [OF True d] by (simp add: varint_loop.simps [of s] Let_def or.assoc)
  qed
qed

lemma read_varint_varint: "n < 18446744073709551616 \<Longrightarrow> read_varint (varint n @ rest) = Inr (word_of_nat n, rest)"
  using varint_loop_varint [of n 0 0 rest] by (simp add: read_varint_def)

lemma sint_small: "n < 9223372036854775808 \<Longrightarrow> sint (word_of_nat n :: 64 word) = int n"
  by (simp add: signed_of_nat signed_take_bit_int_eq_self)

lemma read_delim_delim:
  assumes "length (bz @ rest) \<le> l" and "int l \<le> MaxInt64"
  shows "read_delim l (varint (length bz) @ bz @ rest) = Inr (bz, rest)"
proof -
  have "read_varint (varint (length bz) @ bz @ rest) = Inr (word_of_nat (length bz), bz @ rest)"
    using assms by (intro read_varint_varint) simp
  moreover have "wrap64 (int (l - length (bz @ rest)) + int (length bz)) = int (l - length (bz @ rest)) + int (length bz)"
    using assms by (intro wrap64_id) (simp add: in64_def)
  ultimately show ?thesis using assms sint_small [of "length bz"] by (simp add: read_delim_def Let_def)
qed

lemma le_val_le_bytes: "v < 256 ^ k \<Longrightarrow> le_val (le_bytes k v) = v"
proof (induction k arbitrary: v)
  case 0
  then show ?case by simp
next
  case (Suc k)
  then have "v div 256 < 256 ^ k" by (simp add: less_mult_imp_div_less mult.commute)
  then show ?case using Suc.IH by (simp add: byte_of_nat)
qed

lemma u64_bound: "u64 x < 18446744073709551616"
  by (simp add: u64_def nat_less_iff)

lemma word_u64: "(word_of_nat (u64 x) :: 64 word) = word_of_int x"
proof -
  have "(word_of_nat (u64 x) :: 64 word) = word_of_int (x mod 2 ^ 64)" by (simp add: u64_def)
  also have "\<dots> = word_of_int x" by (simp add: word_of_int_eq_iff take_bit_eq_mod)
  finally show ?thesis .
qed

lemma sint_u64: "in64 x \<Longrightarrow> sint (word_of_nat (u64 x) :: 64 word) = x"
  using wrap64_word [of x] by (simp add: word_u64)

lemma read_fixed64_le: "in64 x \<Longrightarrow> read_fixed64 (le_bytes 8 (u64 x) @ rest) = Inr (x, rest)"
  using le_val_le_bytes [of "u64 x" 8] u64_bound [of x] by (simp add: read_fixed64_def sint_u64)

text \<open>The loop reads \<open>bs\<close> into \<open>m\<close> and ends with \<open>m'\<close>, whatever fuel is left over.\<close>

definition decodes :: "'m handler \<Rightarrow> nat \<Rightarrow> 'm \<Rightarrow> bytes \<Rightarrow> 'm \<Rightarrow> bool" where
  "decodes h l m bs m' \<longleftrightarrow> (\<forall>fuel \<ge> length bs. unmarshal_loop h l fuel m bs = Some (Inr m'))"

lemma decodes_Nil: "m = m' \<Longrightarrow> decodes h l m [] m'"
  by (simp add: decodes_def)

lemma read_varint_tag: "t < 0x80 \<Longrightarrow> read_varint (t # rest) = Inr (ucast t, rest)"
proof -
  assume t: "t < 0x80"
  then have "varint (unat t) = [t]" by (simp add: varint.simps word_less_nat_alt)
  moreover have "unat t < 18446744073709551616" using t by (simp add: word_less_nat_alt)
  ultimately show ?thesis using read_varint_varint [of "unat t" rest] by simp
qed

lemma tag_word:
  assumes "t < (0x80 :: 8 word)"
  shows "sint (ucast (drop_bit 3 (ucast t :: 64 word)) :: 32 word) = int (unat t div 8)"
    and "unat ((ucast t :: 64 word) AND 7) = unat t mod 8"
proof -
  have n: "unat t < 128" using assms by (simp add: word_less_nat_alt)
  have u: "unat (ucast t :: 64 word) = unat t" using n by (simp add: unsigned_ucast_eq take_bit_nat_eq_self)
  then have "unat (drop_bit 3 (ucast t :: 64 word)) = unat t div 8" unfolding unat_drop_bit_eq by (simp add: drop_bit_eq_div)
  then have "(ucast (drop_bit 3 (ucast t :: 64 word)) :: 32 word) = word_of_nat (unat t div 8)" by (metis of_nat_unat)
  then show "sint (ucast (drop_bit 3 (ucast t :: 64 word)) :: 32 word) = int (unat t div 8)"
    using n by (simp add: signed_of_nat signed_take_bit_int_eq_self)
  have "(ucast t :: 64 word) AND 7 = take_bit 3 (ucast t)" by (simp add: take_bit_eq_mask mask_eq_exp_minus_1)
  then show "unat ((ucast t :: 64 word) AND 7) = unat t mod 8"
    by (simp only: unsigned_take_bit_eq u) (simp add: take_bit_eq_mod)
qed

lemma decodes_step:
  assumes t: "t < 0x80" "unat t mod 8 \<noteq> 4" "0 < unat t div 8"
    and h: "h (int (unat t div 8)) (unat t mod 8) l m bs = Some (Inr (mm, rest))" and len: "length rest \<le> length bs"
    and d: "decodes h l mm rest m'"
  shows "decodes h l m (t # bs) m'"
  unfolding decodes_def
proof (intro allI impI)
  fix fuel
  assume "length (t # bs) \<le> fuel"
  then obtain n where n: "fuel = Suc n" "length rest \<le> n" using len by (cases fuel) auto
  then show "unmarshal_loop h l fuel m (t # bs) = Some (Inr m')"
    using h d t by (simp add: read_varint_tag tag_word Let_def decodes_def)
qed

text \<open>The four kinds of fields; a field with the default value is not written and not needed.\<close>

lemma decodes_varint:
  assumes "t < 0x80" "unat t mod 8 = 0" "0 < unat t div 8"
    and "\<And>bs. h (int (unat t div 8)) 0 l m bs = field_varint 0 bs f" and "v < 18446744073709551616"
    and "v = 0 \<Longrightarrow> f 0 = m" and "decodes h l (f (word_of_nat v)) rest m'"
  shows "decodes h l m (pb_varint t v @ rest) m'"
proof (cases "v = 0")
  case True
  then show ?thesis using assms(6,7) by (simp add: pb_varint_def)
next
  case False
  have "decodes h l m (t # varint v @ rest) m'"
    by (rule decodes_step [where mm = "f (word_of_nat v)" and rest = rest])
       (use assms read_varint_varint [OF assms(5), of rest] in \<open>auto simp: field_varint_def\<close>)
  then show ?thesis using False by (simp add: pb_varint_def)
qed

lemma decodes_fixed64:
  assumes "t < 0x80" "unat t mod 8 = 1" "0 < unat t div 8"
    and "\<And>bs. h (int (unat t div 8)) 1 l m bs = field_fixed64 1 bs f" and "in64 x"
    and "x = 0 \<Longrightarrow> f 0 = m" and "decodes h l (f x) rest m'"
  shows "decodes h l m (pb_fixed64 t x @ rest) m'"
proof (cases "x = 0")
  case True
  then show ?thesis using assms(6,7) by (simp add: pb_fixed64_def)
next
  case False
  have "decodes h l m (t # le_bytes 8 (u64 x) @ rest) m'"
    by (rule decodes_step [where mm = "f x" and rest = rest])
       (use assms read_fixed64_le [OF assms(5), of rest] in \<open>auto simp: field_fixed64_def\<close>)
  then show ?thesis using False by (simp add: pb_fixed64_def)
qed

lemma decodes_bytes:
  assumes "t < 0x80" "unat t mod 8 = 2" "0 < unat t div 8"
    and "\<And>bs. h (int (unat t div 8)) 2 l m bs = field_bytes 2 l bs f" and "length (x @ rest) \<le> l" "int l \<le> MaxInt64"
    and "x = [] \<Longrightarrow> f [] = m" and "decodes h l (f x) rest m'"
  shows "decodes h l m (pb_bytes t x @ rest) m'"
proof (cases "x = []")
  case True
  then show ?thesis using assms(7,8) by (simp add: pb_bytes_def)
next
  case False
  have "decodes h l m (t # varint (length x) @ x @ rest) m'"
    by (rule decodes_step [where mm = "f x" and rest = rest])
       (use assms read_delim_delim [OF assms(5,6)] in \<open>auto simp: field_bytes_def\<close>)
  then show ?thesis using False by (simp add: pb_bytes_def pb_msg_def)
qed

lemma decodes_msg:
  assumes "t < 0x80" "unat t mod 8 = 2" "0 < unat t div 8"
    and "\<And>bs. h (int (unat t div 8)) 2 l m bs = field_msg 2 l bs u f" and "length (x @ rest) \<le> l" "int l \<le> MaxInt64"
    and "u x = Some (Inr v)" and "decodes h l (f v) rest m'"
  shows "decodes h l m (pb_msg t x @ rest) m'"
proof -
  have "decodes h l m (t # varint (length x) @ x @ rest) m'"
    by (rule decodes_step [where mm = "f v" and rest = rest])
       (use assms read_delim_delim [OF assms(5,6)] in \<open>auto simp: field_msg_def\<close>)
  then show ?thesis by (simp add: pb_msg_def)
qed

lemma unmarshal_decodes: "decodes h (length bs) m bs m' \<Longrightarrow> unmarshal h m bs = Some (Inr m')"
  by (simp add: decodes_def unmarshal_def)

lemma pb_bytes_length: "length x \<le> length (pb_bytes t x)"
  by (simp add: pb_bytes_def pb_msg_def)

lemma PartSetHeader_decode:
  assumes "psh_Total m < 4294967296" and "int (length (PartSetHeader_Marshal m)) \<le> MaxInt64"
  shows "CanonicalPartSetHeader_Unmarshal zero_psh (PartSetHeader_Marshal m) = Some (Inr m)"
  unfolding CanonicalPartSetHeader_Unmarshal_def
proof (rule unmarshal_decodes)
  let ?l = "length (PartSetHeader_Marshal m)" and ?h = CanonicalPartSetHeader_field
  have len: "length (psh_Hash m) \<le> ?l" using pb_bytes_length [of "psh_Hash m" "0x12"] by (simp add: PartSetHeader_Marshal_def)
  have tot: "unat (ucast (word_of_nat (psh_Total m) :: 64 word) :: 32 word) = psh_Total m"
    using assms(1) by (simp add: unsigned_ucast_eq unsigned_of_nat take_bit_nat_eq_self)
  have "decodes ?h ?l \<lparr>psh_Total = psh_Total m, psh_Hash = []\<rparr> (pb_bytes 0x12 (psh_Hash m) @ []) m"
    by (rule decodes_bytes [where f = "\<lambda>x. \<lparr>psh_Total = psh_Total m, psh_Hash = x\<rparr>"])
       (use len assms(2) in \<open>auto simp: CanonicalPartSetHeader_field_def intro: decodes_Nil\<close>)
  then have "decodes ?h ?l zero_psh (pb_varint 0x08 (psh_Total m) @ pb_bytes 0x12 (psh_Hash m)) m"
    by (intro decodes_varint [where f = "\<lambda>w. zero_psh\<lparr>psh_Total := unat (ucast w :: 32 word)\<rparr>"])
       (use assms(1) tot in \<open>auto simp: CanonicalPartSetHeader_field_def\<close>)
  then show "decodes ?h ?l zero_psh (PartSetHeader_Marshal m) m" by (simp add: PartSetHeader_Marshal_def)
qed

lemma pb_msg_length: "length x \<le> length (pb_msg t x)"
  by (simp add: pb_msg_def)

lemma BlockID_decode:
  assumes "psh_Total (cbid_PartSetHeader m) < 4294967296" and "int (length (CanonicalBlockID_Marshal m)) \<le> MaxInt64"
  shows "CanonicalBlockID_Unmarshal zero_cbid (CanonicalBlockID_Marshal m) = Some (Inr m)"
  unfolding CanonicalBlockID_Unmarshal_def
proof (rule unmarshal_decodes)
  let ?l = "length (CanonicalBlockID_Marshal m)" and ?h = CanonicalBlockID_field
  let ?p = "PartSetHeader_Marshal (cbid_PartSetHeader m)"
  have len: "length (cbid_Hash m) + length (pb_msg 0x12 ?p) \<le> ?l" "length ?p \<le> ?l"
    using pb_bytes_length [of "cbid_Hash m" "0x0a"] pb_msg_length [of ?p "0x12"] by (simp_all add: CanonicalBlockID_Marshal_def)
  have sub: "CanonicalPartSetHeader_Unmarshal zero_psh ?p = Some (Inr (cbid_PartSetHeader m))"
    using assms len(2) by (intro PartSetHeader_decode) auto
  have "decodes ?h ?l (zero_cbid\<lparr>cbid_Hash := cbid_Hash m\<rparr>) (pb_msg 0x12 ?p @ []) m"
    by (rule decodes_msg [where u = "CanonicalPartSetHeader_Unmarshal zero_psh"
          and f = "\<lambda>v. zero_cbid\<lparr>cbid_Hash := cbid_Hash m, cbid_PartSetHeader := v\<rparr>"])
       (use len assms(2) sub in \<open>auto simp: CanonicalBlockID_field_def intro: decodes_Nil\<close>)
  then have "decodes ?h ?l zero_cbid (pb_bytes 0x0a (cbid_Hash m) @ pb_msg 0x12 ?p) m"
    by (intro decodes_bytes [where f = "\<lambda>x. zero_cbid\<lparr>cbid_Hash := x\<rparr>"])
       (use len(1) assms(2) in \<open>auto simp: CanonicalBlockID_field_def\<close>)
  then show "decodes ?h ?l zero_cbid (CanonicalBlockID_Marshal m) m" by (simp add: CanonicalBlockID_Marshal_def)
qed

lemma decodes_block_id:
  assumes "t < 0x80" "unat t mod 8 = 2" "0 < unat t div 8"
    and "\<And>bs. h (int (unat t div 8)) 2 l m bs = field_msg 2 l bs (CanonicalBlockID_Unmarshal zero_cbid) (\<lambda>v. f (Some v))"
    and "length (pb_block_id t b @ rest) \<le> l" "int l \<le> MaxInt64"
    and "\<And>x. b = Some x \<Longrightarrow> psh_Total (cbid_PartSetHeader x) < 4294967296"
    and "b = None \<Longrightarrow> f None = m" and "decodes h l (f b) rest m'"
  shows "decodes h l m (pb_block_id t b @ rest) m'"
proof (cases b)
  case None
  then show ?thesis using assms(8,9) by (simp add: pb_block_id_def)
next
  case (Some x)
  have len: "length (CanonicalBlockID_Marshal x @ rest) \<le> l"
    using assms(5) Some pb_msg_length [of "CanonicalBlockID_Marshal x" t] by (simp add: pb_block_id_def)
  then have "CanonicalBlockID_Unmarshal zero_cbid (CanonicalBlockID_Marshal x) = Some (Inr x)"
    using assms(6,7) Some by (intro BlockID_decode) auto
  then have "decodes h l m (pb_msg t (CanonicalBlockID_Marshal x) @ rest) m'"
    using Some assms(1-4,6,9) len
    by - (rule decodes_msg [where u = "CanonicalBlockID_Unmarshal zero_cbid" and f = "\<lambda>v. f (Some v)"], auto)
  then show ?thesis using Some by (simp add: pb_block_id_def)
qed

text \<open>What the code relies on: the decoder of timestamps inverts their encoder.\<close>

definition time_inverts :: "ext_env \<Rightarrow> (bytes \<Rightarrow> int option) \<Rightarrow> bool" where
  "time_inverts ce tu \<longleftrightarrow> (\<forall>t b. stdTimeMarshal ce t = Some b \<longrightarrow> tu b = Some t)"

definition bid_range :: "CanonicalBlockID option \<Rightarrow> bool" where
  "bid_range b \<longleftrightarrow> (\<forall>x. b = Some x \<longrightarrow> psh_Total (cbid_PartSetHeader x) < 4294967296)"

definition vote_range :: "CanonicalVote \<Rightarrow> bool" where
  "vote_range m \<longleftrightarrow> in32 (cv_Type m) \<and> in64 (cv_Height m) \<and> in64 (cv_Round m) \<and> bid_range (cv_BlockID m)"

lemma sint_type: "in32 x \<Longrightarrow> sint (ucast (word_of_nat (u64 x) :: 64 word) :: 32 word) = x"
proof -
  have "(ucast (word_of_int x :: 64 word) :: 32 word) = word_of_int x"
    by (simp add: unsigned_of_int word_of_int_eq_iff)
  then show "in32 x \<Longrightarrow> ?thesis" by (simp add: word_u64 in32_def sint_sbintrunc' signed_take_bit_int_eq_self)
qed

lemma CanonicalVote_decode:
  assumes r: "vote_range m" and tm: "time_inverts ce tu" and z: "CanonicalVote_Marshal ce m = Some z" and "int (length z) \<le> MaxInt64"
  shows "CanonicalVote_Unmarshal tu z = Some (Inr m)"
  unfolding CanonicalVote_Unmarshal_def
proof (rule unmarshal_decodes)
  let ?h = "CanonicalVote_field tu" and ?l = "length z"
  let ?m0 = "\<lparr>cv_Type = 0, cv_Height = 0, cv_Round = 0, cv_BlockID = None, cv_Timestamp = 0, cv_ChainID = []\<rparr>"
  obtain ts where ts: "stdTimeMarshal ce (cv_Timestamp m) = Some ts" "tu ts = Some (cv_Timestamp m)"
    and zz: "z = pb_varint 0x08 (u64 (cv_Type m)) @ pb_fixed64 0x11 (cv_Height m) @
         pb_fixed64 0x19 (cv_Round m) @ pb_block_id 0x22 (cv_BlockID m) @ pb_msg 0x2a ts @ pb_bytes 0x32 (cv_ChainID m)"
    using z tm by (auto simp: CanonicalVote_Marshal_def time_inverts_def split: bind_splits)
  have len: "length (cv_ChainID m) \<le> ?l" "length ts + length (pb_bytes 0x32 (cv_ChainID m)) \<le> ?l"
    "length (pb_block_id 0x22 (cv_BlockID m)) + length (pb_msg 0x2a ts) + length (pb_bytes 0x32 (cv_ChainID m)) \<le> ?l"
    using pb_bytes_length [of "cv_ChainID m" "0x32"] pb_msg_length [of ts "0x2a"] by (simp_all add: zz)
  let ?m1 = "?m0\<lparr>cv_Type := cv_Type m\<rparr>" let ?m2 = "?m1\<lparr>cv_Height := cv_Height m\<rparr>" let ?m3 = "?m2\<lparr>cv_Round := cv_Round m\<rparr>"
  let ?m4 = "?m3\<lparr>cv_BlockID := cv_BlockID m\<rparr>" let ?m5 = "?m4\<lparr>cv_Timestamp := cv_Timestamp m\<rparr>"
  have "decodes ?h ?l ?m5 (pb_bytes 0x32 (cv_ChainID m) @ []) m"
    by (rule decodes_bytes [where f = "\<lambda>x. ?m5\<lparr>cv_ChainID := x\<rparr>"])
       (use len assms(4) in \<open>auto simp: CanonicalVote_field_def intro: decodes_Nil\<close>)
  then have "decodes ?h ?l ?m4 (pb_msg 0x2a ts @ pb_bytes 0x32 (cv_ChainID m)) m"
    by - (rule decodes_msg [where u = "time_Unmarshal tu" and f = "\<lambda>v. ?m4\<lparr>cv_Timestamp := v\<rparr>"],
        (use len assms(4) ts in \<open>auto simp: CanonicalVote_field_def time_Unmarshal_def\<close>)+)
  then have "decodes ?h ?l ?m3 (pb_block_id 0x22 (cv_BlockID m) @ pb_msg 0x2a ts @ pb_bytes 0x32 (cv_ChainID m)) m"
    by - (rule decodes_block_id [where f = "\<lambda>v. ?m3\<lparr>cv_BlockID := v\<rparr>"],
        (use len assms(4) r in \<open>auto simp: CanonicalVote_field_def or_new_def vote_range_def bid_range_def\<close>)+)
  then have "decodes ?h ?l ?m2 (pb_fixed64 0x19 (cv_Round m) @ pb_block_id 0x22 (cv_BlockID m) @ pb_msg 0x2a ts @
      pb_bytes 0x32 (cv_ChainID m)) m"
    by - (rule decodes_fixed64 [where f = "\<lambda>x. ?m2\<lparr>cv_Round := x\<rparr>"],
        (use r in \<open>auto simp: CanonicalVote_field_def vote_range_def\<close>)+)
  then have "decodes ?h ?l ?m1 (pb_fixed64 0x11 (cv_Height m) @ pb_fixed64 0x19 (cv_Round m) @ pb_block_id 0x22 (cv_BlockID m) @
      pb_msg 0x2a ts @ pb_bytes 0x32 (cv_ChainID m)) m"
    by - (rule decodes_fixed64 [where f = "\<lambda>x. ?m1\<lparr>cv_Height := x\<rparr>"],
        (use r in \<open>auto simp: CanonicalVote_field_def vote_range_def\<close>)+)
  then show "decodes ?h ?l ?m0 z m" unfolding zz
    by - (rule decodes_varint [where f = "\<lambda>w. ?m0\<lparr>cv_Type := sint (ucast w :: 32 word)\<rparr>"],
        (use r u64_bound sint_type in \<open>auto simp: CanonicalVote_field_def vote_range_def\<close>)+)
qed

definition proposal_range :: "CanonicalProposal \<Rightarrow> bool" where
  "proposal_range m \<longleftrightarrow> in32 (cp_Type m) \<and> in64 (cp_Height m) \<and> in64 (cp_Round m) \<and> in64 (cp_POLRound m) \<and> bid_range (cp_BlockID m)"

lemma CanonicalProposal_decode:
  assumes r: "proposal_range m" and tm: "time_inverts ce tu" and z: "CanonicalProposal_Marshal ce m = Some z"
    and "int (length z) \<le> MaxInt64"
  shows "CanonicalProposal_Unmarshal tu z = Some (Inr m)"
  unfolding CanonicalProposal_Unmarshal_def
proof (rule unmarshal_decodes)
  let ?h = "CanonicalProposal_field tu" and ?l = "length z"
  let ?m0 = "\<lparr>cp_Type = 0, cp_Height = 0, cp_Round = 0, cp_POLRound = 0, cp_BlockID = None, cp_Timestamp = 0, cp_ChainID = []\<rparr>"
  obtain ts where ts: "stdTimeMarshal ce (cp_Timestamp m) = Some ts" "tu ts = Some (cp_Timestamp m)"
    and zz: "z = pb_varint 0x08 (u64 (cp_Type m)) @ pb_fixed64 0x11 (cp_Height m) @ pb_fixed64 0x19 (cp_Round m) @
         pb_varint 0x20 (u64 (cp_POLRound m)) @ pb_block_id 0x2a (cp_BlockID m) @ pb_msg 0x32 ts @ pb_bytes 0x3a (cp_ChainID m)"
    using z tm by (auto simp: CanonicalProposal_Marshal_def time_inverts_def split: bind_splits)
  have len: "length (cp_ChainID m) \<le> ?l" "length ts + length (pb_bytes 0x3a (cp_ChainID m)) \<le> ?l"
    "length (pb_block_id 0x2a (cp_BlockID m)) + length (pb_msg 0x32 ts) + length (pb_bytes 0x3a (cp_ChainID m)) \<le> ?l"
    using pb_bytes_length [of "cp_ChainID m" "0x3a"] pb_msg_length [of ts "0x32"] by (simp_all add: zz)
  let ?m1 = "?m0\<lparr>cp_Type := cp_Type m\<rparr>" let ?m2 = "?m1\<lparr>cp_Height := cp_Height m\<rparr>" let ?m3 = "?m2\<lparr>cp_Round := cp_Round m\<rparr>"
  let ?m4 = "?m3\<lparr>cp_POLRound := cp_POLRound m\<rparr>" let ?m5 = "?m4\<lparr>cp_BlockID := cp_BlockID m\<rparr>"
  let ?m6 = "?m5\<lparr>cp_Timestamp := cp_Timestamp m\<rparr>"
  have "decodes ?h ?l ?m6 (pb_bytes 0x3a (cp_ChainID m) @ []) m"
    by (rule decodes_bytes [where f = "\<lambda>x. ?m6\<lparr>cp_ChainID := x\<rparr>"])
       (use len assms(4) in \<open>auto simp: CanonicalProposal_field_def intro: decodes_Nil\<close>)
  then have "decodes ?h ?l ?m5 (pb_msg 0x32 ts @ pb_bytes 0x3a (cp_ChainID m)) m"
    by - (rule decodes_msg [where u = "time_Unmarshal tu" and f = "\<lambda>v. ?m5\<lparr>cp_Timestamp := v\<rparr>"],
        (use len assms(4) ts in \<open>auto simp: CanonicalProposal_field_def time_Unmarshal_def\<close>)+)
  then have "decodes ?h ?l ?m4 (pb_block_id 0x2a (cp_BlockID m) @ pb_msg 0x32 ts @ pb_bytes 0x3a (cp_ChainID m)) m"
    by - (rule decodes_block_id [where f = "\<lambda>v. ?m4\<lparr>cp_BlockID := v\<rparr>"],
        (use len assms(4) r in \<open>auto simp: CanonicalProposal_field_def or_new_def proposal_range_def bid_range_def\<close>)+)
  then have "decodes ?h ?l ?m3 (pb_varint 0x20 (u64 (cp_POLRound m)) @ pb_block_id 0x2a (cp_BlockID m) @ pb_msg 0x32 ts @
      pb_bytes 0x3a (cp_ChainID m)) m"
    by - (rule decodes_varint [where f = "\<lambda>w. ?m3\<lparr>cp_POLRound := sint w\<rparr>"],
        (use r u64_bound sint_u64 in \<open>auto simp: CanonicalProposal_field_def proposal_range_def\<close>)+)
  then have "decodes ?h ?l ?m2 (pb_fixed64 0x19 (cp_Round m) @ pb_varint 0x20 (u64 (cp_POLRound m)) @
      pb_block_id 0x2a (cp_BlockID m) @ pb_msg 0x32 ts @ pb_bytes 0x3a (cp_ChainID m)) m"
    by - (rule decodes_fixed64 [where f = "\<lambda>x. ?m2\<lparr>cp_Round := x\<rparr>"],
        (use r in \<open>auto simp: CanonicalProposal_field_def proposal_range_def\<close>)+)
  then have "decodes ?h ?l ?m1 (pb_fixed64 0x11 (cp_Height m) @ pb_fixed64 0x19 (cp_Round m) @
      pb_varint 0x20 (u64 (cp_POLRound m)) @ pb_block_id 0x2a (cp_BlockID m) @ pb_msg 0x32 ts @ pb_bytes 0x3a (cp_ChainID m)) m"
    by - (rule decodes_fixed64 [where f = "\<lambda>x. ?m1\<lparr>cp_Height := x\<rparr>"],
        (use r in \<open>auto simp: CanonicalProposal_field_def proposal_range_def\<close>)+)
  then show "decodes ?h ?l ?m0 z m" unfolding zz
    by - (rule decodes_varint [where f = "\<lambda>w. ?m0\<lparr>cp_Type := sint (ucast w :: 32 word)\<rparr>"],
        (use r u64_bound sint_type in \<open>auto simp: CanonicalProposal_field_def proposal_range_def\<close>)+)
qed

section \<open>Decoding ends\<close>

lemma skip_loop_progress: "skip_loop d i k = Inr j \<Longrightarrow> int i < j"
proof (induction d i k rule: skip_loop.induct)
  case (1 d i k)
  then show ?case
    by (subst (asm) skip_loop.simps) (fastforce split: if_splits sum.splits dest: skip_field_progress)
qed

definition shrinking :: "'m handler \<Rightarrow> bool" where
  "shrinking h \<longleftrightarrow> (\<forall>f w l m bs m' rest. h f w l m bs = Some (Inr (m', rest)) \<longrightarrow> length rest \<le> length bs)"

lemma unmarshal_loop_total: "shrinking h \<Longrightarrow> length bs \<le> fuel \<Longrightarrow> unmarshal_loop h l fuel m bs \<noteq> None"
proof (induction h l fuel m bs rule: unmarshal_loop.induct)
  case (3 h l fuel m b bs)
  have *: "length rest \<le> length bs" if "read_varint (b # bs) = Inr (wire, rest)" for wire rest
    using read_varint_shorter [OF that] by simp
  show ?case
  proof (cases "read_varint (b # bs)")
    case (Inr p)
    obtain wire rest where p: "p = (wire, rest)" by (cases p)
    let ?f = "sint (ucast (drop_bit 3 wire) :: 32 word)" and ?w = "unat (wire AND 7)"
    show ?thesis
    proof (cases "h ?f ?w l m rest")
      case None
      have "fuel \<ge> length (drop (nat j) (b # bs))" if "skipCanonical (b # bs) = Inr j" for j
        using skip_loop_progress that 3(4) by (force simp: skipCanonical_def)
      then show ?thesis using None Inr p 3(1,3) by (auto simp: Let_def split: sum.splits if_splits)
    next
      case (Some r)
      then show ?thesis using Inr p 3(2,3,4) * by (fastforce simp: Let_def shrinking_def split: sum.splits if_splits)
    qed
  qed simp
qed simp_all

lemma read_delim_shorter: "read_delim l bs = Inr (x, rest) \<Longrightarrow> length rest \<le> length bs"
  by (auto simp: read_delim_def Let_def split: sum.splits if_splits dest!: read_varint_shorter)

lemma field_shorter:
  "field_varint w bs fv = Some (Inr (m', rest)) \<Longrightarrow> length rest \<le> length bs"
  "field_fixed64 w bs fi = Some (Inr (m', rest)) \<Longrightarrow> length rest \<le> length bs"
  "field_bytes w l bs fb = Some (Inr (m', rest)) \<Longrightarrow> length rest \<le> length bs"
  "field_msg w l bs u fm = Some (Inr (m', rest)) \<Longrightarrow> length rest \<le> length bs"
  by (auto simp: field_varint_def field_fixed64_def field_bytes_def field_msg_def read_fixed64_def
      split: if_splits sum.splits prod.splits dest: read_varint_shorter read_delim_shorter)

lemma shrinking_handlers:
  "shrinking CanonicalPartSetHeader_field" "shrinking CanonicalBlockID_field" "shrinking (CanonicalVote_field tu)"
  "shrinking (CanonicalProposal_field tu)" "shrinking CanonicalVoteExtension_field"
  unfolding shrinking_def CanonicalPartSetHeader_field_def CanonicalBlockID_field_def CanonicalVote_field_def
    CanonicalProposal_field_def CanonicalVoteExtension_field_def
  by (auto split: if_splits dest: field_shorter)

lemma unmarshal_total:
  "CanonicalPartSetHeader_Unmarshal p bs \<noteq> None" "CanonicalBlockID_Unmarshal b bs \<noteq> None"
  "CanonicalVote_Unmarshal tu bs \<noteq> None" "CanonicalProposal_Unmarshal tu bs \<noteq> None"
  "CanonicalVoteExtension_Unmarshal bs \<noteq> None"
  using unmarshal_loop_total [OF shrinking_handlers(1)] unmarshal_loop_total [OF shrinking_handlers(2)]
    unmarshal_loop_total [OF shrinking_handlers(3)] unmarshal_loop_total [OF shrinking_handlers(4)]
    unmarshal_loop_total [OF shrinking_handlers(5)]
  by (simp_all add: CanonicalPartSetHeader_Unmarshal_def CanonicalBlockID_Unmarshal_def CanonicalVote_Unmarshal_def
      CanonicalProposal_Unmarshal_def CanonicalVoteExtension_Unmarshal_def unmarshal_def)

section \<open>Delimited messages\<close>

lemma read_uvarint_varint:
  assumes "n * 128 ^ i < 9223372036854775808" and "i < 9"
  shows "read_uvarint i x (varint n @ rest) = Inr (x + n * 128 ^ i, rest)"
  using assms
proof (induction n arbitrary: i x rule: varint.induct)
  case (1 n)
  show ?case
  proof (cases "128 \<le> n")
    case False
    then show ?thesis using 1(3) by (simp add: varint.simps [of n] word_less_nat_alt byte_of_nat)
  next
    case True
    define b where "b = (word_of_nat (n mod 128 + 128) :: 8 word)"
    have b: "unat b = n mod 128 + 128" unfolding b_def by (rule byte_of_nat) simp
    have d: "n div 128 * 128 ^ Suc i < 9223372036854775808"
    proof -
      have "n div 128 * 128 ^ Suc i = (n div 128 * 128) * 128 ^ i" by simp
      also have "\<dots> \<le> n * 128 ^ i" by (intro mult_le_mono1) simp
      finally show ?thesis using 1(2) by (rule le_less_trans)
    qed
    have "Suc i < 9"
    proof (rule ccontr)
      assume "\<not> Suc i < 9"
      then have "i = 8" using 1(3) by simp
      moreover have "(128 :: nat) ^ 8 * 128 \<le> n * 128 ^ 8" using True by simp
      ultimately show False using 1(2) by simp
    qed
    then have "read_uvarint (Suc i) (x + n mod 128 * 128 ^ i) (varint (n div 128) @ rest) =
        Inr (x + n mod 128 * 128 ^ i + n div 128 * 128 ^ Suc i, rest)"
      using 1(1) [OF True d] by simp
    moreover have "n mod 128 * 128 ^ i + n div 128 * 128 ^ Suc i = n * 128 ^ i"
      by (metis (no_types, lifting) add.commute add_mult_distrib div_mult_mod_eq mult.assoc power_Suc)
    moreover have "varint n = b # varint (n div 128)" using True by (simp add: varint.simps [of n] b_def)
    ultimately show ?thesis using b 1(3) by (simp add: word_less_nat_alt add.assoc)
  qed
qed

lemma UnmarshalDelimited_Marshal:
  assumes "int (length (MarshalDelimited z)) < MaxInt64"
  shows "UnmarshalDelimited u (MarshalDelimited z) = u z"
proof -
  have "read_uvarint 0 0 (varint (length z) @ z) = Inr (length z, z)"
    using read_uvarint_varint [of "length z" 0 0 z] assms by (simp add: MarshalDelimited_def)
  then show ?thesis using assms by (simp add: UnmarshalDelimited_def MarshalDelimited_def in64_def)
qed

section \<open>Properties\<close>

definition demo_time :: "bytes \<Rightarrow> int option" where
  "demo_time b = Some (int (length b))"

lemma demo_time_inverts: "time_inverts demo_env demo_time"
  by (auto simp: time_inverts_def demo_env_def demo_time_def split: if_splits)

definition demo_canonical :: CanonicalVote where
  "demo_canonical = \<lparr>cv_Type = 2, cv_Height = 300, cv_Round = 1,
     cv_BlockID = Some \<lparr>cbid_Hash = [1, 2], cbid_PartSetHeader = \<lparr>psh_Total = 200, psh_Hash = [3]\<rparr>\<rparr>,
     cv_Timestamp = 3, cv_ChainID = [7]\<rparr>"

text \<open>C22. The sign bytes of a vote can be read back: unmarshalling the length-delimited encoding of a
  canonical vote gives the vote, for all values within the widths of the fields; and unmarshalling
  ends on every input.\<close>

theorem CanonicalVote_roundtrip:
  assumes "vote_range m" and "time_inverts ce tu" and "CanonicalVote_Marshal ce m = Some z"
    and "int (length (MarshalDelimited z)) < MaxInt64"
  shows "UnmarshalDelimited (CanonicalVote_Unmarshal tu) (MarshalDelimited z) = Some (Inr m) \<and>
    CanonicalVote_Unmarshal tu bs \<noteq> None"
proof -
  have "int (length z) < MaxInt64" using assms(4) by (simp add: MarshalDelimited_def)
  then show ?thesis
    using CanonicalVote_decode [OF assms(1-3)] unmarshal_total(3)
      UnmarshalDelimited_Marshal [OF assms(4), of "CanonicalVote_Unmarshal tu"] by simp
qed

theorem CanonicalVote_roundtrip_witness:
  "UnmarshalDelimited (CanonicalVote_Unmarshal demo_time) (MarshalDelimited (the (CanonicalVote_Marshal demo_env demo_canonical))) =
     Some (Inr demo_canonical)"
proof -
  have "vote_range demo_canonical"
    by (simp add: vote_range_def demo_canonical_def bid_range_def in32_def in64_def)
  moreover have "CanonicalVote_Marshal demo_env demo_canonical = Some (the (CanonicalVote_Marshal demo_env demo_canonical))"
    "int (length (MarshalDelimited (the (CanonicalVote_Marshal demo_env demo_canonical)))) < MaxInt64"
    by code_simp+
  ultimately show ?thesis using CanonicalVote_roundtrip [OF _ demo_time_inverts] by blast
qed

end
