(* ===== verification/Privval.thy ===== *)
theory Privval
  imports Proto_Decode Vote
begin

text \<open>
  The file-based private validator of \<open>privval/file.go\<close>: it signs votes and proposals and keeps the
  last height, round and step it signed for, in memory and in a file, so that it never signs two
  different messages for one step, also when the process crashes and is started again.

  The private key is the argument \<open>sgn\<close>, the method \<open>Sign\<close> of \<open>crypto.PrivKey\<close>, \<open>None\<close> its error. The
  two files are a record; \<open>tempfile.WriteFileAtomic\<close> replaces a file or fails without a trace, and its
  outcome is the argument \<open>io\<close>. A file holds the value that its JSON text denotes.
\<close>

section \<open>State\<close>

abbreviation stepNone :: int where "stepNone \<equiv> 0"
abbreviation stepPropose :: int where "stepPropose \<equiv> 1"
abbreviation stepPrevote :: int where "stepPrevote \<equiv> 2"
abbreviation stepPrecommit :: int where "stepPrecommit \<equiv> 3"

record FilePVKey =
  pvk_Address :: bytes
  pvk_PubKey :: PubKey
  pvk_filePath :: string

record FilePVLastSignState =
  lss_Height :: int
  lss_Round :: int
  lss_Step :: int
  lss_Signature :: "bytes option"
  lss_SignBytes :: "bytes option"
  lss_filePath :: string

record FilePV =
  pv_Key :: FilePVKey
  pv_LastSignState :: FilePVLastSignState

record pv_disk =
  disk_key :: "FilePVKey option"
  disk_state :: "FilePVLastSignState option"

datatype privval_error =
    HeightRegression | RoundRegression | StepRegression | NoSignBytes
  | UnexpectedVoteExtension | ConflictingData | SignError

section \<open>Operations\<close>

text \<open>An unknown vote type is a panic.\<close>

definition voteToStep :: "Vote \<Rightarrow> int option" where
  "voteToStep vote =
     (if vote_Type vote = PrevoteType then Some stepPrevote
      else if vote_Type vote = PrecommitType then Some stepPrecommit
      else None)"

definition lss_reset :: "FilePVLastSignState \<Rightarrow> FilePVLastSignState" where
  "lss_reset lss =
     lss\<lparr>lss_Height := 0, lss_Round := 0, lss_Step := 0, lss_Signature := None, lss_SignBytes := None\<rparr>"

definition CheckHRS :: "FilePVLastSignState \<Rightarrow> int \<Rightarrow> int \<Rightarrow> int \<Rightarrow> (bool \<times> privval_error option) option" where
  "CheckHRS lss height round step =
     (if lss_Height lss > height then Some (False, Some HeightRegression)
      else if lss_Height lss = height
      then (if lss_Round lss > round then Some (False, Some RoundRegression)
            else if lss_Round lss = round
            then (if lss_Step lss > step then Some (False, Some StepRegression)
                  else if lss_Step lss = step
                  then (if lss_SignBytes lss \<noteq> None
                        then (if lss_Signature lss = None then None else Some (True, None))
                        else Some (False, Some NoSignBytes))
                  else Some (False, None))
            else Some (False, None))
      else Some (False, None))"

text \<open>The JSON fields of the two byte slices are marked \<open>omitempty\<close>, so an empty slice reads back as
  nil; the file path is not written.\<close>

definition omitempty :: "bytes option \<Rightarrow> bytes option" where
  "omitempty b = (if b = Some [] then None else b)"

definition lss_json :: "FilePVLastSignState \<Rightarrow> FilePVLastSignState" where
  "lss_json lss = lss\<lparr>lss_Signature := omitempty (lss_Signature lss),
     lss_SignBytes := omitempty (lss_SignBytes lss), lss_filePath := []\<rparr>"

definition lss_Save :: "bool \<Rightarrow> FilePVLastSignState \<Rightarrow> pv_disk \<Rightarrow> pv_disk option" where
  "lss_Save io lss disk =
     (if lss_filePath lss = [] then None
      else if \<not> io then None
      else Some (disk\<lparr>disk_state := Some (lss_json lss)\<rparr>))"

definition pvk_Save :: "bool \<Rightarrow> FilePVKey \<Rightarrow> pv_disk \<Rightarrow> pv_disk option" where
  "pvk_Save io pvKey disk =
     (if pvk_filePath pvKey = [] then None
      else if \<not> io then None
      else Some (disk\<lparr>disk_key := Some (pvKey\<lparr>pvk_filePath := []\<rparr>)\<rparr>))"

definition pv_Save :: "bool \<Rightarrow> bool \<Rightarrow> FilePV \<Rightarrow> pv_disk \<Rightarrow> pv_disk option" where
  "pv_Save io io' pv disk =
     do {
       disk \<leftarrow> pvk_Save io (pv_Key pv) disk;
       lss_Save io' (pv_LastSignState pv) disk
     }"

definition pv_Reset :: "bool \<Rightarrow> bool \<Rightarrow> FilePV \<Rightarrow> pv_disk \<Rightarrow> (FilePV \<times> pv_disk) option" where
  "pv_Reset io io' pv disk =
     do {
       let pv = pv\<lparr>pv_LastSignState := lss_reset (pv_LastSignState pv)\<rparr>;
       disk \<leftarrow> pv_Save io io' pv disk;
       Some (pv, disk)
     }"

definition NewFilePV :: "ext_env \<Rightarrow> PubKey \<Rightarrow> string \<Rightarrow> string \<Rightarrow> FilePV" where
  "NewFilePV ce pubKey keyFilePath stateFilePath =
     \<lparr>pv_Key = \<lparr>pvk_Address = pkAddress ce pubKey, pvk_PubKey = pubKey, pvk_filePath = keyFilePath\<rparr>,
      pv_LastSignState = \<lparr>lss_Height = 0, lss_Round = 0, lss_Step = stepNone, lss_Signature = None,
        lss_SignBytes = None, lss_filePath = stateFilePath\<rparr>\<rparr>"

text \<open>\<open>None\<close> is the exit of the program on a missing file. The public key and the address are computed
  from the private key that was read.\<close>

definition loadFilePV :: "ext_env \<Rightarrow> string \<Rightarrow> string \<Rightarrow> bool \<Rightarrow> pv_disk \<Rightarrow> FilePV option" where
  "loadFilePV ce keyFilePath stateFilePath loadState disk =
     do {
       pvKey \<leftarrow> disk_key disk;
       let pvKey = pvKey\<lparr>pvk_Address := pkAddress ce (pvk_PubKey pvKey), pvk_filePath := keyFilePath\<rparr>;
       pvState \<leftarrow> (if loadState then disk_state disk
                   else Some \<lparr>lss_Height = 0, lss_Round = 0, lss_Step = 0, lss_Signature = None,
                              lss_SignBytes = None, lss_filePath = []\<rparr>);
       Some \<lparr>pv_Key = pvKey, pv_LastSignState = pvState\<lparr>lss_filePath := stateFilePath\<rparr>\<rparr>
     }"

definition LoadFilePV :: "ext_env \<Rightarrow> string \<Rightarrow> string \<Rightarrow> pv_disk \<Rightarrow> FilePV option" where
  "LoadFilePV ce keyFilePath stateFilePath disk = loadFilePV ce keyFilePath stateFilePath True disk"

definition LoadFilePVEmptyState :: "ext_env \<Rightarrow> string \<Rightarrow> string \<Rightarrow> pv_disk \<Rightarrow> FilePV option" where
  "LoadFilePVEmptyState ce keyFilePath stateFilePath disk = loadFilePV ce keyFilePath stateFilePath False disk"

text \<open>The freshly generated key is the argument \<open>pubKey\<close>.\<close>

definition LoadOrGenFilePV ::
  "ext_env \<Rightarrow> PubKey \<Rightarrow> bool \<Rightarrow> bool \<Rightarrow> string \<Rightarrow> string \<Rightarrow> pv_disk \<Rightarrow> (FilePV \<times> pv_disk) option" where
  "LoadOrGenFilePV ce pubKey io io' keyFilePath stateFilePath disk =
     (if disk_key disk \<noteq> None
      then map_option (\<lambda>pv. (pv, disk)) (LoadFilePV ce keyFilePath stateFilePath disk)
      else let pv = NewFilePV ce pubKey keyFilePath stateFilePath
           in map_option (\<lambda>disk. (pv, disk)) (pv_Save io io' pv disk))"

definition saveSigned ::
  "bool \<Rightarrow> FilePV \<Rightarrow> pv_disk \<Rightarrow> int \<Rightarrow> int \<Rightarrow> int \<Rightarrow> bytes \<Rightarrow> bytes \<Rightarrow> (FilePV \<times> pv_disk) option" where
  "saveSigned io pv disk height round step signBytes sig =
     do {
       let lss = (pv_LastSignState pv)\<lparr>lss_Height := height, lss_Round := round, lss_Step := step,
                    lss_Signature := Some sig, lss_SignBytes := Some signBytes\<rparr>;
       disk \<leftarrow> lss_Save io lss disk;
       Some (pv\<lparr>pv_LastSignState := lss\<rparr>, disk)
     }"

text \<open>Sign bytes that cannot be unmarshalled are a panic.\<close>

definition decoded :: "(proto_error + 'm) option \<Rightarrow> 'm option" where
  "decoded r = (case r of Some (Inr m) \<Rightarrow> Some m | _ \<Rightarrow> None)"

definition checkVotesOnlyDifferByTimestamp ::
  "(bytes \<Rightarrow> int option) \<Rightarrow> timestamp \<Rightarrow> bytes \<Rightarrow> bytes \<Rightarrow> (timestamp \<times> bool) option" where
  "checkVotesOnlyDifferByTimestamp tu now lastSignBytes newSignBytes =
     do {
       lastVote \<leftarrow> decoded (UnmarshalDelimited (CanonicalVote_Unmarshal tu) lastSignBytes);
       newVote \<leftarrow> decoded (UnmarshalDelimited (CanonicalVote_Unmarshal tu) newSignBytes);
       let lastTime = cv_Timestamp lastVote;
       Some (lastTime, newVote\<lparr>cv_Timestamp := now\<rparr> = lastVote\<lparr>cv_Timestamp := now\<rparr>)
     }"

definition checkProposalsOnlyDifferByTimestamp ::
  "(bytes \<Rightarrow> int option) \<Rightarrow> timestamp \<Rightarrow> bytes \<Rightarrow> bytes \<Rightarrow> (timestamp \<times> bool) option" where
  "checkProposalsOnlyDifferByTimestamp tu now lastSignBytes newSignBytes =
     do {
       lastProposal \<leftarrow> decoded (UnmarshalDelimited (CanonicalProposal_Unmarshal tu) lastSignBytes);
       newProposal \<leftarrow> decoded (UnmarshalDelimited (CanonicalProposal_Unmarshal tu) newSignBytes);
       let lastTime = cp_Timestamp lastProposal;
       Some (lastTime, newProposal\<lparr>cp_Timestamp := now\<rparr> = lastProposal\<lparr>cp_Timestamp := now\<rparr>)
     }"

text \<open>What the process around the validator supplies: the private key, the clock, the decoder of
  timestamps and the outcome of the write.\<close>

record pv_env =
  pe_ext :: ext_env
  pe_sign :: "bytes \<Rightarrow> bytes option"
  pe_time :: "bytes \<Rightarrow> int option"
  pe_now :: timestamp
  pe_io :: bool

definition nil_bytes :: "bytes option \<Rightarrow> bytes" where
  "nil_bytes b = (case b of None \<Rightarrow> [] | Some x \<Rightarrow> x)"

text \<open>The extension signature of a vote, or the error.\<close>

definition sign_extension :: "pv_env \<Rightarrow> bytes \<Rightarrow> Vote \<Rightarrow> privval_error + bytes" where
  "sign_extension pe chainID vote =
     (if vote_Type vote = PrecommitType \<and> \<not> BlockID_IsZero (vote_BlockID vote)
      then (case pe_sign pe (VoteExtensionSignBytes chainID vote) of
              None \<Rightarrow> Inl SignError
            | Some sig \<Rightarrow> Inr sig)
      else if length (vote_Extension vote) > 0 then Inl UnexpectedVoteExtension
      else Inr [])"

type_synonym 'm signed = "FilePV \<times> pv_disk \<times> 'm \<times> privval_error option"

definition signVote :: "pv_env \<Rightarrow> FilePV \<Rightarrow> pv_disk \<Rightarrow> bytes \<Rightarrow> Vote \<Rightarrow> Vote signed option" where
  "signVote pe pv disk chainID vote =
     do {
       let height = vote_Height vote;
       let round = vote_Round vote;
       step \<leftarrow> voteToStep vote;
       let lss = pv_LastSignState pv;
       (sameHRS, err) \<leftarrow> CheckHRS lss height round step;
       if err \<noteq> None then Some (pv, disk, vote, err)
       else do {
         signBytes \<leftarrow> VoteSignBytes (pe_ext pe) chainID vote;
         (case sign_extension pe chainID vote of
            Inl e \<Rightarrow> Some (pv, disk, vote, Some e)
          | Inr extSig \<Rightarrow>
              if sameHRS
              then (if signBytes = nil_bytes (lss_SignBytes lss)
                    then Some (pv, disk, vote\<lparr>vote_Signature := nil_bytes (lss_Signature lss),
                                              vote_ExtensionSignature := extSig\<rparr>, None)
                    else do {
                      (timestamp, ok) \<leftarrow> checkVotesOnlyDifferByTimestamp (pe_time pe) (pe_now pe)
                                            (nil_bytes (lss_SignBytes lss)) signBytes;
                      if ok
                      then Some (pv, disk, vote\<lparr>vote_Timestamp := timestamp,
                                                vote_Signature := nil_bytes (lss_Signature lss),
                                                vote_ExtensionSignature := extSig\<rparr>, None)
                      else Some (pv, disk, vote\<lparr>vote_ExtensionSignature := extSig\<rparr>, Some ConflictingData)
                    })
              else (case pe_sign pe signBytes of
                      None \<Rightarrow> Some (pv, disk, vote, Some SignError)
                    | Some sig \<Rightarrow> do {
                        (pv, disk) \<leftarrow> saveSigned (pe_io pe) pv disk height round step signBytes sig;
                        Some (pv, disk, vote\<lparr>vote_Signature := sig, vote_ExtensionSignature := extSig\<rparr>, None)
                      }))
       }
     }"

definition signProposal :: "pv_env \<Rightarrow> FilePV \<Rightarrow> pv_disk \<Rightarrow> bytes \<Rightarrow> Proposal \<Rightarrow> Proposal signed option" where
  "signProposal pe pv disk chainID proposal =
     do {
       let height = prop_Height proposal;
       let round = prop_Round proposal;
       let lss = pv_LastSignState pv;
       (sameHRS, err) \<leftarrow> CheckHRS lss height round stepPropose;
       if err \<noteq> None then Some (pv, disk, proposal, err)
       else do {
         signBytes \<leftarrow> ProposalSignBytes (pe_ext pe) chainID proposal;
         if sameHRS
         then (if signBytes = nil_bytes (lss_SignBytes lss)
               then Some (pv, disk, proposal\<lparr>prop_Signature := nil_bytes (lss_Signature lss)\<rparr>, None)
               else do {
                 (timestamp, ok) \<leftarrow> checkProposalsOnlyDifferByTimestamp (pe_time pe) (pe_now pe)
                                       (nil_bytes (lss_SignBytes lss)) signBytes;
                 if ok
                 then Some (pv, disk, proposal\<lparr>prop_Timestamp := timestamp,
                                               prop_Signature := nil_bytes (lss_Signature lss)\<rparr>, None)
                 else Some (pv, disk, proposal, Some ConflictingData)
               })
         else (case pe_sign pe signBytes of
                 None \<Rightarrow> Some (pv, disk, proposal, Some SignError)
               | Some sig \<Rightarrow> do {
                   (pv, disk) \<leftarrow> saveSigned (pe_io pe) pv disk height round stepPropose signBytes sig;
                   Some (pv, disk, proposal\<lparr>prop_Signature := sig\<rparr>, None)
                 })
       }
     }"

section \<open>A register of signed positions\<close>

text \<open>
  The rule that prevents double signing, for any state with a last position and content: a position
  is signed when it is later than the last one, or when it is the last one and the content is the
  same. \<open>covers\<close> says that the register is at or beyond everything released.
\<close>

type_synonym hrs = "int \<times> int \<times> int"

locale sign_register =
  fixes pos :: "'s \<Rightarrow> hrs"
    and content :: "'s \<Rightarrow> bytes option"
    and check :: "'s \<Rightarrow> hrs \<Rightarrow> (bool \<times> 'e option) option"
  assumes check_new: "check s p = Some (False, None) \<Longrightarrow> pos s < p"
    and check_same: "check s p = Some (True, None) \<Longrightarrow> pos s = p \<and> content s \<noteq> None"
begin

definition covers :: "'s \<Rightarrow> (hrs \<times> bytes) set \<Rightarrow> bool" where
  "covers s R \<longleftrightarrow> (\<forall>(p, b) \<in> R. p < pos s \<or> p = pos s \<and> content s = Some b)"

definition unequivocal :: "(hrs \<times> bytes) set \<Rightarrow> bool" where
  "unequivocal R \<longleftrightarrow> (\<forall>p b c. (p, b) \<in> R \<longrightarrow> (p, c) \<in> R \<longrightarrow> b = c)"

lemma covers_cong: "pos s = pos t \<Longrightarrow> content s = content t \<Longrightarrow> covers s R = covers t R"
  by (simp add: covers_def)

lemma covers_mono: "covers s R \<Longrightarrow> S \<subseteq> R \<Longrightarrow> covers s S"
  unfolding covers_def by (meson subsetD)

lemma unequivocal_mono: "unequivocal R \<Longrightarrow> S \<subseteq> R \<Longrightarrow> unequivocal S"
  unfolding unequivocal_def by (meson subsetD)

lemma covers_next:
  assumes "covers s R" and "check s p = Some (False, None)" and "pos s' = p"
  shows "covers s' R"
  using assms check_new by (fastforce simp: covers_def)

lemma release_new:
  assumes "covers s R" and "unequivocal R" and "check s p = Some (False, None)"
    and "pos s' = p" and "content s' = Some b"
  shows "covers s' (insert (p, b) R) \<and> unequivocal (insert (p, b) R)"
proof -
  have "pos s < p" using check_new assms(3) by blast
  then have "(p, c) \<notin> R" for c using assms(1) by (force simp: covers_def)
  then show ?thesis using assms covers_next [OF assms(1,3,4)]
    by (auto simp: covers_def unequivocal_def)
qed

lemma release_same:
  assumes "covers s R" and "unequivocal R" and "check s p = Some (True, None)" and "content s = Some b"
  shows "covers s (insert (p, b) R) \<and> unequivocal (insert (p, b) R)"
  using assms check_same [OF assms(3)] by (fastforce simp: covers_def unequivocal_def)

end

definition lss_pos :: "FilePVLastSignState \<Rightarrow> hrs" where
  "lss_pos lss = (lss_Height lss, lss_Round lss, lss_Step lss)"

interpretation lsr: sign_register lss_pos lss_SignBytes "\<lambda>lss (h, r, s). CheckHRS lss h r s"
  by unfold_locales (auto simp: CheckHRS_def lss_pos_def less_prod_def' split: if_splits)

section \<open>Runs\<close>

text \<open>
  A run of the validator: the running process, if any, the files, and the votes and proposals that
  were handed out. A request may be answered, fail, or be interrupted by a crash before or after
  the file was written; a crashed process is restarted from the files.
\<close>

record pv_run =
  run_pv :: "FilePV option"
  run_disk :: pv_disk
  run_votes :: "Vote list"
  run_proposals :: "Proposal list"

definition vote_request :: "ext_env \<Rightarrow> bytes \<Rightarrow> Vote \<Rightarrow> bool" where
  "vote_request ce chainID v \<longleftrightarrow> in64 (vote_Height v) \<and> in32 (vote_Round v) \<and>
     psh_Total (bid_PartSetHeader (vote_BlockID v)) < 4294967296 \<and>
     (\<forall>z. VoteSignBytes ce chainID v = Some z \<longrightarrow> int (length z) < MaxInt64)"

definition proposal_request :: "ext_env \<Rightarrow> bytes \<Rightarrow> Proposal \<Rightarrow> bool" where
  "proposal_request ce chainID p \<longleftrightarrow> in64 (prop_Height p) \<and> in32 (prop_Round p) \<and> in32 (prop_POLRound p) \<and>
     psh_Total (bid_PartSetHeader (prop_BlockID p)) < 4294967296 \<and>
     (\<forall>z. ProposalSignBytes ce chainID p = Some z \<longrightarrow> int (length z) < MaxInt64)"

inductive pv_reach :: "ext_env \<Rightarrow> (bytes \<Rightarrow> int option) \<Rightarrow> bytes \<Rightarrow> pv_run \<Rightarrow> bool"
  for ce tu chainID where
  generate: "LoadOrGenFilePV ce pubKey io io' kf sf \<lparr>disk_key = None, disk_state = None\<rparr> = Some (pv, disk) \<Longrightarrow>
    pv_reach ce tu chainID \<lparr>run_pv = Some pv, run_disk = disk, run_votes = [], run_proposals = []\<rparr>"
| sign_vote: "pv_reach ce tu chainID s \<Longrightarrow> run_pv s = Some pv \<Longrightarrow> pe_ext pe = ce \<Longrightarrow> pe_time pe = tu \<Longrightarrow>
    vote_request ce chainID v \<Longrightarrow> signVote pe pv (run_disk s) chainID v = Some (pv', disk', v', err) \<Longrightarrow>
    pv_reach ce tu chainID (s\<lparr>run_pv := Some pv', run_disk := disk',
      run_votes := (if err = None then v' # run_votes s else run_votes s)\<rparr>)"
| sign_proposal: "pv_reach ce tu chainID s \<Longrightarrow> run_pv s = Some pv \<Longrightarrow> pe_ext pe = ce \<Longrightarrow> pe_time pe = tu \<Longrightarrow>
    proposal_request ce chainID p \<Longrightarrow> signProposal pe pv (run_disk s) chainID p = Some (pv', disk', p', err) \<Longrightarrow>
    pv_reach ce tu chainID (s\<lparr>run_pv := Some pv', run_disk := disk',
      run_proposals := (if err = None then p' # run_proposals s else run_proposals s)\<rparr>)"
| crash: "pv_reach ce tu chainID s \<Longrightarrow> pv_reach ce tu chainID (s\<lparr>run_pv := None\<rparr>)"
| crash_in_vote: "pv_reach ce tu chainID s \<Longrightarrow> run_pv s = Some pv \<Longrightarrow> pe_ext pe = ce \<Longrightarrow> pe_time pe = tu \<Longrightarrow>
    vote_request ce chainID v \<Longrightarrow> signVote pe pv (run_disk s) chainID v = Some (pv', disk', v', err) \<Longrightarrow>
    pv_reach ce tu chainID (s\<lparr>run_pv := None, run_disk := disk'\<rparr>)"
| crash_in_proposal: "pv_reach ce tu chainID s \<Longrightarrow> run_pv s = Some pv \<Longrightarrow> pe_ext pe = ce \<Longrightarrow> pe_time pe = tu \<Longrightarrow>
    proposal_request ce chainID p \<Longrightarrow> signProposal pe pv (run_disk s) chainID p = Some (pv', disk', p', err) \<Longrightarrow>
    pv_reach ce tu chainID (s\<lparr>run_pv := None, run_disk := disk'\<rparr>)"
| restart: "pv_reach ce tu chainID s \<Longrightarrow> LoadOrGenFilePV ce pubKey io io' kf sf (run_disk s) = Some (pv, disk') \<Longrightarrow>
    pv_reach ce tu chainID (s\<lparr>run_pv := Some pv, run_disk := disk'\<rparr>)"

definition vote_pos :: "Vote \<Rightarrow> hrs" where
  "vote_pos v = (vote_Height v, vote_Round v, the (voteToStep v))"

definition prop_pos :: "Proposal \<Rightarrow> hrs" where
  "prop_pos p = (prop_Height p, prop_Round p, stepPropose)"

definition released :: "ext_env \<Rightarrow> bytes \<Rightarrow> pv_run \<Rightarrow> (hrs \<times> bytes) set" where
  "released ce chainID s =
     {(vote_pos v, b) | v b. v \<in> set (run_votes s) \<and> VoteSignBytes ce chainID v = Some b} \<union>
     {(prop_pos p, b) | p b. p \<in> set (run_proposals s) \<and> ProposalSignBytes ce chainID p = Some b}"

text \<open>The sign bytes in a state are those of a vote or proposal for its position.\<close>

definition signed_state :: "ext_env \<Rightarrow> bytes \<Rightarrow> FilePVLastSignState \<Rightarrow> bool" where
  "signed_state ce chainID lss \<longleftrightarrow> (\<forall>b. lss_SignBytes lss = Some b \<longrightarrow> b \<noteq> [] \<and>
     ((\<exists>v. vote_request ce chainID v \<and> voteToStep v \<noteq> None \<and> vote_pos v = lss_pos lss \<and> VoteSignBytes ce chainID v = Some b) \<or>
      (\<exists>p. proposal_request ce chainID p \<and> prop_pos p = lss_pos lss \<and> ProposalSignBytes ce chainID p = Some b)))"

lemma vote_step: "voteToStep v = Some st \<Longrightarrow> stepPropose < st"
  by (auto simp: voteToStep_def split: if_splits)

lemma MarshalDelimited_not_Nil [simp]: "MarshalDelimited z \<noteq> []"
  by (simp add: MarshalDelimited_def varint.simps [of "length z"])

lemma SignBytes_not_Nil [simp]: "VoteSignBytes ce c v \<noteq> Some []" "ProposalSignBytes ce c p \<noteq> Some []"
  by (auto simp: VoteSignBytes_def ProposalSignBytes_def split: bind_splits)

lemma sign_bytes_ignore [simp]:
  "VoteSignBytes ce c (v\<lparr>vote_Signature := s\<rparr>) = VoteSignBytes ce c v"
  "VoteSignBytes ce c (v\<lparr>vote_ExtensionSignature := s\<rparr>) = VoteSignBytes ce c v"
  "ProposalSignBytes ce c (p\<lparr>prop_Signature := s\<rparr>) = ProposalSignBytes ce c p"
  by (simp_all add: VoteSignBytes_def CanonicalizeVote_def ProposalSignBytes_def CanonicalizeProposal_def)

lemma voteToStep_ignore [simp]:
  "voteToStep (v\<lparr>vote_Signature := s\<rparr>) = voteToStep v"
  "voteToStep (v\<lparr>vote_ExtensionSignature := s\<rparr>) = voteToStep v"
  "voteToStep (v\<lparr>vote_Timestamp := t\<rparr>) = voteToStep v"
  by (simp_all add: voteToStep_def)

subsection \<open>Messages that differ by the timestamp\<close>

lemma in32_in64: "in32 x \<Longrightarrow> in64 x"
  by (simp add: in32_def in64_def)

lemma vote_bytes_decode:
  assumes "VoteSignBytes ce c v = Some b" and "vote_request ce c v" and "voteToStep v \<noteq> None" and "time_inverts ce tu"
  obtains m z where "CanonicalizeVote c v = Some m" "CanonicalVote_Marshal ce m = Some z" "b = MarshalDelimited z"
    "decoded (UnmarshalDelimited (CanonicalVote_Unmarshal tu) b) = Some m"
proof -
  obtain m z where m: "CanonicalizeVote c v = Some m" "CanonicalVote_Marshal ce m = Some z" and b: "b = MarshalDelimited z"
    using assms(1) by (auto simp: VoteSignBytes_def split: bind_splits)
  have len: "int (length (MarshalDelimited z)) < MaxInt64" using assms(1,2) b by (simp add: vote_request_def)
  have "in32 (vote_Type v)" using assms(3) by (auto simp: voteToStep_def in32_def split: if_splits)
  then have "vote_range m" using m(1) assms(2)
    by (auto simp: CanonicalizeVote_def CanonicalizeBlockID_def vote_range_def vote_request_def bid_range_def in32_in64
        split: bind_splits if_splits)
  moreover have "int (length z) \<le> MaxInt64" using len by (simp add: MarshalDelimited_def)
  ultimately have "CanonicalVote_Unmarshal tu z = Some (Inr m)" using CanonicalVote_decode assms(4) m(2) by blast
  then show ?thesis
    using that [OF m b] UnmarshalDelimited_Marshal [OF len, of "CanonicalVote_Unmarshal tu"] b by (simp add: decoded_def)
qed

lemma proposal_bytes_decode:
  assumes "ProposalSignBytes ce c p = Some b" and "proposal_request ce c p" and "time_inverts ce tu"
  obtains m z where "CanonicalizeProposal c p = Some m" "CanonicalProposal_Marshal ce m = Some z" "b = MarshalDelimited z"
    "decoded (UnmarshalDelimited (CanonicalProposal_Unmarshal tu) b) = Some m"
proof -
  obtain m z where m: "CanonicalizeProposal c p = Some m" "CanonicalProposal_Marshal ce m = Some z" and b: "b = MarshalDelimited z"
    using assms(1) by (auto simp: ProposalSignBytes_def split: bind_splits)
  have len: "int (length (MarshalDelimited z)) < MaxInt64" using assms(1,2) b by (simp add: proposal_request_def)
  have "proposal_range m" using m(1) assms(2)
    by (auto simp: CanonicalizeProposal_def CanonicalizeBlockID_def proposal_range_def proposal_request_def bid_range_def in32_in64
        split: bind_splits if_splits) (simp add: in32_def)+
  moreover have "int (length z) \<le> MaxInt64" using len by (simp add: MarshalDelimited_def)
  ultimately have "CanonicalProposal_Unmarshal tu z = Some (Inr m)" using CanonicalProposal_decode assms(3) m(2) by blast
  then show ?thesis
    using that [OF m b] UnmarshalDelimited_Marshal [OF len, of "CanonicalProposal_Unmarshal tu"] b by (simp add: decoded_def)
qed

lemma votes_differ_by_time:
  assumes "VoteSignBytes ce c u = Some a" and "vote_request ce c u" and "voteToStep u \<noteq> None"
    and "VoteSignBytes ce c v = Some b" and "vote_request ce c v" and "voteToStep v \<noteq> None" and "time_inverts ce tu"
    and "checkVotesOnlyDifferByTimestamp tu now a b = Some (t, True)"
  shows "VoteSignBytes ce c (v\<lparr>vote_Timestamp := t\<rparr>) = Some a"
proof -
  obtain m z where m: "CanonicalVote_Marshal ce m = Some z" "a = MarshalDelimited z"
    "decoded (UnmarshalDelimited (CanonicalVote_Unmarshal tu) a) = Some m"
    using vote_bytes_decode [OF assms(1-3,7)] .
  obtain n where n: "CanonicalizeVote c v = Some n" "decoded (UnmarshalDelimited (CanonicalVote_Unmarshal tu) b) = Some n"
    using vote_bytes_decode [OF assms(4-7)] .
  have "t = cv_Timestamp m" and eq: "n\<lparr>cv_Timestamp := now\<rparr> = m\<lparr>cv_Timestamp := now\<rparr>"
    using assms(8) m(3) n(2) by (auto simp: checkVotesOnlyDifferByTimestamp_def Let_def)
  moreover have "CanonicalizeVote c (v\<lparr>vote_Timestamp := t\<rparr>) = Some (n\<lparr>cv_Timestamp := t\<rparr>)"
    using n(1) by (auto simp: CanonicalizeVote_def split: bind_splits)
  moreover have "n\<lparr>cv_Timestamp := cv_Timestamp m\<rparr> = m" using eq by (cases m; cases n) simp
  ultimately show ?thesis using m by (simp add: VoteSignBytes_def)
qed

lemma proposals_differ_by_time:
  assumes "ProposalSignBytes ce c q = Some a" and "proposal_request ce c q"
    and "ProposalSignBytes ce c p = Some b" and "proposal_request ce c p" and "time_inverts ce tu"
    and "checkProposalsOnlyDifferByTimestamp tu now a b = Some (t, True)"
  shows "ProposalSignBytes ce c (p\<lparr>prop_Timestamp := t\<rparr>) = Some a"
proof -
  obtain m z where m: "CanonicalProposal_Marshal ce m = Some z" "a = MarshalDelimited z"
    "decoded (UnmarshalDelimited (CanonicalProposal_Unmarshal tu) a) = Some m"
    using proposal_bytes_decode [OF assms(1,2,5)] .
  obtain n where n: "CanonicalizeProposal c p = Some n" "decoded (UnmarshalDelimited (CanonicalProposal_Unmarshal tu) b) = Some n"
    using proposal_bytes_decode [OF assms(3-5)] .
  have "t = cp_Timestamp m" and eq: "n\<lparr>cp_Timestamp := now\<rparr> = m\<lparr>cp_Timestamp := now\<rparr>"
    using assms(6) m(3) n(2) by (auto simp: checkProposalsOnlyDifferByTimestamp_def Let_def)
  moreover have "CanonicalizeProposal c (p\<lparr>prop_Timestamp := t\<rparr>) = Some (n\<lparr>cp_Timestamp := t\<rparr>)"
    using n(1) by (auto simp: CanonicalizeProposal_def split: bind_splits)
  moreover have "n\<lparr>cp_Timestamp := cp_Timestamp m\<rparr> = m" using eq by (cases m; cases n) simp
  ultimately show ?thesis using m by (simp add: ProposalSignBytes_def)
qed

subsection \<open>The outcome of a request\<close>

definition sign_outcome ::
  "ext_env \<Rightarrow> bytes \<Rightarrow> FilePV \<Rightarrow> pv_disk \<Rightarrow> hrs \<Rightarrow> bytes option \<Rightarrow> FilePV \<Rightarrow> pv_disk \<Rightarrow> privval_error option \<Rightarrow> bool" where
  "sign_outcome ce c pv disk p b pv' disk' err \<longleftrightarrow>
     (let lss = pv_LastSignState pv; lss' = pv_LastSignState pv'; (h, r, st) = p in
      (err \<noteq> None \<and> pv' = pv \<and> disk' = disk) \<or>
      (err = None \<and> pv' = pv \<and> disk' = disk \<and> CheckHRS lss h r st = Some (True, None) \<and> b \<noteq> None \<and> b = lss_SignBytes lss) \<or>
      (err = None \<and> CheckHRS lss h r st = Some (False, None) \<and> b \<noteq> None \<and> b = lss_SignBytes lss' \<and> lss_pos lss' = p \<and>
       signed_state ce c lss' \<and> disk' = disk\<lparr>disk_state := Some (lss_json lss')\<rparr>))"

lemma saveSigned_cases:
  assumes "saveSigned io pv disk h r st b sig = Some (pv', disk')"
  shows "lss_pos (pv_LastSignState pv') = (h, r, st)" "lss_SignBytes (pv_LastSignState pv') = Some b"
    "disk' = disk\<lparr>disk_state := Some (lss_json (pv_LastSignState pv'))\<rparr>"
    "lss_Signature (pv_LastSignState pv') = Some sig"
  using assms by (auto simp: saveSigned_def lss_Save_def lss_pos_def Let_def split: bind_splits if_splits)

lemma signed_state_vote:
  assumes "signed_state ce c lss" and "CheckHRS lss h r st = Some (True, None)" and "stepPropose < st"
  obtains a v where "lss_SignBytes lss = Some a" "vote_request ce c v" "voteToStep v \<noteq> None" "VoteSignBytes ce c v = Some a"
  using assms by (auto simp: signed_state_def CheckHRS_def lss_pos_def prop_pos_def split: if_splits)

lemma signed_state_proposal:
  assumes "signed_state ce c lss" and "CheckHRS lss h r stepPropose = Some (True, None)"
  obtains a p where "lss_SignBytes lss = Some a" "proposal_request ce c p" "ProposalSignBytes ce c p = Some a"
proof -
  obtain a where a: "lss_SignBytes lss = Some a" and "lss_Step lss = stepPropose"
    using assms(2) by (auto simp: CheckHRS_def split: if_splits)
  moreover have "vote_pos v \<noteq> lss_pos lss" if "voteToStep v \<noteq> None" for v
    using that calculation(2) by (auto simp: vote_pos_def lss_pos_def dest: vote_step)
  ultimately show ?thesis using that assms(1) by (fastforce simp: signed_state_def)
qed

lemma signVote_outcome:
  assumes "signVote pe pv disk c v = Some (pv', disk', v', err)" and "vote_request (pe_ext pe) c v"
    and "signed_state (pe_ext pe) c (pv_LastSignState pv)" and "time_inverts (pe_ext pe) (pe_time pe)"
  shows "sign_outcome (pe_ext pe) c pv disk (vote_pos v') (VoteSignBytes (pe_ext pe) c v') pv' disk' err \<and>
    (err = None \<longrightarrow> vote_pos v' = vote_pos v \<and> vote_Type v' = vote_Type v \<and> vote_BlockID v' = vote_BlockID v \<and>
       vote_Signature v' = nil_bytes (lss_Signature (pv_LastSignState pv')) \<and>
       sign_extension pe c v = Inr (vote_ExtensionSignature v'))"
proof -
  let ?ce = "pe_ext pe" and ?lss = "pv_LastSignState pv"
  obtain st same e0 where st: "voteToStep v = Some st" "CheckHRS ?lss (vote_Height v) (vote_Round v) st = Some (same, e0)"
    using assms(1) by (auto simp: signVote_def Let_def split: bind_splits)
  note run = assms(1) [unfolded signVote_def Let_def, simplified st bind.simps prod.case]
  have p: "vote_pos v = (vote_Height v, vote_Round v, st)" by (simp add: vote_pos_def st)
  show ?thesis
  proof (cases "e0 = None \<and> err = None")
    case False
    then show ?thesis using run
      by (auto simp: sign_outcome_def Let_def split: bind_splits if_splits sum.splits option.splits prod.splits)
  next
    case True
    obtain b ext where b: "VoteSignBytes ?ce c v = Some b" "sign_extension pe c v = Inr ext"
      using run True by (auto split: bind_splits sum.splits)
    show ?thesis
    proof (cases same)
      case True': True
      obtain a u where a: "lss_SignBytes ?lss = Some a" "vote_request ?ce c u" "voteToStep u \<noteq> None" "VoteSignBytes ?ce c u = Some a"
        using signed_state_vote [OF assms(3)] st True True' vote_step by metis
      have "VoteSignBytes ?ce c v' = Some a \<and> vote_pos v' = vote_pos v \<and> vote_Type v' = vote_Type v \<and>
          vote_BlockID v' = vote_BlockID v \<and> vote_Signature v' = nil_bytes (lss_Signature ?lss) \<and>
          vote_ExtensionSignature v' = ext \<and> pv' = pv \<and> disk' = disk"
        using run True True' b a st votes_differ_by_time [OF a(4,2,3) b(1) assms(2) _ assms(4)]
        by (auto simp: nil_bytes_def vote_pos_def split: if_splits bind_splits)
      then show ?thesis using True True' a(1) b(2) st p by (simp add: sign_outcome_def Let_def)
    next
      case False
      then obtain sig where sig: "saveSigned (pe_io pe) pv disk (vote_Height v) (vote_Round v) st b sig = Some (pv', disk')"
        and v': "v' = v\<lparr>vote_Signature := sig, vote_ExtensionSignature := ext\<rparr>"
        using run True b by (auto split: option.splits bind_splits)
      have pos: "vote_pos v' = vote_pos v" by (simp add: v' vote_pos_def)
      have "signed_state ?ce c (pv_LastSignState pv')"
        using saveSigned_cases [OF sig] b(1) assms(2) st(1) p by (auto simp: signed_state_def)
      then show ?thesis using True False saveSigned_cases [OF sig] b st p pos by (simp add: sign_outcome_def Let_def v' nil_bytes_def)
    qed
  qed
qed

lemma signProposal_outcome:
  assumes "signProposal pe pv disk c q = Some (pv', disk', q', err)" and "proposal_request (pe_ext pe) c q"
    and "signed_state (pe_ext pe) c (pv_LastSignState pv)" and "time_inverts (pe_ext pe) (pe_time pe)"
  shows "sign_outcome (pe_ext pe) c pv disk (prop_pos q') (ProposalSignBytes (pe_ext pe) c q') pv' disk' err"
proof -
  let ?ce = "pe_ext pe" and ?lss = "pv_LastSignState pv"
  obtain same e0 where st: "CheckHRS ?lss (prop_Height q) (prop_Round q) stepPropose = Some (same, e0)"
    using assms(1) by (auto simp: signProposal_def Let_def split: bind_splits)
  note run = assms(1) [unfolded signProposal_def Let_def, simplified st bind.simps prod.case]
  show ?thesis
  proof (cases "e0 = None \<and> err = None")
    case False
    then show ?thesis using run
      by (auto simp: sign_outcome_def Let_def split: bind_splits if_splits option.splits prod.splits)
  next
    case True
    obtain b where b: "ProposalSignBytes ?ce c q = Some b" using run True by (auto split: bind_splits)
    show ?thesis
    proof (cases same)
      case True': True
      obtain a u where a: "lss_SignBytes ?lss = Some a" "proposal_request ?ce c u" "ProposalSignBytes ?ce c u = Some a"
        using signed_state_proposal [OF assms(3)] st True True' by metis
      have "ProposalSignBytes ?ce c q' = Some a \<and> prop_pos q' = prop_pos q \<and> pv' = pv \<and> disk' = disk"
        using run True True' b a st proposals_differ_by_time [OF a(3,2) b(1) assms(2,4)]
        by (auto simp: nil_bytes_def prop_pos_def split: if_splits bind_splits)
      then show ?thesis using True True' a(1) st by (simp add: sign_outcome_def Let_def prop_pos_def)
    next
      case False
      then obtain sig where sig: "saveSigned (pe_io pe) pv disk (prop_Height q) (prop_Round q) stepPropose b sig = Some (pv', disk')"
        and q': "q' = q\<lparr>prop_Signature := sig\<rparr>"
        using run True b by (auto split: option.splits bind_splits)
      have "signed_state ?ce c (pv_LastSignState pv')"
        using saveSigned_cases [OF sig] b(1) assms(2) by (auto simp: signed_state_def prop_pos_def)
      then show ?thesis using True False saveSigned_cases [OF sig] b(1) st by (simp add: sign_outcome_def Let_def q' prop_pos_def)
    qed
  qed
qed

subsection \<open>The invariant of a run\<close>

definition run_ok :: "ext_env \<Rightarrow> bytes \<Rightarrow> FilePV option \<Rightarrow> pv_disk \<Rightarrow> (hrs \<times> bytes) set \<Rightarrow> bool" where
  "run_ok ce c pv disk R \<longleftrightarrow> (\<exists>lss. disk_state disk = Some lss \<and> disk_key disk \<noteq> None \<and> lss_json lss = lss \<and>
     signed_state ce c lss \<and> lsr.covers lss R \<and> lsr.unequivocal R \<and>
     (\<forall>x. pv = Some x \<longrightarrow> lss = lss_json (pv_LastSignState x) \<and> signed_state ce c (pv_LastSignState x)))"

lemma omitempty_idem [simp]: "omitempty (omitempty b) = omitempty b"
  by (simp add: omitempty_def)

lemma lss_json_sel [simp]:
  "lss_pos (lss_json lss) = lss_pos lss" "lss_json (lss_json lss) = lss_json lss"
  "lss_json (lss\<lparr>lss_filePath := f\<rparr>) = lss_json lss" "lss_SignBytes (lss_json lss) = omitempty (lss_SignBytes lss)"
  "lss_Signature (lss_json lss) = omitempty (lss_Signature lss)"
  by (simp_all add: lss_json_def lss_pos_def)

lemma signed_state_json:
  assumes "signed_state ce c lss"
  shows "omitempty (lss_SignBytes lss) = lss_SignBytes lss" "signed_state ce c (lss_json lss)"
    "lsr.covers (lss_json lss) R = lsr.covers lss R"
proof -
  show *: "omitempty (lss_SignBytes lss) = lss_SignBytes lss" using assms by (auto simp: signed_state_def omitempty_def)
  show "signed_state ce c (lss_json lss)" using assms by (simp add: signed_state_def *)
  show "lsr.covers (lss_json lss) R = lsr.covers lss R" by (rule lsr.covers_cong) (simp_all add: *)
qed

lemma run_okI:
  assumes "signed_state ce c (pv_LastSignState x)" and "disk_state disk = Some (lss_json (pv_LastSignState x))"
    and "disk_key disk \<noteq> None" and "lsr.covers (pv_LastSignState x) R" and "lsr.unequivocal R"
  shows "run_ok ce c (Some x) disk R"
  unfolding run_ok_def using assms signed_state_json(2,3) [OF assms(1)] by auto

lemma run_ok_crash: "run_ok ce c pv disk R \<Longrightarrow> run_ok ce c None disk R"
  by (auto simp: run_ok_def)

lemma run_ok_mono: "run_ok ce c pv disk R \<Longrightarrow> S \<subseteq> R \<Longrightarrow> run_ok ce c pv disk S"
  unfolding run_ok_def using lsr.covers_mono lsr.unequivocal_mono by metis

lemma outcome_run_ok:
  assumes "run_ok ce c (Some pv) disk R" and "sign_outcome ce c pv disk p b pv' disk' err"
  shows "run_ok ce c (Some pv') disk' (if err = None then insert (p, the b) R else R)"
proof -
  let ?m = "pv_LastSignState pv" and ?m' = "pv_LastSignState pv'"
  obtain h r st where p: "p = (h, r, st)" by (cases p)
  have ok: "signed_state ce c ?m" "lsr.covers ?m R" "lsr.unequivocal R" "disk_key disk \<noteq> None"
    "disk_state disk = Some (lss_json ?m)"
    using assms(1) signed_state_json(3) by (auto simp: run_ok_def)
  consider (failed) "err \<noteq> None" "pv' = pv" "disk' = disk"
    | (again) x where "err = None" "pv' = pv" "disk' = disk" "CheckHRS ?m h r st = Some (True, None)"
        "b = Some x" "lss_SignBytes ?m = Some x"
    | (new) x where "err = None" "CheckHRS ?m h r st = Some (False, None)" "b = Some x" "lss_SignBytes ?m' = Some x"
        "lss_pos ?m' = p" "signed_state ce c ?m'" "disk' = disk\<lparr>disk_state := Some (lss_json ?m')\<rparr>"
    using assms(2) unfolding sign_outcome_def Let_def p prod.case by (metis option.exhaust)
  then show ?thesis
  proof cases
    case failed
    then show ?thesis using assms(1) by auto
  next
    case again
    have "lsr.covers ?m (insert (p, x) R) \<and> lsr.unequivocal (insert (p, x) R)"
      using lsr.release_same [OF ok(2,3) _ again(6)] again(4) by (simp add: p)
    then show ?thesis using again ok run_okI [of ce c pv] by auto
  next
    case new
    have "lsr.covers ?m' (insert (p, x) R) \<and> lsr.unequivocal (insert (p, x) R)"
      using lsr.release_new [OF ok(2,3) _ new(5,4)] new(2) by (simp add: p)
    then show ?thesis using new ok(4) run_okI [of ce c pv'] by auto
  qed
qed

lemma outcome_crash:
  assumes "run_ok ce c (Some pv) disk R" and "sign_outcome ce c pv disk p b pv' disk' err"
  shows "run_ok ce c None disk' R"
proof -
  have "R \<subseteq> (if err = None then insert (p, the b) R else R)" by auto
  from run_ok_mono [OF outcome_run_ok [OF assms] this] show ?thesis by (rule run_ok_crash)
qed

lemma load_run_ok:
  assumes "run_ok ce c pv0 disk R" and "LoadOrGenFilePV ce pubKey io io' kf sf disk = Some (pv, disk')"
  shows "run_ok ce c (Some pv) disk' R"
proof -
  obtain lss where lss: "disk_state disk = Some lss" "disk_key disk \<noteq> None" "lss_json lss = lss" "signed_state ce c lss"
    "lsr.covers lss R" "lsr.unequivocal R"
    using assms(1) by (auto simp: run_ok_def)
  then have "disk' = disk" and m: "pv_LastSignState pv = lss\<lparr>lss_filePath := sf\<rparr>"
    using assms(2) by (auto simp: LoadOrGenFilePV_def LoadFilePV_def loadFilePV_def Let_def)
  moreover have "signed_state ce c (lss\<lparr>lss_filePath := sf\<rparr>)"
    using lss(4) by (simp add: signed_state_def lss_pos_def)
  ultimately show ?thesis using lss by (simp add: run_ok_def)
qed

lemma generate_run_ok:
  assumes "LoadOrGenFilePV ce pubKey io io' kf sf \<lparr>disk_key = None, disk_state = None\<rparr> = Some (pv, disk)"
  shows "run_ok ce c (Some pv) disk {}"
proof (rule run_okI)
  show "signed_state ce c (pv_LastSignState pv)" "disk_state disk = Some (lss_json (pv_LastSignState pv))"
    "disk_key disk \<noteq> None"
    using assms by (auto simp: LoadOrGenFilePV_def NewFilePV_def pv_Save_def pvk_Save_def lss_Save_def signed_state_def Let_def
        split: if_splits)
qed (simp_all add: lsr.covers_def lsr.unequivocal_def)

lemma released_simps [simp]:
  "released ce c (s\<lparr>run_pv := x, run_disk := d\<rparr>) = released ce c s"
  "released ce c (s\<lparr>run_pv := x\<rparr>) = released ce c s"
  by (simp_all add: released_def)

lemma released_vote:
  "VoteSignBytes ce c v = Some b \<Longrightarrow>
     released ce c (s\<lparr>run_pv := x, run_disk := d, run_votes := v # run_votes s\<rparr>) = insert (vote_pos v, b) (released ce c s)"
  by (auto simp: released_def)

lemma released_proposal:
  "ProposalSignBytes ce c p = Some b \<Longrightarrow>
     released ce c (s\<lparr>run_pv := x, run_disk := d, run_proposals := p # run_proposals s\<rparr>) = insert (prop_pos p, b) (released ce c s)"
  by (auto simp: released_def)

lemma outcome_bytes: "sign_outcome ce c pv disk p b pv' disk' None \<Longrightarrow> b \<noteq> None"
  by (auto simp: sign_outcome_def Let_def split: prod.splits)

lemma pv_reach_ok:
  assumes "pv_reach ce tu c s" and "time_inverts ce tu"
  shows "run_ok ce c (run_pv s) (run_disk s) (released ce c s) \<and>
    (\<forall>v \<in> set (run_votes s). VoteSignBytes ce c v \<noteq> None \<and> voteToStep v \<noteq> None \<and>
       in64 (vote_Height v) \<and> in32 (vote_Round v)) \<and>
    (\<forall>p \<in> set (run_proposals s). ProposalSignBytes ce c p \<noteq> None)"
  using assms(1)
proof induction
  case (generate pubKey io io' kf sf pv disk)
  then show ?case using generate_run_ok by (simp add: released_def)
next
  case (sign_vote s pv pe v pv' disk' v' err)
  have ok: "run_ok ce c (Some pv) (run_disk s) (released ce c s)" using sign_vote.IH sign_vote(2) by simp
  then have sg: "signed_state ce c (pv_LastSignState pv)" by (auto simp: run_ok_def)
  have out: "sign_outcome ce c pv (run_disk s) (vote_pos v') (VoteSignBytes ce c v') pv' disk' err"
    "err = None \<longrightarrow> vote_pos v' = vote_pos v \<and> vote_Type v' = vote_Type v"
    using signVote_outcome [OF sign_vote(6), unfolded sign_vote(3,4), OF sign_vote(5) sg assms(2)] by blast+
  have "voteToStep v \<noteq> None" using sign_vote(6) by (auto simp: signVote_def Let_def split: bind_splits)
  then have st: "voteToStep v' \<noteq> None" if "err = None" using out(2) that by (auto simp: voteToStep_def split: if_splits)
  have rng: "in64 (vote_Height v') \<and> in32 (vote_Round v')" if "err = None"
    using out(2) that sign_vote(5) by (simp add: vote_pos_def vote_request_def)
  show ?case
  proof (cases err)
    case None
    then obtain b where b: "VoteSignBytes ce c v' = Some b" using outcome_bytes out(1) by blast
    have "run_ok ce c (Some pv') disk' (insert (vote_pos v', b) (released ce c s))"
      using outcome_run_ok [OF ok out(1)] None b by simp
    then show ?thesis using sign_vote.IH None st b rng by (simp add: released_vote)
  qed (use outcome_run_ok [OF ok out(1)] sign_vote.IH in simp)
next
  case (sign_proposal s pv pe p pv' disk' p' err)
  have ok: "run_ok ce c (Some pv) (run_disk s) (released ce c s)" using sign_proposal.IH sign_proposal(2) by simp
  then have sg: "signed_state ce c (pv_LastSignState pv)" by (auto simp: run_ok_def)
  have out: "sign_outcome ce c pv (run_disk s) (prop_pos p') (ProposalSignBytes ce c p') pv' disk' err"
    using signProposal_outcome [OF sign_proposal(6), unfolded sign_proposal(3,4), OF sign_proposal(5) sg assms(2)] by blast+
  show ?case
  proof (cases err)
    case None
    then obtain b where b: "ProposalSignBytes ce c p' = Some b" using outcome_bytes out by blast
    have "run_ok ce c (Some pv') disk' (insert (prop_pos p', b) (released ce c s))"
      using outcome_run_ok [OF ok out] None b by simp
    then show ?thesis using sign_proposal.IH None b by (simp add: released_proposal)
  qed (use outcome_run_ok [OF ok out] sign_proposal.IH in simp)
next
  case (crash s)
  show ?case using run_ok_crash [OF conjunct1 [OF crash.IH]] crash.IH by simp
next
  case (crash_in_vote s pv pe v pv' disk' v' err)
  have ok: "run_ok ce c (Some pv) (run_disk s) (released ce c s)" using crash_in_vote.IH crash_in_vote(2) by simp
  then have sg: "signed_state ce c (pv_LastSignState pv)" by (auto simp: run_ok_def)
  have out: "sign_outcome ce c pv (run_disk s) (vote_pos v') (VoteSignBytes ce c v') pv' disk' err"
    using signVote_outcome [OF crash_in_vote(6), unfolded crash_in_vote(3,4), OF crash_in_vote(5) sg assms(2)] by blast+
  show ?case using outcome_crash [OF ok out] crash_in_vote.IH by simp
next
  case (crash_in_proposal s pv pe p pv' disk' p' err)
  have ok: "run_ok ce c (Some pv) (run_disk s) (released ce c s)" using crash_in_proposal.IH crash_in_proposal(2) by simp
  then have sg: "signed_state ce c (pv_LastSignState pv)" by (auto simp: run_ok_def)
  have out: "sign_outcome ce c pv (run_disk s) (prop_pos p') (ProposalSignBytes ce c p') pv' disk' err"
    using signProposal_outcome [OF crash_in_proposal(6), unfolded crash_in_proposal(3,4), OF crash_in_proposal(5) sg assms(2)] by blast+
  show ?case using outcome_crash [OF ok out] crash_in_proposal.IH by simp
next
  case (restart s pubKey io io' kf sf pv disk')
  show ?case using load_run_ok [OF conjunct1 [OF restart.IH] restart(2)] restart.IH by simp
qed

subsection \<open>Signing again after a restart\<close>

lemma outcome_mem:
  assumes "sign_outcome ce c pv disk p b pv' disk' None"
  shows "lss_pos (pv_LastSignState pv') = p \<and> lss_SignBytes (pv_LastSignState pv') = b \<and> b \<noteq> None"
proof -
  obtain h r st where p: "p = (h, r, st)" by (cases p)
  have "lss_pos lss = p" if "CheckHRS lss h r st = Some (True, None)" for lss
    using that by (auto simp: p CheckHRS_def lss_pos_def split: if_splits)
  then show ?thesis using assms by (auto simp: sign_outcome_def Let_def p)
qed

lemma CheckHRS_same:
  "lss_pos lss = (h, r, st) \<Longrightarrow> lss_SignBytes lss = Some a \<Longrightarrow> lss_Signature lss = Some g \<Longrightarrow>
     CheckHRS lss h r st = Some (True, None)"
  by (simp add: CheckHRS_def lss_pos_def)

lemma sign_extension_time: "sign_extension pe c (v\<lparr>vote_Timestamp := t\<rparr>) = sign_extension pe c v"
  by (simp add: sign_extension_def VoteExtensionSignBytes_def CanonicalizeVoteExtension_def)

lemma same_vote_other_time:
  assumes "VoteSignBytes ce c v = Some a" and "vote_request ce c v" and "voteToStep v \<noteq> None"
    and "VoteSignBytes ce c w = Some b" and "vote_request ce c w" and "voteToStep w \<noteq> None" and "time_inverts ce tu"
    and "vote_Type v = vote_Type w" and "vote_Height v = vote_Height w" and "vote_Round v = vote_Round w"
    and "vote_BlockID v = vote_BlockID w"
  shows "checkVotesOnlyDifferByTimestamp tu now a b = Some (vote_Timestamp v, True)"
proof -
  obtain m where m: "CanonicalizeVote c v = Some m" "decoded (UnmarshalDelimited (CanonicalVote_Unmarshal tu) a) = Some m"
    using vote_bytes_decode [OF assms(1-3,7)] .
  obtain n where n: "CanonicalizeVote c w = Some n" "decoded (UnmarshalDelimited (CanonicalVote_Unmarshal tu) b) = Some n"
    using vote_bytes_decode [OF assms(4-7)] .
  have "cv_Timestamp m = vote_Timestamp v" and "n\<lparr>cv_Timestamp := now\<rparr> = m\<lparr>cv_Timestamp := now\<rparr>"
    using m(1) n(1) assms(8-11) by (auto simp: CanonicalizeVote_def split: bind_splits)
  then show ?thesis using m(2) n(2) by (simp add: checkVotesOnlyDifferByTimestamp_def Let_def)
qed

lemma sign_same_again:
  assumes "voteToStep w = Some st" and "CheckHRS (pv_LastSignState pv) (vote_Height w) (vote_Round w) st = Some (True, None)"
    and "lss_SignBytes (pv_LastSignState pv) = Some a" and "VoteSignBytes (pe_ext pe) c w = Some b"
    and "sign_extension pe c w = Inr ext"
    and "a \<noteq> b \<Longrightarrow> checkVotesOnlyDifferByTimestamp (pe_time pe) (pe_now pe) a b = Some (t, True)"
    and "VoteSignBytes (pe_ext pe) c (w\<lparr>vote_Timestamp := t\<rparr>) = Some a"
  shows "\<exists>w'. signVote pe pv disk c w = Some (pv, disk, w', None) \<and> VoteSignBytes (pe_ext pe) c w' = Some a \<and>
    vote_Signature w' = nil_bytes (lss_Signature (pv_LastSignState pv)) \<and> vote_ExtensionSignature w' = ext"
  using assms by (cases "a = b") (auto simp: signVote_def Let_def nil_bytes_def)

section \<open>Properties\<close>

text \<open>C2. The private validator never signs two different messages for one height, round and step: any two
  votes it hands out for the same height, round and type have the same sign bytes and are for the same
  block, and any two proposals for the same height and round have the same sign bytes. This holds
  over all crashes, before or after the state file is written, and restarts.\<close>

theorem no_double_signing:
  assumes "pv_reach ce tu chain s" and "time_inverts ce tu"
    and "v \<in> set (run_votes s)" and "w \<in> set (run_votes s)"
    and "vote_Height v = vote_Height w" and "vote_Round v = vote_Round w" and "vote_Type v = vote_Type w"
  shows "VoteSignBytes ce chain v = VoteSignBytes ce chain w \<and> vote_BlockID v = vote_BlockID w \<and>
    (\<forall>p \<in> set (run_proposals s). \<forall>q \<in> set (run_proposals s).
       prop_Height p = prop_Height q \<longrightarrow> prop_Round p = prop_Round q \<longrightarrow>
       ProposalSignBytes ce chain p = ProposalSignBytes ce chain q)"
proof -
  note ok = pv_reach_ok [OF assms(1,2)]
  have un: "b = d" if "(x, b) \<in> released ce chain s" "(x, d) \<in> released ce chain s" for x b d
  proof -
    have "lsr.unequivocal (released ce chain s)" using ok by (auto simp: run_ok_def)
    then show ?thesis using that unfolding lsr.unequivocal_def by blast
  qed
  obtain b d where b: "VoteSignBytes ce chain v = Some b" and d: "VoteSignBytes ce chain w = Some d"
    using ok assms(3,4) by blast
  have pos: "vote_pos v = vote_pos w" using assms(5-7) by (simp add: vote_pos_def voteToStep_def)
  have "(vote_pos w, b) \<in> released ce chain s" using assms(3) b pos by (fastforce simp: released_def)
  moreover have "(vote_pos w, d) \<in> released ce chain s" using assms(4) d by (fastforce simp: released_def)
  ultimately have "b = d" by (rule un)
  moreover have "time_injective ce" using assms(2) unfolding time_injective_def time_inverts_def by (metis option.inject)
  moreover have "in32 (vote_Type w)" using ok assms(4) by (auto simp: voteToStep_def in32_def split: if_splits)
  ultimately have "vote_BlockID v = vote_BlockID w"
    using VoteSignBytes_inj [of ce chain v b chain w] b d ok assms(3-7) by auto
  moreover have "VoteSignBytes ce chain v = VoteSignBytes ce chain w" using b d \<open>b = d\<close> by simp
  moreover have "ProposalSignBytes ce chain p = ProposalSignBytes ce chain q"
    if pq: "p \<in> set (run_proposals s)" "q \<in> set (run_proposals s)" "prop_Height p = prop_Height q" "prop_Round p = prop_Round q" for p q
  proof -
    obtain x y where xy: "ProposalSignBytes ce chain p = Some x" "ProposalSignBytes ce chain q = Some y"
      using ok pq by blast
    have "prop_pos p = prop_pos q" using pq by (simp add: prop_pos_def)
    then have "(prop_pos q, x) \<in> released ce chain s" "(prop_pos q, y) \<in> released ce chain s"
      using pq(1,2) xy by (fastforce simp: released_def)+
    then show ?thesis using un xy by metis
  qed
  ultimately show ?thesis by blast
qed

definition demo_pe :: pv_env where
  "demo_pe = \<lparr>pe_ext = demo_env, pe_sign = (\<lambda>m. Some (9 # m)), pe_time = demo_time, pe_now = 5, pe_io = True\<rparr>"

definition demo_pv :: "FilePV \<times> pv_disk" where
  "demo_pv = the (LoadOrGenFilePV demo_env \<lparr>pk_type = ''ed25519'', pk_bytes = [1]\<rparr> True True ''k'' ''s''
     \<lparr>disk_key = None, disk_state = None\<rparr>)"

definition demo_pv1 :: "Vote signed" where
  "demo_pv1 = the (signVote demo_pe (fst demo_pv) (snd demo_pv) [7] (demo_vote 1 0))"

definition demo_pv2 :: "Vote signed" where
  "demo_pv2 = the (signVote demo_pe (the (LoadFilePV demo_env ''k'' ''s'' (fst (snd demo_pv1)))) (fst (snd demo_pv1)) [7]
     ((demo_vote 1 0)\<lparr>vote_Timestamp := 4\<rparr>))"

lemma vote_requestI:
  assumes "in64 (vote_Height v)" and "in32 (vote_Round v)" and "psh_Total (bid_PartSetHeader (vote_BlockID v)) < 4294967296"
    and "case VoteSignBytes ce c v of None \<Rightarrow> True | Some z \<Rightarrow> int (length z) < MaxInt64"
  shows "vote_request ce c v"
  using assms by (auto simp: vote_request_def split: option.splits)

lemma demo_requests:
  "vote_request demo_env [7] (demo_vote 1 0)" "vote_request demo_env [7] ((demo_vote 1 0)\<lparr>vote_Timestamp := 4\<rparr>)"
proof -
  have "case VoteSignBytes demo_env [7] (demo_vote 1 0) of None \<Rightarrow> True | Some z \<Rightarrow> int (length z) < MaxInt64"
    "case VoteSignBytes demo_env [7] ((demo_vote 1 0)\<lparr>vote_Timestamp := 4\<rparr>) of None \<Rightarrow> True | Some z \<Rightarrow> int (length z) < MaxInt64"
    by code_simp+
  then show "vote_request demo_env [7] (demo_vote 1 0)" "vote_request demo_env [7] ((demo_vote 1 0)\<lparr>vote_Timestamp := 4\<rparr>)"
    by - (rule vote_requestI; simp add: demo_vote_def demo_block_def in64_def in32_def)+
qed

lemma demo_start:
  "pv_reach demo_env demo_time [7] \<lparr>run_pv = Some (fst demo_pv), run_disk = snd demo_pv, run_votes = [], run_proposals = []\<rparr>"
proof -
  have "LoadOrGenFilePV demo_env \<lparr>pk_type = ''ed25519'', pk_bytes = [1]\<rparr> True True ''k'' ''s'' \<lparr>disk_key = None, disk_state = None\<rparr> \<noteq> None"
    by code_simp
  then show ?thesis using pv_reach.generate by (simp add: demo_pv_def)
qed

lemma demo_votes_same:
  "(\<lambda>v w. vote_Height v = vote_Height w \<and> vote_Round v = vote_Round w \<and> vote_Type v = vote_Type w)
     (fst (snd (snd demo_pv1))) (fst (snd (snd demo_pv2)))"
  by code_simp

theorem no_double_signing_witness:
  "VoteSignBytes demo_env [7] (fst (snd (snd demo_pv1))) = VoteSignBytes demo_env [7] (fst (snd (snd demo_pv2)))"
proof -
  let ?s0 = "\<lparr>run_pv = Some (fst demo_pv), run_disk = snd demo_pv, run_votes = [], run_proposals = []\<rparr>"
  obtain pv1 d1 v1 e1 where p1: "demo_pv1 = (pv1, d1, v1, e1)" by (cases demo_pv1)
  obtain pv2 d2 v2 e2 where p2: "demo_pv2 = (pv2, d2, v2, e2)" by (cases demo_pv2)
  let ?s1 = "?s0\<lparr>run_pv := Some pv1, run_disk := d1, run_votes := [v1]\<rparr>"
  let ?s2 = "?s1\<lparr>run_pv := None\<rparr>"
  let ?pv = "the (LoadFilePV demo_env ''k'' ''s'' d1)"
  let ?s3 = "?s2\<lparr>run_pv := Some ?pv, run_disk := d1\<rparr>"
  have err: "snd (snd (snd demo_pv1)) = None" "snd (snd (snd demo_pv2)) = None"
    "signVote demo_pe (fst demo_pv) (snd demo_pv) [7] (demo_vote 1 0) \<noteq> None"
    "signVote demo_pe (the (LoadFilePV demo_env ''k'' ''s'' (fst (snd demo_pv1)))) (fst (snd demo_pv1)) [7]
       ((demo_vote 1 0)\<lparr>vote_Timestamp := 4\<rparr>) \<noteq> None"
    "disk_key (fst (snd demo_pv1)) \<noteq> None" "LoadFilePV demo_env ''k'' ''s'' (fst (snd demo_pv1)) \<noteq> None"
    by code_simp+
  have run2: "signVote demo_pe ?pv d1 [7] ((demo_vote 1 0)\<lparr>vote_Timestamp := 4\<rparr>) = Some (pv2, d2, v2, None)"
    using err(2,4) p2 by (auto simp: demo_pv2_def p1)
  note req = demo_requests
  note s0 = demo_start
  have "pv_reach demo_env demo_time [7] ?s1"
    using pv_reach.sign_vote [OF s0 _ _ _ req(1), of "fst demo_pv" demo_pe pv1 d1 v1 e1] err(1,3) p1
    by (auto simp: demo_pe_def demo_pv1_def)
  then have s2: "pv_reach demo_env demo_time [7] ?s2" by (rule pv_reach.crash)
  have "LoadOrGenFilePV demo_env k True True ''k'' ''s'' (run_disk ?s2) = Some (?pv, d1)" for k
    using err(5,6) [unfolded p1 snd_conv fst_conv] by (auto simp: LoadOrGenFilePV_def)
  then have "pv_reach demo_env demo_time [7] ?s3" by (rule pv_reach.restart [OF s2])
  then have "pv_reach demo_env demo_time [7] (?s3\<lparr>run_pv := Some pv2, run_disk := d2, run_votes := [v2, v1]\<rparr>)"
    using pv_reach.sign_vote [OF _ _ _ _ req(2), of demo_time ?s3 ?pv demo_pe pv2 d2 v2 None] run2
    by (simp add: demo_pe_def)
  note same = no_double_signing [OF this demo_time_inverts, of v1 v2]
  have "vote_Height v1 = vote_Height v2 \<and> vote_Round v1 = vote_Round v2 \<and> vote_Type v1 = vote_Type v2"
    using demo_votes_same [unfolded p1 p2 fst_conv snd_conv] .
  then show ?thesis unfolding p1 p2 using same by simp
qed

text \<open>C11. A vote that was signed can be signed again after a crash and a restart from the files, also with
  another timestamp: the validator returns the first signature with the time it is for, and does not
  change its files.\<close>

theorem resign_after_crash:
  assumes "pv_reach ce tu chain s" and "time_inverts ce tu" and "run_pv s = Some pv"
    and "pe_ext pe = ce" and "pe_time pe = tu" and "vote_request ce chain v"
    and "signVote pe pv (run_disk s) chain v = Some (pv', disk', v', None)" and "vote_Signature v' \<noteq> []"
    and "LoadFilePV ce kf sf disk' = Some pv2" and "w = v\<lparr>vote_Timestamp := t\<rparr>" and "vote_request ce chain w"
    and "VoteSignBytes ce chain w \<noteq> None"
  shows "\<exists>w'. signVote pe pv2 disk' chain w = Some (pv2, disk', w', None) \<and>
    vote_Signature w' = vote_Signature v' \<and> vote_ExtensionSignature w' = vote_ExtensionSignature v' \<and>
    VoteSignBytes ce chain w' = VoteSignBytes ce chain v'"
proof -
  let ?m = "pv_LastSignState pv'" and ?m2 = "pv_LastSignState pv2"
  have ok: "run_ok ce chain (Some pv) (run_disk s) (released ce chain s)" using pv_reach_ok [OF assms(1,2)] assms(3) by simp
  then have "signed_state ce chain (pv_LastSignState pv)" by (auto simp: run_ok_def)
  note out = signVote_outcome [OF assms(7), unfolded assms(4,5), OF assms(6) this assms(2)]
  have ok': "run_ok ce chain (Some pv') disk' (insert (vote_pos v', the (VoteSignBytes ce chain v')) (released ce chain s))"
    using outcome_run_ok [OF ok conjunct1 [OF out]] by simp
  then have sg: "signed_state ce chain ?m" and disk: "disk_state disk' = Some (lss_json ?m)" by (auto simp: run_ok_def)
  obtain a where a: "VoteSignBytes ce chain v' = Some a" and mem: "lss_pos ?m = vote_pos v'" "lss_SignBytes ?m = Some a"
    using outcome_mem [OF conjunct1 [OF out]] by auto
  have m2: "?m2 = (lss_json ?m)\<lparr>lss_filePath := sf\<rparr>"
    using assms(9) disk by (auto simp: LoadFilePV_def loadFilePV_def Let_def split: bind_splits)
  obtain sig where sig: "lss_Signature ?m = Some sig" "sig \<noteq> []" using out assms(8) by (auto simp: nil_bytes_def split: option.splits)
  then have m2s: "lss_pos ?m2 = vote_pos v'" "lss_SignBytes ?m2 = Some a" "lss_Signature ?m2 = Some sig"
    using m2 mem signed_state_json(1) [OF sg] by (simp_all add: lss_pos_def lss_json_def omitempty_def)
  obtain st where st: "voteToStep v = Some st" using assms(7) by (auto simp: signVote_def Let_def split: bind_splits)
  have w: "vote_pos w = vote_pos v'" "vote_Type v' = vote_Type w" "vote_BlockID v' = vote_BlockID w" "voteToStep w = Some st"
    using out st assms(10) by (simp_all add: vote_pos_def)
  then have hr: "vote_Height v' = vote_Height w" "vote_Round v' = vote_Round w" by (simp_all add: vote_pos_def)
  have st': "voteToStep v' = Some st" using w(2,4) by (auto simp: voteToStep_def split: if_splits)
  have pos: "vote_pos v' = (vote_Height w, vote_Round w, st)" using w(1,4) by (simp add: vote_pos_def)
  have same: "CheckHRS ?m2 (vote_Height w) (vote_Round w) st = Some (True, None)"
    using CheckHRS_same [OF m2s(1) [unfolded pos] m2s(2,3)] .
  obtain u where u: "vote_request ce chain u" "VoteSignBytes ce chain u = Some a"
    using signed_state_vote [OF sg CheckHRS_same [OF mem(1) [unfolded pos] mem(2) sig(1)] vote_step [OF st]] mem(2) by force
  have req: "vote_request ce chain v'" using u a assms(11) w hr by (simp add: vote_request_def)
  obtain b where b: "VoteSignBytes ce chain w = Some b" using assms(12) by auto
  have ext: "sign_extension pe chain w = Inr (vote_ExtensionSignature v')"
    using conjunct2 [OF out] assms(10) by (simp add: sign_extension_time)
  have tm: "VoteSignBytes ce chain (w\<lparr>vote_Timestamp := vote_Timestamp v'\<rparr>) = Some a"
    unfolding a [symmetric] by (rule VoteSignBytes_cong) (use w(2,3) hr in simp_all)
  have chk: "checkVotesOnlyDifferByTimestamp tu (pe_now pe) a b = Some (vote_Timestamp v', True)"
    using same_vote_other_time [OF a req _ b assms(11) _ assms(2) w(2) hr w(3)] st' w(4) by simp
  obtain w' where w': "signVote pe pv2 disk' chain w = Some (pv2, disk', w', None)" "VoteSignBytes ce chain w' = Some a"
    "vote_Signature w' = nil_bytes (lss_Signature ?m2)" "vote_ExtensionSignature w' = vote_ExtensionSignature v'"
    using sign_same_again [OF w(4) same m2s(2) _ ext, of b, unfolded assms(4,5), OF b chk tm] by blast
  have "vote_Signature v' = nil_bytes (lss_Signature ?m)" using out by blast
  then have "vote_Signature w' = vote_Signature v'" unfolding w'(3) m2s(3) sig(1) ..
  then show ?thesis using w'(1,2,4) unfolding a by blast
qed

theorem resign_after_crash_witness:
  "\<exists>w'. signVote demo_pe (the (LoadFilePV demo_env ''k'' ''s'' (fst (snd demo_pv1)))) (fst (snd demo_pv1)) [7]
      ((demo_vote 1 0)\<lparr>vote_Timestamp := 4\<rparr>) =
      Some (the (LoadFilePV demo_env ''k'' ''s'' (fst (snd demo_pv1))), fst (snd demo_pv1), w', None) \<and>
    vote_Signature w' = vote_Signature (fst (snd (snd demo_pv1)))"
proof -
  obtain pv1 d1 v1 e1 where p1: "demo_pv1 = (pv1, d1, v1, e1)" by (cases demo_pv1)
  have ev: "signVote demo_pe (fst demo_pv) (snd demo_pv) [7] (demo_vote 1 0) \<noteq> None" "snd (snd (snd demo_pv1)) = None"
    "vote_Signature (fst (snd (snd demo_pv1))) \<noteq> []" "LoadFilePV demo_env ''k'' ''s'' (fst (snd demo_pv1)) \<noteq> None"
    "VoteSignBytes demo_env [7] ((demo_vote 1 0)\<lparr>vote_Timestamp := 4\<rparr>) \<noteq> None"
    by code_simp+
  have "signVote demo_pe (fst demo_pv) (snd demo_pv) [7] (demo_vote 1 0) = Some (pv1, d1, v1, None)"
    using ev(1,2) p1 by (auto simp: demo_pv1_def)
  then show ?thesis unfolding p1 fst_conv snd_conv
    using resign_after_crash [OF demo_start demo_time_inverts, of "fst demo_pv" demo_pe "demo_vote 1 0" pv1 d1 v1
        "''k''" "''s''" "the (LoadFilePV demo_env ''k'' ''s'' d1)" _ 4] demo_requests ev(3-5) [unfolded p1 fst_conv snd_conv]
    by (auto simp: demo_pe_def)
qed

end
