(* ===== verification/Height_Vote_Set.thy ===== *)
theory Height_Vote_Set
  imports Vote_Set Safe_Math
begin

text \<open>
  \<open>consensus/types/height_vote_set.go\<close>: the vote sets of all rounds of one height. Rounds up to the
  current one are kept, and every peer may open two more by sending a vote for them. The map of
  rounds is a partial function; a peer without an entry has the empty list of catch-up rounds.
\<close>

section \<open>Model\<close>

record RoundVoteSet =
  rvs_Prevotes :: VoteSet
  rvs_Precommits :: VoteSet

record HeightVoteSet =
  hvs_chainID :: bytes
  hvs_height :: int
  hvs_valSet :: ValidatorSet
  hvs_extensionsEnabled :: bool
  hvs_round :: int
  roundVoteSets :: "int \<rightharpoonup> RoundVoteSet"
  peerCatchupRounds :: "bytes \<Rightarrow> int list"

datatype hvs_error = ErrGotVoteFromUnwantedRound | InvalidVoteType | ConflictingPeerMaj23 | HvsVote vote_error

definition addRound :: "HeightVoteSet \<Rightarrow> int \<Rightarrow> HeightVoteSet option" where
  "addRound hvs r =
     (if roundVoteSets hvs r \<noteq> None then None
      else do {
        prevotes \<leftarrow> NewVoteSet (hvs_chainID hvs) (hvs_height hvs) r PrevoteType (hvs_valSet hvs);
        precommits \<leftarrow> (if hvs_extensionsEnabled hvs
                       then NewExtendedVoteSet (hvs_chainID hvs) (hvs_height hvs) r PrecommitType (hvs_valSet hvs)
                       else NewVoteSet (hvs_chainID hvs) (hvs_height hvs) r PrecommitType (hvs_valSet hvs));
        Some (hvs\<lparr>roundVoteSets := (roundVoteSets hvs)
                    (r \<mapsto> \<lparr>rvs_Prevotes = prevotes, rvs_Precommits = precommits\<rparr>)\<rparr>)
      })"

definition hvs_Reset :: "HeightVoteSet \<Rightarrow> int \<Rightarrow> ValidatorSet \<Rightarrow> HeightVoteSet option" where
  "hvs_Reset hvs h vals =
     do {
       hvs \<leftarrow> addRound (hvs\<lparr>hvs_height := h, hvs_valSet := vals, roundVoteSets := Map.empty,
                            peerCatchupRounds := (\<lambda>_. [])\<rparr>) 0;
       Some (hvs\<lparr>hvs_round := 0\<rparr>)
     }"

definition new_hvs :: "bool \<Rightarrow> bytes \<Rightarrow> int \<Rightarrow> ValidatorSet \<Rightarrow> HeightVoteSet option" where
  "new_hvs ext chain h vals =
     hvs_Reset \<lparr>hvs_chainID = chain, hvs_height = 0, hvs_valSet = vals, hvs_extensionsEnabled = ext, hvs_round = 0,
        roundVoteSets = Map.empty, peerCatchupRounds = (\<lambda>_. [])\<rparr> h vals"

definition NewHeightVoteSet :: "bytes \<Rightarrow> int \<Rightarrow> ValidatorSet \<Rightarrow> HeightVoteSet option" where
  "NewHeightVoteSet chain h vals = new_hvs False chain h vals"

definition NewExtendedHeightVoteSet :: "bytes \<Rightarrow> int \<Rightarrow> ValidatorSet \<Rightarrow> HeightVoteSet option" where
  "NewExtendedHeightVoteSet chain h vals = new_hvs True chain h vals"

text \<open>The loop of \<open>SetRound\<close> over the rounds to create.\<close>

fun add_rounds :: "int list \<Rightarrow> HeightVoteSet \<Rightarrow> HeightVoteSet option" where
  "add_rounds [] hvs = Some hvs"
| "add_rounds (r # rs) hvs =
     (if roundVoteSets hvs r \<noteq> None then add_rounds rs hvs
      else do { hvs \<leftarrow> addRound hvs r; add_rounds rs hvs })"

text \<open>\<open>None\<close> is a panic; at \<open>MaxInt32\<close> it stands for a loop that does not end, since the counter wraps
  around before it exceeds the bound.\<close>

definition SetRound :: "HeightVoteSet \<Rightarrow> int \<Rightarrow> HeightVoteSet option" where
  "SetRound hvs r =
     do {
       newRound \<leftarrow> SafeSubInt32 (hvs_round hvs) 1;
       if hvs_round hvs \<noteq> 0 \<and> r < newRound then None
       else if r = MaxInt32 then None
       else do {
         hvs \<leftarrow> add_rounds [newRound..r] hvs;
         Some (hvs\<lparr>hvs_round := r\<rparr>)
       }
     }"

text \<open>A type other than the two vote types is a panic in a known round.\<close>

definition getVoteSet :: "HeightVoteSet \<Rightarrow> int \<Rightarrow> int \<Rightarrow> VoteSet option option" where
  "getVoteSet hvs r voteType =
     (case roundVoteSets hvs r of
        None \<Rightarrow> Some None
      | Some rvs \<Rightarrow>
          if voteType = PrevoteType then Some (Some (rvs_Prevotes rvs))
          else if voteType = PrecommitType then Some (Some (rvs_Precommits rvs))
          else None)"

text \<open>Writing through the pointer that \<open>getVoteSet\<close> returned.\<close>

definition put_voteSet :: "HeightVoteSet \<Rightarrow> int \<Rightarrow> int \<Rightarrow> VoteSet \<Rightarrow> HeightVoteSet" where
  "put_voteSet hvs r voteType vs =
     hvs\<lparr>roundVoteSets := (roundVoteSets hvs)(r :=
       map_option (\<lambda>rvs. if voteType = PrevoteType then rvs\<lparr>rvs_Prevotes := vs\<rparr> else rvs\<lparr>rvs_Precommits := vs\<rparr>)
         (roundVoteSets hvs r))\<rparr>"

definition add_to_set ::
  "ext_env \<Rightarrow> HeightVoteSet \<Rightarrow> VoteSet \<Rightarrow> Vote \<Rightarrow> (HeightVoteSet \<times> bool \<times> hvs_error option) option" where
  "add_to_set ce hvs voteSet vote =
     do {
       (vs, added, err) \<leftarrow> addVote ce voteSet (Some vote);
       Some (put_voteSet hvs (vote_Round vote) (vote_Type vote) vs, added, map_option HvsVote err)
     }"

definition hvs_AddVote ::
  "ext_env \<Rightarrow> HeightVoteSet \<Rightarrow> Vote \<Rightarrow> bytes \<Rightarrow> bool \<Rightarrow> (HeightVoteSet \<times> bool \<times> hvs_error option) option" where
  "hvs_AddVote ce hvs vote peerID extEnabled =
     (if hvs_extensionsEnabled hvs \<noteq> extEnabled then None
      else if \<not> IsVoteTypeValid (vote_Type vote) then Some (hvs, False, None)
      else do {
        voteSet \<leftarrow> getVoteSet hvs (vote_Round vote) (vote_Type vote);
        (case voteSet of
           Some vs \<Rightarrow> add_to_set ce hvs vs vote
         | None \<Rightarrow>
             if length (peerCatchupRounds hvs peerID) < 2
             then do {
               hvs \<leftarrow> addRound hvs (vote_Round vote);
               voteSet \<leftarrow> getVoteSet hvs (vote_Round vote) (vote_Type vote);
               let hvs = hvs\<lparr>peerCatchupRounds := (peerCatchupRounds hvs)
                                (peerID := peerCatchupRounds hvs peerID @ [vote_Round vote])\<rparr>;
               vs \<leftarrow> voteSet;
               add_to_set ce hvs vs vote
             }
             else Some (hvs, False, Some ErrGotVoteFromUnwantedRound))
      })"

definition Prevotes :: "HeightVoteSet \<Rightarrow> int \<Rightarrow> VoteSet option" where
  "Prevotes hvs r = map_option rvs_Prevotes (roundVoteSets hvs r)"

definition Precommits :: "HeightVoteSet \<Rightarrow> int \<Rightarrow> VoteSet option" where
  "Precommits hvs r = map_option rvs_Precommits (roundVoteSets hvs r)"

text \<open>The loop of \<open>POLInfo\<close>; the argument is the number of rounds left.\<close>

fun pol_loop :: "HeightVoteSet \<Rightarrow> nat \<Rightarrow> int \<times> BlockID" where
  "pol_loop hvs 0 = (-1, zeroBlockID)"
| "pol_loop hvs (Suc n) =
     (case TwoThirdsMajority (Prevotes hvs (int n)) of
        (b, True) \<Rightarrow> (int n, b)
      | (b, False) \<Rightarrow> pol_loop hvs n)"

definition POLInfo :: "HeightVoteSet \<Rightarrow> int \<times> BlockID" where
  "POLInfo hvs = pol_loop hvs (nat (hvs_round hvs + 1))"

definition hvs_SetPeerMaj23 ::
  "HeightVoteSet \<Rightarrow> int \<Rightarrow> int \<Rightarrow> bytes \<Rightarrow> BlockID \<Rightarrow> (HeightVoteSet \<times> hvs_error option) option" where
  "hvs_SetPeerMaj23 hvs r voteType peerID blockID =
     (if \<not> IsVoteTypeValid voteType then Some (hvs, Some InvalidVoteType)
      else do {
        voteSet \<leftarrow> getVoteSet hvs r voteType;
        (case voteSet of
           None \<Rightarrow> Some (hvs, None)
         | Some vs \<Rightarrow>
             let (vs', ok) = SetPeerMaj23 vs peerID blockID
             in Some (put_voteSet hvs r voteType vs', if ok then None else Some ConflictingPeerMaj23))
      })"

section \<open>Invariant\<close>

text \<open>A vote set of a given round and type that arose from the operations of vote sets.\<close>

definition slot_ok :: "ext_env \<Rightarrow> HeightVoteSet \<Rightarrow> int \<Rightarrow> int \<Rightarrow> VoteSet \<Rightarrow> bool" where
  "slot_ok ce hvs r t vs \<longleftrightarrow> vset_reach ce vs \<and> chainID vs = hvs_chainID hvs \<and> height vs = hvs_height hvs \<and>
     round vs = r \<and> signedMsgType vs = t \<and> valSet vs = hvs_valSet hvs \<and>
     extensionsEnabled vs = (t = PrecommitType \<and> hvs_extensionsEnabled hvs)"

definition hvs_inv :: "ext_env \<Rightarrow> HeightVoteSet \<Rightarrow> bool" where
  "hvs_inv ce hvs \<longleftrightarrow> vs_wf (hvs_valSet hvs) \<and> 0 \<le> hvs_round hvs \<and> hvs_round hvs \<le> MaxInt32 \<and>
     (\<forall>r rvs. roundVoteSets hvs r = Some rvs \<longrightarrow>
        slot_ok ce hvs r PrevoteType (rvs_Prevotes rvs) \<and> slot_ok ce hvs r PrecommitType (rvs_Precommits rvs)) \<and>
     {0..hvs_round hvs} \<subseteq> dom (roundVoteSets hvs) \<and>
     (\<forall>peer. length (peerCatchupRounds hvs peer) \<le> 2) \<and>
     dom (roundVoteSets hvs) \<subseteq> {-1..hvs_round hvs} \<union> (\<Union>peer. set (peerCatchupRounds hvs peer))"

inductive hvs_reach :: "ext_env \<Rightarrow> HeightVoteSet \<Rightarrow> bool" for ce where
  new: "new_hvs ext chain h vals = Some hvs \<Longrightarrow> vs_wf vals \<Longrightarrow> hvs_reach ce hvs"
| set_round: "hvs_reach ce hvs \<Longrightarrow> SetRound hvs r = Some hvs' \<Longrightarrow> hvs_round hvs \<le> r \<Longrightarrow> in32 r \<Longrightarrow> hvs_reach ce hvs'"
| add_vote: "hvs_reach ce hvs \<Longrightarrow> hvs_AddVote ce hvs v peer ext = Some (hvs', added, err) \<Longrightarrow> hvs_reach ce hvs'"
| peer_maj: "hvs_reach ce hvs \<Longrightarrow> hvs_SetPeerMaj23 hvs r t peer b = Some (hvs', err) \<Longrightarrow> hvs_reach ce hvs'"

lemma slot_ok_upd [simp]:
  "slot_ok ce (hvs\<lparr>roundVoteSets := x\<rparr>) r t vs = slot_ok ce hvs r t vs"
  "slot_ok ce (hvs\<lparr>peerCatchupRounds := y\<rparr>) r t vs = slot_ok ce hvs r t vs"
  "slot_ok ce (hvs\<lparr>hvs_round := z\<rparr>) r t vs = slot_ok ce hvs r t vs"
  by (simp_all add: slot_ok_def)

lemma hvs_invD:
  assumes "hvs_inv ce hvs"
  shows "vs_wf (hvs_valSet hvs)" "0 \<le> hvs_round hvs" "hvs_round hvs \<le> MaxInt32"
    "roundVoteSets hvs r = Some rvs \<Longrightarrow> slot_ok ce hvs r PrevoteType (rvs_Prevotes rvs) \<and> slot_ok ce hvs r PrecommitType (rvs_Precommits rvs)"
    "{0..hvs_round hvs} \<subseteq> dom (roundVoteSets hvs)" "length (peerCatchupRounds hvs peer) \<le> 2"
    "dom (roundVoteSets hvs) \<subseteq> {-1..hvs_round hvs} \<union> (\<Union>peer. set (peerCatchupRounds hvs peer))"
  using assms unfolding hvs_inv_def by blast+

lemma new_slots:
  assumes "vs_wf (hvs_valSet hvs)"
  shows "NewVoteSet (hvs_chainID hvs) (hvs_height hvs) r PrevoteType (hvs_valSet hvs) = Some vs \<Longrightarrow> slot_ok ce hvs r PrevoteType vs"
    and "(if hvs_extensionsEnabled hvs
           then NewExtendedVoteSet (hvs_chainID hvs) (hvs_height hvs) r PrecommitType (hvs_valSet hvs)
           else NewVoteSet (hvs_chainID hvs) (hvs_height hvs) r PrecommitType (hvs_valSet hvs)) = Some vs \<Longrightarrow>
         slot_ok ce hvs r PrecommitType vs"
  using vset_reach.new [OF _ assms] vset_reach.new_extended [OF _ assms]
  by (auto simp: slot_ok_def NewVoteSet_def NewExtendedVoteSet_def split: if_splits)

lemma addRound_cases:
  assumes "addRound hvs r = Some hvs'" and "vs_wf (hvs_valSet hvs)"
  obtains rvs where "roundVoteSets hvs r = None" "hvs' = hvs\<lparr>roundVoteSets := (roundVoteSets hvs)(r \<mapsto> rvs)\<rparr>"
    "slot_ok ce hvs r PrevoteType (rvs_Prevotes rvs)" "slot_ok ce hvs r PrecommitType (rvs_Precommits rvs)"
proof -
  obtain p q where "NewVoteSet (hvs_chainID hvs) (hvs_height hvs) r PrevoteType (hvs_valSet hvs) = Some p"
    "(if hvs_extensionsEnabled hvs
       then NewExtendedVoteSet (hvs_chainID hvs) (hvs_height hvs) r PrecommitType (hvs_valSet hvs)
       else NewVoteSet (hvs_chainID hvs) (hvs_height hvs) r PrecommitType (hvs_valSet hvs)) = Some q"
    "roundVoteSets hvs r = None"
    "hvs' = hvs\<lparr>roundVoteSets := (roundVoteSets hvs)(r \<mapsto> \<lparr>rvs_Prevotes = p, rvs_Precommits = q\<rparr>)\<rparr>"
    using assms(1) unfolding addRound_def by (auto split: if_split_asm bind_splits simp del: if_split)
  then show ?thesis using that new_slots [OF assms(2)] by auto
qed

definition slots_ok :: "ext_env \<Rightarrow> HeightVoteSet \<Rightarrow> (int \<rightharpoonup> RoundVoteSet) \<Rightarrow> bool" where
  "slots_ok ce hvs m \<longleftrightarrow> (\<forall>r rvs. m r = Some rvs \<longrightarrow>
     slot_ok ce hvs r PrevoteType (rvs_Prevotes rvs) \<and> slot_ok ce hvs r PrecommitType (rvs_Precommits rvs))"

lemma slots_ok_upd [simp]:
  "slots_ok ce (hvs\<lparr>roundVoteSets := x\<rparr>) = slots_ok ce hvs"
  "slots_ok ce (hvs\<lparr>peerCatchupRounds := y\<rparr>) = slots_ok ce hvs"
  "slots_ok ce (hvs\<lparr>hvs_round := z\<rparr>) = slots_ok ce hvs"
  by (simp_all add: slots_ok_def fun_eq_iff)

lemma add_rounds_cases:
  assumes "add_rounds rs hvs = Some hvs'" and "vs_wf (hvs_valSet hvs)" and "slots_ok ce hvs (roundVoteSets hvs)"
  shows "\<exists>m. hvs' = hvs\<lparr>roundVoteSets := m\<rparr> \<and> dom m = dom (roundVoteSets hvs) \<union> set rs \<and> slots_ok ce hvs m"
  using assms
proof (induction rs hvs rule: add_rounds.induct)
  case (1 hvs)
  then show ?case by (intro exI [of _ "roundVoteSets hvs"]) simp
next
  case (2 r rs hvs)
  show ?case
  proof (cases "roundVoteSets hvs r")
    case None
    then obtain h where h: "addRound hvs r = Some h" "add_rounds rs h = Some hvs'"
      using "2.prems"(1) by (auto split: bind_splits)
    obtain rvs where rvs: "h = hvs\<lparr>roundVoteSets := (roundVoteSets hvs)(r \<mapsto> rvs)\<rparr>"
      "slot_ok ce hvs r PrevoteType (rvs_Prevotes rvs)" "slot_ok ce hvs r PrecommitType (rvs_Precommits rvs)"
      using addRound_cases [OF h(1) "2.prems"(2)] .
    then have sl: "slots_ok ce h (roundVoteSets h)" and wf: "vs_wf (hvs_valSet h)"
      using "2.prems"(2,3) by (simp_all add: slots_ok_def)
    obtain m where "hvs' = h\<lparr>roundVoteSets := m\<rparr>" "dom m = dom (roundVoteSets h) \<union> set rs" "slots_ok ce h m"
      using "2.IH"(2) [OF _ h wf sl] None by auto
    then show ?thesis by (intro exI [of _ m]) (simp add: rvs(1))
  next
    case (Some rvs)
    then obtain m where "hvs' = hvs\<lparr>roundVoteSets := m\<rparr>" "dom m = dom (roundVoteSets hvs) \<union> set rs" "slots_ok ce hvs m"
      using "2.IH"(1) [OF _ _ "2.prems"(2,3)] "2.prems"(1) by auto
    moreover have "r \<in> dom (roundVoteSets hvs)" using Some by blast
    ultimately show ?thesis by (intro exI [of _ m]) (simp add: insert_absorb)
  qed
qed

lemma addVote_slot:
  assumes "slot_ok ce hvs r t vs" and "addVote ce vs (Some v) = Some (vs', added, err)"
  shows "slot_ok ce hvs r t vs'"
proof -
  have "same_config vs' vs"
    using addVote_effect [OF vset_reach_inv assms(2)] assms(1) by (auto simp: slot_ok_def add_effect_def)
  then show ?thesis using assms vset_reach.add by (auto simp: slot_ok_def same_config_def)
qed

lemma peer_slot:
  assumes "slot_ok ce hvs r t vs" and "SetPeerMaj23 vs peer b = (vs', ok)"
  shows "slot_ok ce hvs r t vs'"
proof -
  have "same_config vs' vs"
    using SetPeerMaj23_inv(2) [OF vset_reach_inv, of ce vs peer b] assms by (auto simp: slot_ok_def)
  then show ?thesis using assms vset_reach.peer by (auto simp: slot_ok_def same_config_def)
qed

lemma getVoteSet_cases:
  assumes "getVoteSet hvs r t = Some (Some vs)"
  obtains rvs where "roundVoteSets hvs r = Some rvs" "t = PrevoteType \<and> vs = rvs_Prevotes rvs \<or> t = PrecommitType \<and> vs = rvs_Precommits rvs"
  using assms by (auto simp: getVoteSet_def split: option.splits if_splits)

lemma getVoteSet_slot:
  assumes "getVoteSet hvs r t = Some (Some vs)" and "slots_ok ce hvs (roundVoteSets hvs)"
  shows "slot_ok ce hvs r t vs"
  using getVoteSet_cases [OF assms(1)] assms(2) by (auto simp: slots_ok_def)

text \<open>Replacing a vote set by one of the same round and type.\<close>

lemma put_voteSet_cases:
  assumes "getVoteSet hvs r t = Some (Some vs)" and "slots_ok ce hvs (roundVoteSets hvs)" and "slot_ok ce hvs r t vs'"
  shows "\<exists>m. put_voteSet hvs r t vs' = hvs\<lparr>roundVoteSets := m\<rparr> \<and> dom m = dom (roundVoteSets hvs) \<and> slots_ok ce hvs m"
proof -
  let ?m = "(roundVoteSets hvs)(r := map_option (\<lambda>rvs. if t = PrevoteType then rvs\<lparr>rvs_Prevotes := vs'\<rparr> else rvs\<lparr>rvs_Precommits := vs'\<rparr>)
         (roundVoteSets hvs r))"
  obtain rvs where "roundVoteSets hvs r = Some rvs" "t = PrevoteType \<or> t = PrecommitType"
    using getVoteSet_cases [OF assms(1)] by blast
  then have "dom ?m = dom (roundVoteSets hvs)" "slots_ok ce hvs ?m" using assms(2,3) by (auto simp: slots_ok_def)
  then show ?thesis unfolding put_voteSet_def by blast
qed

lemma hvs_invI:
  assumes "hvs_inv ce hvs" and "slots_ok ce hvs m" and "dom (roundVoteSets hvs) \<subseteq> dom m"
    and "\<forall>peer. length (c peer) \<le> 2" and "\<forall>peer. set (peerCatchupRounds hvs peer) \<subseteq> set (c peer)"
    and "dom m \<subseteq> dom (roundVoteSets hvs) \<union> (\<Union>peer. set (c peer))"
  shows "hvs_inv ce (hvs\<lparr>roundVoteSets := m, peerCatchupRounds := c\<rparr>)"
proof -
  have "r \<in> {-1..hvs_round hvs} \<union> (\<Union>peer. set (c peer))" if "r \<in> dom m" for r
  proof (cases "r \<in> dom (roundVoteSets hvs)")
    case True
    then consider "r \<in> {-1..hvs_round hvs}" | peer where "r \<in> set (peerCatchupRounds hvs peer)"
      using subsetD [OF hvs_invD(7) [OF assms(1)] True] by blast
    then show ?thesis using assms(5) by cases blast+
  qed (use subsetD [OF assms(6) that] in simp)
  then have "dom m \<subseteq> {-1..hvs_round hvs} \<union> (\<Union>peer. set (c peer))" by (rule subsetI)
  moreover have "{0..hvs_round hvs} \<subseteq> dom m" using hvs_invD(5) [OF assms(1)] assms(3) by (rule order_trans)
  ultimately show ?thesis using assms(2,4) hvs_invD(1-3) [OF assms(1)] unfolding hvs_inv_def by (simp add: slots_ok_def)
qed

lemma hvs_inv_slots: "hvs_inv ce hvs \<Longrightarrow> slots_ok ce hvs (roundVoteSets hvs)"
  by (simp add: slots_ok_def hvs_inv_def)

lemma add_to_set_inv:
  assumes "hvs_inv ce hvs" and "getVoteSet hvs (vote_Round v) (vote_Type v) = Some (Some vs)"
    and "add_to_set ce hvs vs v = Some (hvs', added, err)"
  shows "hvs_inv ce hvs'"
proof -
  note slots = hvs_inv_slots [OF assms(1)]
  obtain vs' e where v: "addVote ce vs (Some v) = Some (vs', added, e)" "hvs' = put_voteSet hvs (vote_Round v) (vote_Type v) vs'"
    using assms(3) by (auto simp: add_to_set_def split: bind_splits)
  obtain m where m: "hvs' = hvs\<lparr>roundVoteSets := m\<rparr>" "dom m = dom (roundVoteSets hvs)" "slots_ok ce hvs m"
    using put_voteSet_cases [OF assms(2) slots addVote_slot [OF getVoteSet_slot [OF assms(2) slots] v(1)]] v(2) by blast
  have "hvs_inv ce (hvs\<lparr>roundVoteSets := m, peerCatchupRounds := peerCatchupRounds hvs\<rparr>)"
    using m(2) hvs_invD(6) [OF assms(1)] by (intro hvs_invI [OF assms(1) m(3)]) auto
  then show ?thesis by (simp add: m(1))
qed

lemma hvs_AddVote_inv:
  assumes "hvs_inv ce hvs" and "hvs_AddVote ce hvs v peer ext = Some (hvs', added, err)"
  shows "hvs_inv ce hvs'"
proof (cases "IsVoteTypeValid (vote_Type v)")
  case True
  have run: "hvs_extensionsEnabled hvs = ext" using assms(2) by (auto simp: hvs_AddVote_def split: if_splits)
  obtain vo where vo: "getVoteSet hvs (vote_Round v) (vote_Type v) = Some vo"
    using assms(2) True run by (auto simp: hvs_AddVote_def split: bind_splits)
  show ?thesis
  proof (cases vo)
    case (Some vs)
    then show ?thesis using add_to_set_inv [OF assms(1)] vo assms(2) True run by (auto simp: hvs_AddVote_def)
  next
    case None
    show ?thesis
    proof (cases "length (peerCatchupRounds hvs peer) < 2")
      case False
      then show ?thesis using assms True run vo None by (auto simp: hvs_AddVote_def)
    next
      case less: True
      let ?c = "(peerCatchupRounds hvs)(peer := peerCatchupRounds hvs peer @ [vote_Round v])"
      obtain h vs where h: "addRound hvs (vote_Round v) = Some h" "getVoteSet h (vote_Round v) (vote_Type v) = Some (Some vs)"
        "add_to_set ce (h\<lparr>peerCatchupRounds := (peerCatchupRounds h)(peer := peerCatchupRounds h peer @ [vote_Round v])\<rparr>) vs v
           = Some (hvs', added, err)"
        using assms(2) True run vo None less by (auto simp: hvs_AddVote_def Let_def split: bind_splits option.splits)
      obtain rvs where rvs: "h = hvs\<lparr>roundVoteSets := (roundVoteSets hvs)(vote_Round v \<mapsto> rvs)\<rparr>"
        "slot_ok ce hvs (vote_Round v) PrevoteType (rvs_Prevotes rvs)" "slot_ok ce hvs (vote_Round v) PrecommitType (rvs_Precommits rvs)"
        using addRound_cases [OF h(1) hvs_invD(1) [OF assms(1)]] .
      have "hvs_inv ce (hvs\<lparr>roundVoteSets := (roundVoteSets hvs)(vote_Round v \<mapsto> rvs), peerCatchupRounds := ?c\<rparr>)"
        using rvs(2,3) hvs_inv_slots [OF assms(1)] hvs_invD(6) [OF assms(1)] less
        by (intro hvs_invI [OF assms(1)]) (auto simp: slots_ok_def)
      then show ?thesis using add_to_set_inv [OF _ _ h(3)] h(2) rvs(1) by (simp add: getVoteSet_def)
    qed
  qed
qed (use assms in \<open>auto simp: hvs_AddVote_def split: if_splits\<close>)

lemma hvs_SetPeerMaj23_inv:
  assumes "hvs_inv ce hvs" and "hvs_SetPeerMaj23 hvs r t peer b = Some (hvs', err)"
  shows "hvs_inv ce hvs'"
proof (cases "\<exists>vs. IsVoteTypeValid t \<and> getVoteSet hvs r t = Some (Some vs)")
  case True
  then obtain vs vs' ok where vs: "getVoteSet hvs r t = Some (Some vs)" "SetPeerMaj23 vs peer b = (vs', ok)"
    "hvs' = put_voteSet hvs r t vs'"
    using assms(2) by (cases "SetPeerMaj23 (the (the (getVoteSet hvs r t))) peer b") (auto simp: hvs_SetPeerMaj23_def)
  note slots = hvs_inv_slots [OF assms(1)]
  obtain m where m: "hvs' = hvs\<lparr>roundVoteSets := m\<rparr>" "dom m = dom (roundVoteSets hvs)" "slots_ok ce hvs m"
    using put_voteSet_cases [OF vs(1) slots peer_slot [OF getVoteSet_slot [OF vs(1) slots] vs(2)]] vs(3) by blast
  have "hvs_inv ce (hvs\<lparr>roundVoteSets := m, peerCatchupRounds := peerCatchupRounds hvs\<rparr>)"
    using m(2) hvs_invD(6) [OF assms(1)] by (intro hvs_invI [OF assms(1) m(3)]) auto
  then show ?thesis by (simp add: m(1))
next
  case False
  then have "hvs' = hvs" using assms(2) by (auto simp: hvs_SetPeerMaj23_def split: if_splits bind_splits option.splits)
  then show ?thesis using assms(1) by simp
qed

lemma SetRound_inv:
  assumes "hvs_inv ce hvs" and "SetRound hvs r = Some hvs'" and "hvs_round hvs \<le> r" and "in32 r"
  shows "hvs_inv ce hvs'"
proof -
  note inv = hvs_invD [OF assms(1)]
  have new: "SafeSubInt32 (hvs_round hvs) 1 = Some (hvs_round hvs - 1)"
    using inv(2,3) by (simp add: SafeSubInt32_def in32_def)
  then obtain h where h: "add_rounds [hvs_round hvs - 1..r] hvs = Some h" "hvs' = h\<lparr>hvs_round := r\<rparr>"
    using assms(2) by (auto simp: SetRound_def split: if_splits bind_splits)
  obtain m where m: "h = hvs\<lparr>roundVoteSets := m\<rparr>" "dom m = dom (roundVoteSets hvs) \<union> {hvs_round hvs - 1..r}" "slots_ok ce hvs m"
    using add_rounds_cases [OF h(1) inv(1) hvs_inv_slots [OF assms(1)]] by auto
  have "dom m \<subseteq> {-1..r} \<union> (\<Union>peer. set (peerCatchupRounds hvs peer))"
    unfolding m(2) using inv(2,7) assms(3) by fastforce
  moreover have "{0..r} \<subseteq> {0..hvs_round hvs} \<union> {hvs_round hvs - 1..r}" by auto
  then have "{0..r} \<subseteq> dom m" unfolding m(2) using inv(5) by blast
  ultimately show ?thesis using m(3) inv(1,2,6) assms(3,4) by (simp add: hvs_inv_def h(2) m(1) slots_ok_def in32_def)
qed

lemma new_hvs_inv:
  assumes "new_hvs ext chain h vals = Some hvs" and "vs_wf vals"
  shows "hvs_inv ce hvs"
proof -
  let ?h0 = "\<lparr>hvs_chainID = chain, hvs_height = h, hvs_valSet = vals, hvs_extensionsEnabled = ext, hvs_round = 0,
        roundVoteSets = Map.empty, peerCatchupRounds = (\<lambda>_. [])\<rparr>"
  obtain h1 where h1: "addRound ?h0 0 = Some h1" "hvs = h1\<lparr>hvs_round := 0\<rparr>"
    using assms(1) by (auto simp: new_hvs_def hvs_Reset_def split: bind_splits)
  obtain rvs where "h1 = ?h0\<lparr>roundVoteSets := [0 \<mapsto> rvs]\<rparr>"
    "slot_ok ce ?h0 0 PrevoteType (rvs_Prevotes rvs)" "slot_ok ce ?h0 0 PrecommitType (rvs_Precommits rvs)"
    using addRound_cases [OF h1(1)] assms(2) by auto
  then show ?thesis using assms(2) by (auto simp: hvs_inv_def h1(2) slot_ok_def split: if_splits)
qed

lemma hvs_reach_inv: "hvs_reach ce hvs \<Longrightarrow> hvs_inv ce hvs"
  by (induction rule: hvs_reach.induct) (blast intro: new_hvs_inv SetRound_inv hvs_AddVote_inv hvs_SetPeerMaj23_inv)+

section \<open>Properties\<close>

text \<open>C9. In every height vote set that can arise, each round up to the current one has its two vote sets,
  each vote set is one for its round, type, height and validators, and no peer can open more than two
  further rounds: the number of rounds is at most the current round plus two, plus two for each peer
  that opened any.\<close>

theorem HeightVoteSet_invariant:
  assumes "hvs_reach ce hvs" and "finite P" and "\<forall>peer. peerCatchupRounds hvs peer \<noteq> [] \<longrightarrow> peer \<in> P"
  shows "(\<forall>r. 0 \<le> r \<and> r \<le> hvs_round hvs \<longrightarrow> (\<exists>p c. getVoteSet hvs r PrevoteType = Some (Some p) \<and> getVoteSet hvs r PrecommitType = Some (Some c))) \<and>
    (\<forall>r t vs. getVoteSet hvs r t = Some (Some vs) \<longrightarrow> vset_reach ce vs \<and> round vs = r \<and> signedMsgType vs = t \<and>
       height vs = hvs_height hvs \<and> valSet vs = hvs_valSet hvs) \<and>
    int (card (dom (roundVoteSets hvs))) \<le> hvs_round hvs + 2 + 2 * int (card P)"
proof -
  note inv = hvs_invD [OF hvs_reach_inv [OF assms(1)]] and slots = hvs_inv_slots [OF hvs_reach_inv [OF assms(1)]]
  have rounds: "\<exists>p c. getVoteSet hvs r PrevoteType = Some (Some p) \<and> getVoteSet hvs r PrecommitType = Some (Some c)"
    if "0 \<le> r" "r \<le> hvs_round hvs" for r
  proof -
    have "r \<in> dom (roundVoteSets hvs)" by (rule subsetD [OF inv(5)]) (use that in simp)
    then show ?thesis by (auto simp: getVoteSet_def)
  qed
  have "(\<Union>peer. set (peerCatchupRounds hvs peer)) \<subseteq> (\<Union>peer\<in>P. set (peerCatchupRounds hvs peer))" (is "_ \<subseteq> ?U")
  proof
    fix r assume "r \<in> (\<Union>peer. set (peerCatchupRounds hvs peer))"
    then obtain peer where r: "r \<in> set (peerCatchupRounds hvs peer)" by blast
    then have "peerCatchupRounds hvs peer \<noteq> []" by auto
    then have "peer \<in> P" using assms(3) by blast
    then show "r \<in> ?U" using r by blast
  qed
  then have sub: "dom (roundVoteSets hvs) \<subseteq> {-1..hvs_round hvs} \<union> ?U" using inv(7) by (meson Un_mono order_refl order_trans)
  have "card ?U \<le> (\<Sum>peer\<in>P. card (set (peerCatchupRounds hvs peer)))" using assms(2) by (rule card_UN_le)
  also have "\<dots> \<le> (\<Sum>peer\<in>P. 2)" by (intro sum_mono) (rule order_trans [OF card_length inv(6)])
  finally have U: "card ?U \<le> 2 * card P" by simp
  have "card (dom (roundVoteSets hvs)) \<le> card ({-1..hvs_round hvs} \<union> ?U)" using sub assms(2) by (intro card_mono) auto
  also have "\<dots> \<le> card {-1..hvs_round hvs} + card ?U" by (rule card_Un_le)
  finally have "int (card (dom (roundVoteSets hvs))) \<le> hvs_round hvs + 2 + 2 * int (card P)" using U inv(2) by simp
  moreover have "vset_reach ce vs \<and> round vs = r \<and> signedMsgType vs = t \<and> height vs = hvs_height hvs \<and> valSet vs = hvs_valSet hvs"
    if "getVoteSet hvs r t = Some (Some vs)" for r t vs
    using getVoteSet_slot [OF that slots] by (simp add: slot_ok_def)
  ultimately show ?thesis using rounds by blast
qed

definition demo_hvs0 :: HeightVoteSet where
  "demo_hvs0 = the (NewHeightVoteSet [7] 1 demo_vals)"

definition demo_hvs1 :: HeightVoteSet where
  "demo_hvs1 = the (SetRound demo_hvs0 1)"

definition demo_hvs2 :: HeightVoteSet where
  "demo_hvs2 = fst (the (hvs_AddVote demo_env demo_hvs1 ((demo_vote 1 5)\<lparr>vote_ValidatorAddress := []\<rparr>) [9] False))"

lemma demo_hvs_runs:
  "new_hvs False [7] 1 demo_vals = Some demo_hvs0" "SetRound demo_hvs0 1 = Some demo_hvs1"
  "\<exists>h a e. hvs_AddVote demo_env demo_hvs1 ((demo_vote 1 5)\<lparr>vote_ValidatorAddress := []\<rparr>) [9] False = Some (h, a, e) \<and> demo_hvs2 = h"
proof -
  have "NewHeightVoteSet [7] 1 demo_vals \<noteq> None" "SetRound demo_hvs0 1 \<noteq> None"
    "hvs_AddVote demo_env demo_hvs1 ((demo_vote 1 5)\<lparr>vote_ValidatorAddress := []\<rparr>) [9] False \<noteq> None"
    by code_simp+
  then show "new_hvs False [7] 1 demo_vals = Some demo_hvs0" "SetRound demo_hvs0 1 = Some demo_hvs1"
    "\<exists>h a e. hvs_AddVote demo_env demo_hvs1 ((demo_vote 1 5)\<lparr>vote_ValidatorAddress := []\<rparr>) [9] False = Some (h, a, e) \<and> demo_hvs2 = h"
    by (auto simp: demo_hvs0_def demo_hvs1_def demo_hvs2_def NewHeightVoteSet_def)
qed

lemma demo_hvs_reach: "hvs_reach demo_env demo_hvs1" "hvs_reach demo_env demo_hvs2"
proof -
  have "hvs_round demo_hvs0 \<le> 1" by code_simp
  then show 1: "hvs_reach demo_env demo_hvs1"
    using hvs_reach.set_round [OF hvs_reach.new [OF demo_hvs_runs(1)] demo_hvs_runs(2)] demo_rot_inv
    by (simp add: rot_inv_def in32_def)
  show "hvs_reach demo_env demo_hvs2" using demo_hvs_runs(3) hvs_reach.add_vote [OF 1] by blast
qed

lemma addRound_peers: "addRound hvs r = Some hvs' \<Longrightarrow> peerCatchupRounds hvs' = peerCatchupRounds hvs"
  by (auto simp: addRound_def split: if_splits bind_splits)

lemma add_rounds_peers: "add_rounds rs hvs = Some hvs' \<Longrightarrow> peerCatchupRounds hvs' = peerCatchupRounds hvs"
  by (induction rs hvs rule: add_rounds.induct) (auto split: if_splits bind_splits dest: addRound_peers)

lemma AddVote_peers:
  "hvs_AddVote ce hvs v peer ext = Some (hvs', added, err) \<Longrightarrow> q \<noteq> peer \<Longrightarrow> peerCatchupRounds hvs' q = peerCatchupRounds hvs q"
  by (auto simp: hvs_AddVote_def add_to_set_def put_voteSet_def Let_def split: if_splits bind_splits option.splits dest: addRound_peers)

theorem HeightVoteSet_invariant_witness:
  "int (card (dom (roundVoteSets demo_hvs2))) \<le> hvs_round demo_hvs2 + 2 + 2 * int (card {[9 :: 8 word]})"
proof -
  have "peerCatchupRounds demo_hvs0 = (\<lambda>_. [])"
  proof -
    obtain x where x: "addRound \<lparr>hvs_chainID = [7], hvs_height = 1, hvs_valSet = demo_vals, hvs_extensionsEnabled = False,
        hvs_round = 0, roundVoteSets = Map.empty, peerCatchupRounds = (\<lambda>_. [])\<rparr> 0 = Some x" "demo_hvs0 = x\<lparr>hvs_round := 0\<rparr>"
      using demo_hvs_runs(1) by (auto simp: new_hvs_def hvs_Reset_def split: bind_splits)
    show ?thesis using addRound_peers [OF x(1)] by (simp add: x(2))
  qed
  moreover obtain y r where y: "add_rounds r demo_hvs0 = Some y" "demo_hvs1 = y\<lparr>hvs_round := 1\<rparr>"
    using demo_hvs_runs(2) by (auto simp: SetRound_def split: if_splits bind_splits)
  ultimately have "peerCatchupRounds demo_hvs1 = (\<lambda>_. [])" unfolding y(2) using add_rounds_peers [OF y(1)] by simp
  then have "\<forall>peer. peerCatchupRounds demo_hvs2 peer \<noteq> [] \<longrightarrow> peer \<in> {[9]}"
    using demo_hvs_runs(3) AddVote_peers by fastforce
  then show ?thesis using HeightVoteSet_invariant [OF demo_hvs_reach(2), of "{[9]}"] by simp
qed

lemma pol_loop_spec:
  "(\<exists>r b. pol_loop hvs n = (int r, b) \<and> r < n \<and> TwoThirdsMajority (Prevotes hvs (int r)) = (b, True) \<and>
      (\<forall>k. r < k \<longrightarrow> k < n \<longrightarrow> \<not> snd (TwoThirdsMajority (Prevotes hvs (int k))))) \<or>
   pol_loop hvs n = (-1, zeroBlockID) \<and> (\<forall>k < n. \<not> snd (TwoThirdsMajority (Prevotes hvs (int k))))"
proof (induction n)
  case (Suc n)
  show ?case
  proof (cases "TwoThirdsMajority (Prevotes hvs (int n))")
    case (Pair b ok)
    then show ?thesis
    proof (cases ok)
      case False
      then have no: "\<not> snd (TwoThirdsMajority (Prevotes hvs (int n)))" and eq: "pol_loop hvs (Suc n) = pol_loop hvs n"
        using Pair by simp_all
      show ?thesis unfolding eq using Suc.IH no less_Suc_eq by metis
    qed auto
  qed
qed simp

text \<open>C10. \<open>POLInfo\<close> returns the latest round up to the current one whose prevotes have a two-thirds majority,
  with the block of that majority, or -1 when there is none.\<close>

theorem POLInfo_spec:
  assumes "0 \<le> hvs_round hvs" and "POLInfo hvs = (r, b)"
  shows "(r = -1 \<and> (\<forall>k. 0 \<le> k \<and> k \<le> hvs_round hvs \<longrightarrow> \<not> HasTwoThirdsMajority (Prevotes hvs k))) \<or>
    (0 \<le> r \<and> r \<le> hvs_round hvs \<and> TwoThirdsMajority (Prevotes hvs r) = (b, True) \<and>
      (\<forall>k. r < k \<and> k \<le> hvs_round hvs \<longrightarrow> \<not> HasTwoThirdsMajority (Prevotes hvs k)))"
proof -
  have snd: "snd (TwoThirdsMajority p) = HasTwoThirdsMajority p" for p
    by (auto simp: TwoThirdsMajority_def HasTwoThirdsMajority_def split: option.splits)
  let ?n = "nat (hvs_round hvs + 1)"
  consider (pol) q where "r = int q" "q < ?n" "TwoThirdsMajority (Prevotes hvs (int q)) = (b, True)"
      "\<forall>k. q < k \<longrightarrow> k < ?n \<longrightarrow> \<not> HasTwoThirdsMajority (Prevotes hvs (int k))"
    | (none) "r = -1" "\<forall>k < ?n. \<not> HasTwoThirdsMajority (Prevotes hvs (int k))"
    using pol_loop_spec [of hvs ?n] assms(2) by (auto simp: POLInfo_def snd)
  then show ?thesis
  proof cases
    case pol
    have "\<not> HasTwoThirdsMajority (Prevotes hvs k)" if "r < k" "k \<le> hvs_round hvs" for k
      using pol(4) [rule_format, of "nat k"] that pol(1) by auto
    then show ?thesis using pol(1-3) by auto
  next
    case none
    have "\<not> HasTwoThirdsMajority (Prevotes hvs k)" if "0 \<le> k" "k \<le> hvs_round hvs" for k
      using none(2) [rule_format, of "nat k"] that by auto
    then show ?thesis using none(1) by auto
  qed
qed

definition demo_prevote :: "8 word \<Rightarrow> int \<Rightarrow> Vote" where
  "demo_prevote a i =
     (let v = (demo_vote PrevoteType 0)\<lparr>vote_ValidatorAddress := [a], vote_ValidatorIndex := i\<rparr>
      in v\<lparr>vote_Signature := a # the (VoteSignBytes demo_env [7] v)\<rparr>)"

definition demo_hvs3 :: HeightVoteSet where
  "demo_hvs3 = fst (the (hvs_AddVote demo_env (fst (the (hvs_AddVote demo_env demo_hvs1 (demo_prevote 2 0) [9] False)))
     (demo_prevote 1 1) [9] False))"

theorem POLInfo_spec_witness:
  "POLInfo demo_hvs3 = (0, demo_block) \<and> TwoThirdsMajority (Prevotes demo_hvs3 0) = (demo_block, True)"
proof -
  have "POLInfo demo_hvs3 = (0, demo_block)" "0 \<le> hvs_round demo_hvs3" by code_simp+
  then show ?thesis using POLInfo_spec [of demo_hvs3 0 demo_block] by simp
qed

end
