(* ===== verification/Block.thy ===== *)
theory Block
  imports Merkle Vote Part_Set
begin

text \<open>
  Blocks and headers of \<open>types/block.go\<close>, transactions of \<open>types/tx.go\<close> and the encoding helper
  \<open>types/encoding_helper.go\<close>, with the parts of the generated marshallers that hashing needs. Hash
  fields that cache a result are left out: a block is not changed after it was hashed. The
  type of evidence is a type variable, with its methods in \<open>evidence_ops\<close>. The hash function is the
  argument \<open>H\<close>, as in the theory of Merkle trees.
\<close>

section \<open>Encodings\<close>

record Version =
  ver_Block :: nat
  ver_App :: nat

definition Version_Marshal :: "Version \<Rightarrow> bytes" where
  "Version_Marshal m = pb_varint 0x08 (ver_Block m) @ pb_varint 0x10 (ver_App m)"

definition BlockID_Marshal :: "BlockID \<Rightarrow> bytes" where
  "BlockID_Marshal m = pb_bytes 0x0a (bid_Hash m) @ pb_msg 0x12 (PartSetHeader_Marshal (bid_PartSetHeader m))"

text \<open>\<open>None\<close> is the error of a timestamp that has no encoding.\<close>

definition CommitSig_Marshal :: "ext_env \<Rightarrow> CommitSig \<Rightarrow> bytes option" where
  "CommitSig_Marshal ce m =
     do {
       t \<leftarrow> stdTimeMarshal ce (cs_Timestamp m);
       Some (pb_varint 0x08 (u64 (cs_BlockIDFlag m)) @ pb_bytes 0x12 (cs_ValidatorAddress m) @
         pb_msg 0x1a t @ pb_bytes 0x22 (cs_Signature m))
     }"

definition Commit_Marshal :: "ext_env \<Rightarrow> Commit \<Rightarrow> bytes option" where
  "Commit_Marshal ce m =
     do {
       bs \<leftarrow> those (map (CommitSig_Marshal ce) (com_Signatures m));
       Some (pb_varint 0x08 (u64 (com_Height m)) @ pb_varint 0x10 (u64 (com_Round m)) @
         pb_msg 0x1a (BlockID_Marshal (com_BlockID m)) @ concat (map (pb_msg 0x22) bs))
     }"

text \<open>\<open>cdcEncode\<close> wraps a string or byte slice, and an \<open>int64\<close>, in a message of one field.\<close>

definition cdcEncode_bytes :: "bytes \<Rightarrow> bytes" where
  "cdcEncode_bytes item = pb_bytes 0x0a item"

definition cdcEncode_int64 :: "int \<Rightarrow> bytes" where
  "cdcEncode_int64 item = pb_varint 0x08 (u64 item)"

section \<open>Transactions\<close>

definition Tx_Hash :: "(bytes \<Rightarrow> bytes) \<Rightarrow> bytes \<Rightarrow> bytes" where
  "Tx_Hash H tx = H tx"

definition Txs_Hash :: "(bytes \<Rightarrow> bytes) \<Rightarrow> bytes list \<Rightarrow> bytes" where
  "Txs_Hash H txs = HashFromByteSlices H (map (Tx_Hash H) txs)"

fun index_loop :: "(bytes \<Rightarrow> bool) \<Rightarrow> bytes list \<Rightarrow> int \<Rightarrow> int" where
  "index_loop f [] i = -1"
| "index_loop f (tx # txs) i = (if f tx then i else index_loop f txs (i + 1))"

definition Txs_Index :: "bytes list \<Rightarrow> bytes \<Rightarrow> int" where
  "Txs_Index txs tx = index_loop (\<lambda>x. x = tx) txs 0"

definition Txs_IndexByHash :: "(bytes \<Rightarrow> bytes) \<Rightarrow> bytes list \<Rightarrow> bytes \<Rightarrow> int" where
  "Txs_IndexByHash H txs h = index_loop (\<lambda>x. Tx_Hash H x = h) txs 0"

text \<open>The size of the encoding as a \<open>Data\<close> message; \<open>sovTypes\<close> is the length of a varint.\<close>

definition ComputeProtoSizeForTxs :: "bytes list \<Rightarrow> int" where
  "ComputeProtoSizeForTxs txs = (\<Sum>tx \<leftarrow> txs. 1 + int (length tx) + int (length (varint (length tx))))"

fun validate_loop :: "int \<Rightarrow> bytes list \<Rightarrow> int \<Rightarrow> bool" where
  "validate_loop maxSizeBytes [] sz = True"
| "validate_loop maxSizeBytes (tx # txs) sz =
     (let sz = wrap64 (sz + ComputeProtoSizeForTxs [tx])
      in if sz > maxSizeBytes then False else validate_loop maxSizeBytes txs sz)"

definition Txs_Validate :: "bytes list \<Rightarrow> int \<Rightarrow> bool" where
  "Txs_Validate txs maxSizeBytes = validate_loop maxSizeBytes txs 0"

record TxProof =
  txp_RootHash :: bytes
  txp_Data :: bytes
  txp_Proof :: Proof

definition Txs_Proof :: "(bytes \<Rightarrow> bytes) \<Rightarrow> bytes list \<Rightarrow> int \<Rightarrow> TxProof option" where
  "Txs_Proof H txs i =
     do {
       let (root, proofs) = ProofsFromByteSlices H (map (Tx_Hash H) txs);
       tx \<leftarrow> slice_get txs i;
       p \<leftarrow> slice_get proofs i;
       Some \<lparr>txp_RootHash = root, txp_Data = tx, txp_Proof = p\<rparr>
     }"

datatype tx_proof_error = DifferentDataHash | NegativeProofIndex | NonPositiveTotal | InconsistentProof

text \<open>The root is the argument \<open>Some r\<close> of \<open>Proof_Verify\<close>; an empty one is nil.\<close>

definition TxProof_Validate :: "(bytes \<Rightarrow> bytes) \<Rightarrow> TxProof \<Rightarrow> bytes \<Rightarrow> tx_proof_error option" where
  "TxProof_Validate H tp dataHash =
     (if dataHash \<noteq> txp_RootHash tp then Some DifferentDataHash
      else if prf_Index (txp_Proof tp) < 0 then Some NegativeProofIndex
      else if prf_Total (txp_Proof tp) \<le> 0 then Some NonPositiveTotal
      else if Proof_Verify H (txp_Proof tp) (if txp_RootHash tp = [] then None else Some (txp_RootHash tp))
                (Tx_Hash H (txp_Data tp)) \<noteq> None
      then Some InconsistentProof
      else None)"

section \<open>Headers\<close>

abbreviation BlockProtocol :: nat where "BlockProtocol \<equiv> 11"
abbreviation MaxChainIDLen :: nat where "MaxChainIDLen \<equiv> 50"

record Header =
  hdr_Version :: Version
  hdr_ChainID :: bytes
  hdr_Height :: int
  hdr_Time :: timestamp
  hdr_LastBlockID :: BlockID
  hdr_LastCommitHash :: bytes
  hdr_DataHash :: bytes
  hdr_ValidatorsHash :: bytes
  hdr_NextValidatorsHash :: bytes
  hdr_ConsensusHash :: bytes
  hdr_AppHash :: bytes
  hdr_LastResultsHash :: bytes
  hdr_EvidenceHash :: bytes
  hdr_ProposerAddress :: bytes

definition Header_Populate ::
  "Header \<Rightarrow> Version \<Rightarrow> bytes \<Rightarrow> timestamp \<Rightarrow> BlockID \<Rightarrow> bytes \<Rightarrow> bytes \<Rightarrow> bytes \<Rightarrow> bytes \<Rightarrow> bytes \<Rightarrow> bytes \<Rightarrow> Header" where
  "Header_Populate h version chain timestamp lastBlockID valHash nextValHash consensusHash appHash lastResultsHash proposerAddress =
     h\<lparr>hdr_Version := version, hdr_ChainID := chain, hdr_Time := timestamp, hdr_LastBlockID := lastBlockID,
       hdr_ValidatorsHash := valHash, hdr_NextValidatorsHash := nextValHash, hdr_ConsensusHash := consensusHash,
       hdr_AppHash := appHash, hdr_LastResultsHash := lastResultsHash, hdr_ProposerAddress := proposerAddress\<rparr>"

datatype header_error =
    WrongBlockProtocol | ChainIDTooLong | NegativeHeight | ZeroHeight | WrongLastBlockID | WrongLastCommitHash
  | WrongDataHash | WrongEvidenceHash | WrongProposerAddress | WrongValidatorsHash | WrongNextValidatorsHash
  | WrongConsensusHash | WrongLastResultsHash

definition Header_ValidateBasic :: "Header \<Rightarrow> header_error option" where
  "Header_ValidateBasic h =
     (if ver_Block (hdr_Version h) \<noteq> BlockProtocol then Some WrongBlockProtocol
      else if length (hdr_ChainID h) > MaxChainIDLen then Some ChainIDTooLong
      else if hdr_Height h < 0 then Some NegativeHeight
      else if hdr_Height h = 0 then Some ZeroHeight
      else if \<not> BlockID_ValidateBasic (hdr_LastBlockID h) then Some WrongLastBlockID
      else if \<not> ValidateHash (hdr_LastCommitHash h) then Some WrongLastCommitHash
      else if \<not> ValidateHash (hdr_DataHash h) then Some WrongDataHash
      else if \<not> ValidateHash (hdr_EvidenceHash h) then Some WrongEvidenceHash
      else if length (hdr_ProposerAddress h) \<noteq> AddressSize then Some WrongProposerAddress
      else if \<not> ValidateHash (hdr_ValidatorsHash h) then Some WrongValidatorsHash
      else if \<not> ValidateHash (hdr_NextValidatorsHash h) then Some WrongNextValidatorsHash
      else if \<not> ValidateHash (hdr_ConsensusHash h) then Some WrongConsensusHash
      else if \<not> ValidateHash (hdr_LastResultsHash h) then Some WrongLastResultsHash
      else None)"

definition header_fields :: "Header \<Rightarrow> bytes \<Rightarrow> bytes list" where
  "header_fields h pbt =
     [Version_Marshal (hdr_Version h), cdcEncode_bytes (hdr_ChainID h), cdcEncode_int64 (hdr_Height h), pbt,
      BlockID_Marshal (hdr_LastBlockID h), cdcEncode_bytes (hdr_LastCommitHash h), cdcEncode_bytes (hdr_DataHash h),
      cdcEncode_bytes (hdr_ValidatorsHash h), cdcEncode_bytes (hdr_NextValidatorsHash h),
      cdcEncode_bytes (hdr_ConsensusHash h), cdcEncode_bytes (hdr_AppHash h), cdcEncode_bytes (hdr_LastResultsHash h),
      cdcEncode_bytes (hdr_EvidenceHash h), cdcEncode_bytes (hdr_ProposerAddress h)]"

text \<open>The empty list is the nil hash of an incomplete header.\<close>

definition Header_Hash :: "ext_env \<Rightarrow> (bytes \<Rightarrow> bytes) \<Rightarrow> Header \<Rightarrow> bytes" where
  "Header_Hash ce H h =
     (if length (hdr_ValidatorsHash h) = 0 then []
      else case stdTimeMarshal ce (hdr_Time h) of
        None \<Rightarrow> []
      | Some pbt \<Rightarrow> HashFromByteSlices H (header_fields h pbt))"

section \<open>Blocks\<close>

record 'ev evidence_ops =
  evBytes :: "'ev \<Rightarrow> bytes"
  evValid :: "'ev \<Rightarrow> bool"

record 'ev Block =
  blk_Header :: Header
  blk_Txs :: "bytes list"
  blk_Evidence :: "'ev list"
  blk_LastCommit :: "Commit option"

definition EvidenceList_Hash :: "(bytes \<Rightarrow> bytes) \<Rightarrow> 'ev evidence_ops \<Rightarrow> 'ev list \<Rightarrow> bytes" where
  "EvidenceList_Hash H eo evl = HashFromByteSlices H (map (evBytes eo) evl)"

text \<open>\<open>None\<close> is the panic on a signature whose time has no encoding.\<close>

definition Commit_Hash :: "ext_env \<Rightarrow> (bytes \<Rightarrow> bytes) \<Rightarrow> Commit option \<Rightarrow> bytes option" where
  "Commit_Hash ce H commit =
     (case commit of
        None \<Rightarrow> Some []
      | Some c \<Rightarrow> do {
          bs \<leftarrow> those (map (CommitSig_Marshal ce) (com_Signatures c));
          Some (HashFromByteSlices H bs)
        })"

datatype block_error =
    InvalidHeader header_error | NilLastCommit | WrongLastCommit commit_error | LastCommitHashMismatch
  | DataHashMismatch | InvalidEvidence nat | EvidenceHashMismatch

fun first_invalid_evidence :: "('ev \<Rightarrow> bool) \<Rightarrow> 'ev list \<Rightarrow> nat \<Rightarrow> block_error option" where
  "first_invalid_evidence v [] i = None"
| "first_invalid_evidence v (e # es) i = (if v e then first_invalid_evidence v es (Suc i) else Some (InvalidEvidence i))"

definition Block_ValidateBasic ::
  "ext_env \<Rightarrow> (bytes \<Rightarrow> bytes) \<Rightarrow> 'ev evidence_ops \<Rightarrow> 'ev Block \<Rightarrow> block_error option option" where
  "Block_ValidateBasic ce H eo b =
     (case Header_ValidateBasic (blk_Header b) of
        Some e \<Rightarrow> Some (Some (InvalidHeader e))
      | None \<Rightarrow>
          (case blk_LastCommit b of
             None \<Rightarrow> Some (Some NilLastCommit)
           | Some lc \<Rightarrow>
               (case Commit_ValidateBasic lc of
                  Some e \<Rightarrow> Some (Some (WrongLastCommit e))
                | None \<Rightarrow> do {
                    lch \<leftarrow> Commit_Hash ce H (Some lc);
                    if hdr_LastCommitHash (blk_Header b) \<noteq> lch then Some (Some LastCommitHashMismatch)
                    else if hdr_DataHash (blk_Header b) \<noteq> Txs_Hash H (blk_Txs b) then Some (Some DataHashMismatch)
                    else case first_invalid_evidence (evValid eo) (blk_Evidence b) 0 of
                        Some e \<Rightarrow> Some (Some e)
                      | None \<Rightarrow>
                          if hdr_EvidenceHash (blk_Header b) \<noteq> EvidenceList_Hash H eo (blk_Evidence b)
                          then Some (Some EvidenceHashMismatch)
                          else Some None
                  })))"

text \<open>A nil hash field is an empty one here.\<close>

definition fillHeader :: "ext_env \<Rightarrow> (bytes \<Rightarrow> bytes) \<Rightarrow> 'ev evidence_ops \<Rightarrow> 'ev Block \<Rightarrow> 'ev Block option" where
  "fillHeader ce H eo b =
     do {
       let h = blk_Header b;
       lch \<leftarrow> (if hdr_LastCommitHash h = [] then Commit_Hash ce H (blk_LastCommit b) else Some (hdr_LastCommitHash h));
       let dh = (if hdr_DataHash h = [] then Txs_Hash H (blk_Txs b) else hdr_DataHash h);
       let eh = (if hdr_EvidenceHash h = [] then EvidenceList_Hash H eo (blk_Evidence b) else hdr_EvidenceHash h);
       Some (b\<lparr>blk_Header := h\<lparr>hdr_LastCommitHash := lch, hdr_DataHash := dh, hdr_EvidenceHash := eh\<rparr>\<rparr>)
     }"

definition Block_Hash :: "ext_env \<Rightarrow> (bytes \<Rightarrow> bytes) \<Rightarrow> 'ev evidence_ops \<Rightarrow> 'ev Block option \<Rightarrow> bytes option" where
  "Block_Hash ce H eo p =
     (case p of
        None \<Rightarrow> Some []
      | Some b \<Rightarrow>
          if blk_LastCommit b = None then Some []
          else do { b' \<leftarrow> fillHeader ce H eo b; Some (Header_Hash ce H (blk_Header b')) })"

definition HashesTo :: "ext_env \<Rightarrow> (bytes \<Rightarrow> bytes) \<Rightarrow> 'ev evidence_ops \<Rightarrow> 'ev Block option \<Rightarrow> bytes \<Rightarrow> bool option" where
  "HashesTo ce H eo p h =
     (if length h = 0 then Some False
      else case p of
        None \<Rightarrow> Some False
      | Some b \<Rightarrow> do { bh \<leftarrow> Block_Hash ce H eo (Some b); Some (bh = h) })"

text \<open>The protobuf encoding of a block is the argument \<open>marshal\<close>, \<open>None\<close> its error.\<close>

definition MakePartSet :: "(bytes \<Rightarrow> bytes) \<Rightarrow> ('ev Block \<Rightarrow> bytes option) \<Rightarrow> 'ev Block \<Rightarrow> nat \<Rightarrow> PartSet option option" where
  "MakePartSet H marshal b partSize =
     (case marshal b of
        None \<Rightarrow> Some None
      | Some bz \<Rightarrow> do { ps \<leftarrow> NewPartSetFromData H bz partSize; Some (Some ps) })"

subsection \<open>Size limits\<close>

abbreviation MaxOverheadForBlock :: int where "MaxOverheadForBlock \<equiv> 11"
abbreviation MaxHeaderBytes :: int where "MaxHeaderBytes \<equiv> 626"
abbreviation MaxCommitOverheadBytes :: int where "MaxCommitOverheadBytes \<equiv> 94"
abbreviation MaxCommitSigBytes :: int where "MaxCommitSigBytes \<equiv> 109"

definition MaxCommitBytes :: "int \<Rightarrow> int" where
  "MaxCommitBytes valCount =
     wrap64 (MaxCommitOverheadBytes + wrap64 ((MaxCommitSigBytes + 2) * valCount))"

definition MaxDataBytes :: "int \<Rightarrow> int \<Rightarrow> int \<Rightarrow> int option" where
  "MaxDataBytes maxBytes evidenceBytes valsCount =
     (let m = wrap64 (wrap64 (wrap64 (wrap64 (maxBytes - MaxOverheadForBlock) - MaxHeaderBytes)
                - MaxCommitBytes valsCount) - evidenceBytes)
      in if m < 0 then None else Some m)"

definition MaxDataBytesNoEvidence :: "int \<Rightarrow> int \<Rightarrow> int option" where
  "MaxDataBytesNoEvidence maxBytes valsCount =
     (let m = wrap64 (wrap64 (wrap64 (maxBytes - MaxOverheadForBlock) - MaxHeaderBytes) - MaxCommitBytes valsCount)
      in if m < 0 then None else Some m)"

section \<open>Encodings are injective\<close>

lemma Version_Marshal_inj: "Version_Marshal m = Version_Marshal m' \<Longrightarrow> m = m'"
proof -
  assume "Version_Marshal m = Version_Marshal m'"
  then have *: "ver_Block m = ver_Block m' \<and> pb_varint 0x10 (ver_App m) = pb_varint 0x10 (ver_App m')"
    unfolding Version_Marshal_def by (rule pb_varint_inj) (auto simp: above_def pb_varint_def)
  then have "ver_App m = ver_App m'" using pb_varint_inj [of "0x10" "ver_App m" "[]" "ver_App m'" "[]"] by simp
  with * show ?thesis by simp
qed

lemma BlockID_Marshal_inj: "BlockID_Marshal m = BlockID_Marshal m' \<Longrightarrow> m = m'"
proof -
  let ?p = "\<lambda>m. pb_msg 0x12 (PartSetHeader_Marshal (bid_PartSetHeader m))"
  assume "BlockID_Marshal m = BlockID_Marshal m'"
  then have *: "bid_Hash m = bid_Hash m' \<and> ?p m = ?p m'"
    unfolding BlockID_Marshal_def by (rule pb_bytes_inj) (simp_all add: above_def pb_msg_def)
  then have "PartSetHeader_Marshal (bid_PartSetHeader m) = PartSetHeader_Marshal (bid_PartSetHeader m')"
    using pb_msg_inj [of "0x12" _ "[]" _ "[]"] by auto
  with * show ?thesis by (auto dest: PartSetHeader_Marshal_inj)
qed

lemma CommitSig_Marshal_inj:
  assumes "time_injective ce" and "CommitSig_Marshal ce m = Some b" and "CommitSig_Marshal ce m' = Some b"
    and "in64 (cs_BlockIDFlag m)" and "in64 (cs_BlockIDFlag m')"
  shows "m = m'"
proof -
  from assms(2) obtain t where t: "stdTimeMarshal ce (cs_Timestamp m) = Some t"
    and b: "b = pb_varint 0x08 (u64 (cs_BlockIDFlag m)) @ pb_bytes 0x12 (cs_ValidatorAddress m) @
              pb_msg 0x1a t @ pb_bytes 0x22 (cs_Signature m)"
    by (auto simp: CommitSig_Marshal_def split: Option.bind_splits)
  from assms(3) obtain t' where t': "stdTimeMarshal ce (cs_Timestamp m') = Some t'"
    and b': "b = pb_varint 0x08 (u64 (cs_BlockIDFlag m')) @ pb_bytes 0x12 (cs_ValidatorAddress m') @
              pb_msg 0x1a t' @ pb_bytes 0x22 (cs_Signature m')"
    by (auto simp: CommitSig_Marshal_def split: Option.bind_splits)
  have "u64 (cs_BlockIDFlag m) = u64 (cs_BlockIDFlag m')"
    and *: "pb_bytes 0x12 (cs_ValidatorAddress m) @ pb_msg 0x1a t @ pb_bytes 0x22 (cs_Signature m) =
      pb_bytes 0x12 (cs_ValidatorAddress m') @ pb_msg 0x1a t' @ pb_bytes 0x22 (cs_Signature m')"
    using pb_varint_inj [OF b [unfolded b', symmetric]] by auto
  moreover have "cs_ValidatorAddress m = cs_ValidatorAddress m'"
    and **: "pb_msg 0x1a t @ pb_bytes 0x22 (cs_Signature m) = pb_msg 0x1a t' @ pb_bytes 0x22 (cs_Signature m')"
    using pb_bytes_inj [OF *] by auto
  moreover have "t = t'" and ***: "pb_bytes 0x22 (cs_Signature m) = pb_bytes 0x22 (cs_Signature m')"
    using pb_msg_inj [OF **] by auto
  moreover have "cs_Signature m = cs_Signature m'"
    using pb_bytes_inj [of "0x22" _ "[]" _ "[]"] *** by simp
  ultimately show ?thesis using assms t t' u64_inj by (auto simp: time_injective_def intro: CommitSig.equality)
qed

lemma cdcEncode_inj:
  "cdcEncode_bytes a = cdcEncode_bytes b \<Longrightarrow> a = b"
  "cdcEncode_int64 x = cdcEncode_int64 y \<Longrightarrow> in64 x \<Longrightarrow> in64 y \<Longrightarrow> x = y"
  using pb_bytes_inj [of "0x0a" a "[]" b "[]"] pb_varint_inj [of "0x08" "u64 x" "[]" "u64 y" "[]"] u64_inj
  by (auto simp: cdcEncode_bytes_def cdcEncode_int64_def)

lemma header_fields_inj:
  assumes "header_fields h t = header_fields h' t'" and "in64 (hdr_Height h)" and "in64 (hdr_Height h')"
    and "time_injective ce" and "stdTimeMarshal ce (hdr_Time h) = Some t" and "stdTimeMarshal ce (hdr_Time h') = Some t'"
  shows "h = h'"
  using assms by (auto simp: header_fields_def time_injective_def intro!: Header.equality
    dest!: Version_Marshal_inj BlockID_Marshal_inj cdcEncode_inj)

section \<open>Hashes bind their inputs\<close>

text \<open>Without collisions a Merkle root determines the list, its length included: leaves, inner nodes
  and the empty tree are hashed with different prefixes.\<close>

lemma tree_inputs_small: "tree_inputs H [] = {[]}" "tree_inputs H [x] = {0 # x}"
  by (simp_all add: tree_inputs.simps)

lemma hash_small: "hashFromByteSlices H [] = H []" "hashFromByteSlices H [x] = H (0 # x)"
  by (simp_all add: hashFromByteSlices.simps emptyHash_def leafHash_def)

lemma hash_root_input:
  obtains r where "r \<in> tree_inputs H items" and "hashFromByteSlices H items = H r"
    and "(if length items = 0 then r = [] else if length items = 1 then r = 0 # hd items else hd r = 1 \<and> r \<noteq> [])"
proof (cases "length items \<le> 1")
  case True
  then consider "items = []" | x where "items = [x]" by (cases items) auto
  then show ?thesis using that [of "[]"] that [of "0 # hd items"] by cases (auto simp: tree_inputs_small hash_small)
next
  case False
  let ?k = "split_nat (length items)"
  let ?r = "1 # hashFromByteSlices H (take ?k items) @ hashFromByteSlices H (drop ?k items)"
  have "2 \<le> length items" using False by simp
  note h = hash_split [OF this refl, of H]
  have "?r \<in> tree_inputs H items" unfolding h(2) by simp
  moreover have "hashFromByteSlices H items = H ?r" unfolding h(1) innerHash_def ..
  moreover have "items \<noteq> []" "length items \<noteq> 1" using False by auto
  ultimately show ?thesis using that [of ?r] by simp
qed

lemma merkle_root_inj:
  assumes "\<And>x. length (H x) = 32"
  shows "hashFromByteSlices H xs = hashFromByteSlices H ys \<Longrightarrow> inj_on H (tree_inputs H xs \<union> tree_inputs H ys) \<Longrightarrow> xs = ys"
proof (induction xs arbitrary: ys rule: length_induct)
  case (1 xs)
  obtain r where r: "r \<in> tree_inputs H xs" "hashFromByteSlices H xs = H r"
    "if length xs = 0 then r = [] else if length xs = 1 then r = 0 # hd xs else hd r = 1 \<and> r \<noteq> []"
    by (rule hash_root_input)
  obtain s where s: "s \<in> tree_inputs H ys" "hashFromByteSlices H ys = H s"
    "if length ys = 0 then s = [] else if length ys = 1 then s = 0 # hd ys else hd s = 1 \<and> s \<noteq> []"
    by (rule hash_root_input)
  have "r = s" using 1(2,3) r(1,2) s(1,2) by (auto dest: inj_onD)
  show ?case
  proof (cases "length xs \<le> 1")
    case True
    then have "length xs = length ys"
      using r(3) s(3) \<open>r = s\<close> by (cases "length xs = 0"; cases "length xs = 1"; cases "length ys = 0"; cases "length ys = 1")
        (auto simp: le_Suc_eq)
    with True r(3) s(3) \<open>r = s\<close> show ?thesis
      by (cases xs; cases ys) auto
  next
    case False
    then have "xs \<noteq> []" "length xs \<noteq> 1" by auto
    with r(3) have "hd r = 1 \<and> r \<noteq> []" by simp
    then have "ys \<noteq> [] \<and> length ys \<noteq> 1" using s(3) \<open>r = s\<close> by (auto split: if_splits)
    then have ys: "\<not> length ys \<le> 1" by (auto simp: le_Suc_eq)
    let ?k = "split_nat (length xs)" and ?l = "split_nat (length ys)"
    have 2: "2 \<le> length xs" "2 \<le> length ys" using False ys by simp_all
    note x = hash_split [OF 2(1) refl, of H] and y = hash_split [OF 2(2) refl, of H]
    have sub: "hashFromByteSlices H (take ?k xs) = hashFromByteSlices H (take ?l ys) \<and>
        hashFromByteSlices H (drop ?k xs) = hashFromByteSlices H (drop ?l ys)"
      using 1(2) unfolding x(1) y(1)
      by (rule innerHash_inj [OF _ 1(3)]) (simp_all add: x(2) y(2) length_hashFromByteSlices [OF assms])
    have inj: "inj_on H (tree_inputs H (take ?k xs) \<union> tree_inputs H (take ?l ys))"
      "inj_on H (tree_inputs H (drop ?k xs) \<union> tree_inputs H (drop ?l ys))"
      using 1(3) unfolding x(2) y(2) by (auto intro: inj_on_subset)
    have "take ?k xs = take ?l ys"
      using 1(1) [rule_format, OF _ conjunct1 [OF sub] inj(1)] split_nat_bounds [OF 2(1)] by simp
    moreover have "drop ?k xs = drop ?l ys"
      by (rule 1(1) [rule_format, OF _ conjunct2 [OF sub] inj(2)]) (use split_nat_bounds [OF 2(1)] 2 in auto)
    ultimately show ?thesis by (metis append_take_drop_id)
  qed
qed

definition header_inputs :: "ext_env \<Rightarrow> (bytes \<Rightarrow> bytes) \<Rightarrow> Header \<Rightarrow> bytes set" where
  "header_inputs ce H h =
     (case stdTimeMarshal ce (hdr_Time h) of None \<Rightarrow> {} | Some pbt \<Rightarrow> tree_inputs H (header_fields h pbt))"

definition commit_inputs :: "ext_env \<Rightarrow> (bytes \<Rightarrow> bytes) \<Rightarrow> Commit option \<Rightarrow> bytes set" where
  "commit_inputs ce H commit =
     (case commit of None \<Rightarrow> {} | Some c \<Rightarrow> tree_inputs H (map (\<lambda>s. the (CommitSig_Marshal ce s)) (com_Signatures c)))"

definition block_inputs :: "ext_env \<Rightarrow> (bytes \<Rightarrow> bytes) \<Rightarrow> 'ev evidence_ops \<Rightarrow> 'ev Block \<Rightarrow> bytes set" where
  "block_inputs ce H eo b =
     header_inputs ce H (blk_Header b) \<union> set (blk_Txs b) \<union> tree_inputs H (map H (blk_Txs b)) \<union>
     tree_inputs H (map (evBytes eo) (blk_Evidence b)) \<union> commit_inputs ce H (blk_LastCommit b)"

lemma Header_Hash_inj:
  assumes "\<And>x. length (H x) = 32" and "time_injective ce" and "Header_Hash ce H h = Header_Hash ce H h'"
    and "Header_Hash ce H h \<noteq> []" and "inj_on H (header_inputs ce H h \<union> header_inputs ce H h')"
    and "in64 (hdr_Height h)" and "in64 (hdr_Height h')"
  shows "h = h'"
proof -
  from assms(3,4) have "Header_Hash ce H h' \<noteq> []" by simp
  then obtain t' where t': "stdTimeMarshal ce (hdr_Time h') = Some t'"
    and r': "Header_Hash ce H h' = hashFromByteSlices H (header_fields h' t')"
    by (auto simp: Header_Hash_def HashFromByteSlices_def split: if_splits option.splits)
  from assms(4) obtain t where t: "stdTimeMarshal ce (hdr_Time h) = Some t"
    and r: "Header_Hash ce H h = hashFromByteSlices H (header_fields h t)"
    by (auto simp: Header_Hash_def HashFromByteSlices_def split: if_splits option.splits)
  have "inj_on H (tree_inputs H (header_fields h t) \<union> tree_inputs H (header_fields h' t'))"
    using assms(5) by (simp add: header_inputs_def t t')
  from merkle_root_inj [OF assms(1) _ this] have "header_fields h t = header_fields h' t'"
    using assms(3) r r' by simp
  then show ?thesis by (rule header_fields_inj [OF _ assms(6,7,2) t t'])
qed

lemma Txs_Hash_inj:
  assumes "\<And>x. length (H x) = 32" and "Txs_Hash H a = Txs_Hash H b"
    and "inj_on H (set a \<union> tree_inputs H (map H a) \<union> (set b \<union> tree_inputs H (map H b)))"
  shows "a = b"
proof -
  have "inj_on H (tree_inputs H (map H a) \<union> tree_inputs H (map H b))" using assms(3) by (rule inj_on_subset) auto
  from merkle_root_inj [OF assms(1) _ this] have "map H a = map H b"
    using assms(2) by (simp add: Txs_Hash_def HashFromByteSlices_def Tx_Hash_def [abs_def])
  moreover have "inj_on H (set a \<union> set b)" using assms(3) by (rule inj_on_subset) auto
  ultimately show ?thesis by (rule map_inj_on)
qed

lemma those_map: "those (map f xs) = Some ys \<Longrightarrow> ys = map (\<lambda>x. the (f x)) xs \<and> (\<forall>x \<in> set xs. f x \<noteq> None)"
  by (induction xs arbitrary: ys) (auto split: option.splits)

lemma Commit_Hash_inj:
  assumes "\<And>x. length (H x) = 32" and "time_injective ce"
    and "Commit_Hash ce H (Some a) = Some r" and "Commit_Hash ce H (Some b) = Some r"
    and "inj_on H (commit_inputs ce H (Some a) \<union> commit_inputs ce H (Some b))"
    and flags: "\<And>s. s \<in> set (com_Signatures a) \<union> set (com_Signatures b) \<Longrightarrow> in64 (cs_BlockIDFlag s)"
  shows "com_Signatures a = com_Signatures b"
proof -
  let ?f = "\<lambda>s. the (CommitSig_Marshal ce s)"
  have a: "hashFromByteSlices H (map ?f (com_Signatures a)) = r \<and> (\<forall>s \<in> set (com_Signatures a). CommitSig_Marshal ce s \<noteq> None)"
    using assms(3) by (auto simp: Commit_Hash_def HashFromByteSlices_def split: Option.bind_splits dest!: those_map)
  have b: "hashFromByteSlices H (map ?f (com_Signatures b)) = r \<and> (\<forall>s \<in> set (com_Signatures b). CommitSig_Marshal ce s \<noteq> None)"
    using assms(4) by (auto simp: Commit_Hash_def HashFromByteSlices_def split: Option.bind_splits dest!: those_map)
  have "map ?f (com_Signatures a) = map ?f (com_Signatures b)"
    by (rule merkle_root_inj [of H, OF assms(1)]) (use a b assms(5) in \<open>simp_all add: commit_inputs_def\<close>)
  moreover have "inj_on ?f (set (com_Signatures a) \<union> set (com_Signatures b))"
  proof (rule inj_onI)
    fix s t
    assume st: "s \<in> set (com_Signatures a) \<union> set (com_Signatures b)" "t \<in> set (com_Signatures a) \<union> set (com_Signatures b)"
      and eq: "?f s = ?f t"
    from st a b have "CommitSig_Marshal ce s = Some (?f s)" "CommitSig_Marshal ce t = Some (?f s)"
      using eq by auto
    then show "s = t" by (rule CommitSig_Marshal_inj [OF assms(2)]) (use flags st in auto)
  qed
  ultimately show ?thesis by (rule map_inj_on)
qed

lemma Block_ValidateBasic_OK:
  "Block_ValidateBasic ce H eo b = Some None \<longleftrightarrow>
     Header_ValidateBasic (blk_Header b) = None \<and>
     (\<exists>lc. blk_LastCommit b = Some lc \<and> Commit_ValidateBasic lc = None \<and>
        Commit_Hash ce H (Some lc) = Some (hdr_LastCommitHash (blk_Header b))) \<and>
     Txs_Hash H (blk_Txs b) = hdr_DataHash (blk_Header b) \<and>
     first_invalid_evidence (evValid eo) (blk_Evidence b) 0 = None \<and>
     EvidenceList_Hash H eo (blk_Evidence b) = hdr_EvidenceHash (blk_Header b)"
  by (auto simp: Block_ValidateBasic_def split: option.splits Option.bind_splits)

lemma root_not_empty: "(\<And>x. length (H x) = 32) \<Longrightarrow> HashFromByteSlices H items \<noteq> []"
  using length_hashFromByteSlices [of H items] by (auto simp: HashFromByteSlices_def)

lemma fillHeader_valid:
  assumes "\<And>x. length (H x) = 32" and "Block_ValidateBasic ce H eo b = Some None"
  shows "fillHeader ce H eo b = Some b" and "Block_Hash ce H eo (Some b) = Some (Header_Hash ce H (blk_Header b))"
proof -
  from assms(2) obtain lc where lc: "blk_LastCommit b = Some lc"
    and ch: "Commit_Hash ce H (Some lc) = Some (hdr_LastCommitHash (blk_Header b))"
    and dh: "Txs_Hash H (blk_Txs b) = hdr_DataHash (blk_Header b)"
    and eh: "EvidenceList_Hash H eo (blk_Evidence b) = hdr_EvidenceHash (blk_Header b)"
    by (auto simp: Block_ValidateBasic_OK)
  have "hdr_LastCommitHash (blk_Header b) \<noteq> []"
    using ch root_not_empty [of H, OF assms(1)] by (auto simp: Commit_Hash_def split: Option.bind_splits)
  moreover have "hdr_DataHash (blk_Header b) \<noteq> []" "hdr_EvidenceHash (blk_Header b) \<noteq> []"
    using dh eh root_not_empty [of H, OF assms(1)] by (auto simp: Txs_Hash_def EvidenceList_Hash_def)
  ultimately show "fillHeader ce H eo b = Some b" by (simp add: fillHeader_def)
  then show "Block_Hash ce H eo (Some b) = Some (Header_Hash ce H (blk_Header b))"
    by (simp add: Block_Hash_def lc)
qed

text \<open>C8. The hash of a block binds its contents: two blocks that pass \<open>ValidateBasic\<close> and have the same
  non-nil hash have the same header, transactions, encoded evidence and signatures of the last commit,
  unless two different ones of the strings hashed for them collide.\<close>

theorem Block_Hash_binding:
  assumes "\<And>x. length (H x) = 32" and "time_injective ce"
    and "Block_ValidateBasic ce H eo b = Some None" and "Block_ValidateBasic ce H eo b' = Some None"
    and "Block_Hash ce H eo (Some b) = Block_Hash ce H eo (Some b')" and "Block_Hash ce H eo (Some b) \<noteq> Some []"
    and "inj_on H (block_inputs ce H eo b \<union> block_inputs ce H eo b')"
    and "in64 (hdr_Height (blk_Header b))" and "in64 (hdr_Height (blk_Header b'))"
    and "\<And>c s. blk_LastCommit b = Some c \<or> blk_LastCommit b' = Some c \<Longrightarrow> s \<in> set (com_Signatures c) \<Longrightarrow> in64 (cs_BlockIDFlag s)"
  shows "blk_Header b = blk_Header b' \<and> blk_Txs b = blk_Txs b' \<and>
    map (evBytes eo) (blk_Evidence b) = map (evBytes eo) (blk_Evidence b') \<and>
    map_option com_Signatures (blk_LastCommit b) = map_option com_Signatures (blk_LastCommit b')"
proof -
  note v = fillHeader_valid(2) [OF assms(1,3)] fillHeader_valid(2) [OF assms(1,4)]
  have sub: "\<And>S. S \<subseteq> block_inputs ce H eo b \<union> block_inputs ce H eo b' \<Longrightarrow> inj_on H S"
    using assms(7) by (rule inj_on_subset)
  have h: "blk_Header b = blk_Header b'"
    by (rule Header_Hash_inj [OF assms(1,2) _ _ sub assms(8,9)])
       (use assms(5,6) v in \<open>auto simp: block_inputs_def\<close>)
  from assms(3,4) obtain c c' where c: "blk_LastCommit b = Some c" "blk_LastCommit b' = Some c'"
    and ch: "Commit_Hash ce H (Some c) = Some (hdr_LastCommitHash (blk_Header b))"
      "Commit_Hash ce H (Some c') = Some (hdr_LastCommitHash (blk_Header b))"
    and dh: "Txs_Hash H (blk_Txs b) = Txs_Hash H (blk_Txs b')"
    and eh: "EvidenceList_Hash H eo (blk_Evidence b) = EvidenceList_Hash H eo (blk_Evidence b')"
    using h by (auto simp: Block_ValidateBasic_OK)
  have "blk_Txs b = blk_Txs b'"
    by (rule Txs_Hash_inj [OF assms(1) dh sub]) (auto simp: block_inputs_def)
  moreover have "map (evBytes eo) (blk_Evidence b) = map (evBytes eo) (blk_Evidence b')"
    by (rule merkle_root_inj [OF assms(1) _ sub])
       (use eh in \<open>auto simp: EvidenceList_Hash_def HashFromByteSlices_def block_inputs_def\<close>)
  moreover have "com_Signatures c = com_Signatures c'"
    by (rule Commit_Hash_inj [OF assms(1,2) ch sub]) (use assms(10) c in \<open>auto simp: block_inputs_def\<close>)
  ultimately show ?thesis using h c by simp
qed

text \<open>The strings of a tree as a list with the root first, to be evaluated.\<close>

fun tree_list :: "nat \<Rightarrow> (bytes \<Rightarrow> bytes) \<Rightarrow> bytes list \<Rightarrow> bytes list" where
  "tree_list 0 H items = []"
| "tree_list (Suc n) H items =
     (case items of
        [] \<Rightarrow> [[]]
      | [x] \<Rightarrow> [0 # x]
      | _ \<Rightarrow> let k = split_nat (length items); l = tree_list n H (take k items); r = tree_list n H (drop k items)
             in (1 # H (hd l) @ H (hd r)) # l @ r)"

lemma tree_list_inputs:
  "length items \<le> n \<Longrightarrow>
     tree_inputs H items = set (tree_list (Suc n) H items) \<and> hashFromByteSlices H items = H (hd (tree_list (Suc n) H items))"
proof (induction n arbitrary: items)
  case 0
  then show ?case by (simp add: tree_inputs_small hash_small)
next
  case (Suc n)
  show ?case
  proof (cases "length items \<le> 1")
    case True
    then consider "items = []" | x where "items = [x]" by (cases items) auto
    then show ?thesis by cases (simp_all add: tree_inputs_small hash_small)
  next
    case False
    then have 2: "2 \<le> length items" by simp
    then obtain x y zs where items: "items = x # y # zs" by (cases items; cases "tl items") auto
    let ?k = "split_nat (length items)"
    let ?l = "tree_list (Suc n) H (take ?k items)" and ?r = "tree_list (Suc n) H (drop ?k items)"
    have k: "length (take ?k items) \<le> n" "length (drop ?k items) \<le> n"
      using split_nat_bounds [OF 2] Suc.prems by auto
    have "tree_list (Suc (Suc n)) H items = (1 # H (hd ?l) @ H (hd ?r)) # ?l @ ?r"
      unfolding tree_list.simps(2) [of "Suc n"] items list.case Let_def ..
    then show ?thesis
      using hash_split [OF 2 refl, of H] Suc.IH [OF k(1)] Suc.IH [OF k(2)] by (simp add: innerHash_def)
  qed
qed

definition poly_byte :: "8 word \<Rightarrow> bytes \<Rightarrow> 8 word" where
  "poly_byte m x = foldl (\<lambda>a b. a * m + b + 1) 0 x"

definition poly_hash :: "bytes \<Rightarrow> bytes" where
  "poly_hash x = poly_byte 3 x # poly_byte 5 x # poly_byte 7 x # replicate 29 0"

lemma length_poly_hash: "length (poly_hash x) = 32"
  by (simp add: poly_hash_def)

definition demo_ops :: "bytes evidence_ops" where
  "demo_ops = \<lparr>evBytes = (\<lambda>x. x), evValid = (\<lambda>x. x \<noteq> [])\<rparr>"

definition demo_commit :: "int \<Rightarrow> Commit" where
  "demo_commit round = \<lparr>com_Height = 1, com_Round = round, com_BlockID = demo_block,
     com_Signatures = [\<lparr>cs_BlockIDFlag = 2, cs_ValidatorAddress = replicate 20 1, cs_Timestamp = 1, cs_Signature = [7]\<rparr>]\<rparr>"

definition demo_txs_list :: "bytes list" where
  "demo_txs_list = tree_list (Suc 2) poly_hash (map poly_hash [[1], [2, 3]])"

definition demo_evidence_list :: "bytes list" where
  "demo_evidence_list = tree_list (Suc 1) poly_hash [[9]]"

definition demo_commit_list :: "bytes list" where
  "demo_commit_list = tree_list (Suc 1) poly_hash (map (\<lambda>s. the (CommitSig_Marshal demo_env s)) (com_Signatures (demo_commit 0)))"

definition demo_header :: Header where
  "demo_header = \<lparr>hdr_Version = \<lparr>ver_Block = 11, ver_App = 1\<rparr>, hdr_ChainID = [7], hdr_Height = 2, hdr_Time = 2,
     hdr_LastBlockID = demo_block, hdr_LastCommitHash = poly_hash (hd demo_commit_list),
     hdr_DataHash = poly_hash (hd demo_txs_list), hdr_ValidatorsHash = replicate 32 4,
     hdr_NextValidatorsHash = replicate 32 4, hdr_ConsensusHash = replicate 32 5, hdr_AppHash = [6],
     hdr_LastResultsHash = replicate 32 8, hdr_EvidenceHash = poly_hash (hd demo_evidence_list),
     hdr_ProposerAddress = replicate 20 1\<rparr>"

definition demo_blk :: "int \<Rightarrow> bytes Block" where
  "demo_blk round = \<lparr>blk_Header = demo_header, blk_Txs = [[1], [2, 3]], blk_Evidence = [[9]],
     blk_LastCommit = Some (demo_commit round)\<rparr>"

lemma demo_sig: "those (map (CommitSig_Marshal demo_env) (com_Signatures (demo_commit r))) =
    Some (map (\<lambda>s. the (CommitSig_Marshal demo_env s)) (com_Signatures (demo_commit 0)))"
  by (simp add: demo_commit_def CommitSig_Marshal_def demo_env_def)

lemmas demo_lists = demo_txs_list_def demo_evidence_list_def demo_commit_list_def

lemma demo_trees:
  "hashFromByteSlices poly_hash (map poly_hash [[1], [2, 3]]) = poly_hash (hd demo_txs_list)"
  "hashFromByteSlices poly_hash [[9]] = poly_hash (hd demo_evidence_list)"
  "hashFromByteSlices poly_hash (map (\<lambda>s. the (CommitSig_Marshal demo_env s)) (com_Signatures (demo_commit 0))) =
     poly_hash (hd demo_commit_list)"
  unfolding demo_lists by (rule conjunct2 [OF tree_list_inputs], simp add: demo_commit_def)+

lemma demo_roots:
  "Txs_Hash poly_hash [[1], [2, 3]] = poly_hash (hd demo_txs_list)"
  "EvidenceList_Hash poly_hash demo_ops [[9]] = poly_hash (hd demo_evidence_list)"
  "Commit_Hash demo_env poly_hash (Some (demo_commit r)) = Some (poly_hash (hd demo_commit_list))"
  using demo_trees
  by (simp_all add: Txs_Hash_def EvidenceList_Hash_def Commit_Hash_def Tx_Hash_def [abs_def] demo_ops_def demo_sig
      HashFromByteSlices_def)

lemma demo_header_valid: "Header_ValidateBasic demo_header = None"
  by code_simp

lemma demo_blk_valid:
  assumes "0 \<le> r"
  shows "Block_ValidateBasic demo_env poly_hash demo_ops (demo_blk r) = Some None"
proof -
  have "Commit_ValidateBasic (demo_commit r) = None"
    using assms by (simp add: demo_commit_def Commit_ValidateBasic_def CommitSig_ValidateBasic_def demo_block_def
        BlockID_IsZero_def PartSetHeader_IsZero_def)
  then show ?thesis
    by (simp add: Block_ValidateBasic_OK demo_blk_def demo_header_valid demo_roots) (simp add: demo_header_def demo_ops_def)
qed

lemma inj_on_list: "distinct (map H (remdups xs)) \<Longrightarrow> inj_on H (set xs)"
  by (simp add: distinct_map)

definition demo_inputs :: "bytes list" where
  "demo_inputs = tree_list (Suc 14) poly_hash (header_fields demo_header (the (stdTimeMarshal demo_env 2))) @
     [[1], [2, 3]] @ demo_txs_list @ demo_evidence_list @ demo_commit_list"

lemma demo_blk_inputs: "block_inputs demo_env poly_hash demo_ops (demo_blk r) = set demo_inputs"
proof -
  have t: "stdTimeMarshal demo_env (hdr_Time demo_header) = Some (the (stdTimeMarshal demo_env 2))"
    by (simp add: demo_header_def demo_env_def)
  have "tree_inputs poly_hash (header_fields demo_header (the (stdTimeMarshal demo_env 2))) =
      set (tree_list (Suc 14) poly_hash (header_fields demo_header (the (stdTimeMarshal demo_env 2))))"
    by (rule conjunct1 [OF tree_list_inputs]) (simp add: header_fields_def)
  moreover have "tree_inputs poly_hash (map poly_hash [[1], [2, 3]]) = set demo_txs_list"
    unfolding demo_lists by (rule conjunct1 [OF tree_list_inputs]) simp
  moreover have "tree_inputs poly_hash [[9]] = set demo_evidence_list"
    unfolding demo_lists by (rule conjunct1 [OF tree_list_inputs]) simp
  moreover have "tree_inputs poly_hash (map (\<lambda>s. the (CommitSig_Marshal demo_env s)) (com_Signatures (demo_commit r))) =
      set demo_commit_list"
    unfolding demo_lists by (subst conjunct1 [OF tree_list_inputs [where n = 1]]) (simp_all add: demo_commit_def)
  ultimately show ?thesis
    unfolding block_inputs_def header_inputs_def commit_inputs_def demo_blk_def demo_inputs_def
    by (simp add: t demo_ops_def Un_ac insert_commute del: tree_list.simps)
qed

lemma demo_inputs_inj: "inj_on poly_hash (set demo_inputs)"
  by (rule inj_on_list) code_simp

lemma demo_blk_hash:
  "0 \<le> r \<Longrightarrow> Block_Hash demo_env poly_hash demo_ops (Some (demo_blk r)) = Some (Header_Hash demo_env poly_hash demo_header)"
  using fillHeader_valid(2) [OF length_poly_hash demo_blk_valid] by (simp add: demo_blk_def)

theorem Block_Hash_binding_witness:
  "blk_Header (demo_blk 0) = blk_Header (demo_blk 1) \<and> blk_Txs (demo_blk 0) = blk_Txs (demo_blk 1) \<and>
    map (evBytes demo_ops) (blk_Evidence (demo_blk 0)) = map (evBytes demo_ops) (blk_Evidence (demo_blk 1)) \<and>
    map_option com_Signatures (blk_LastCommit (demo_blk 0)) = map_option com_Signatures (blk_LastCommit (demo_blk 1))"
proof (rule Block_Hash_binding [where H = poly_hash and ce = demo_env])
  have "Header_Hash demo_env poly_hash demo_header \<noteq> []"
    using root_not_empty [of poly_hash, OF length_poly_hash]
    by (simp add: Header_Hash_def) (simp add: demo_header_def demo_env_def)
  then show "Block_Hash demo_env poly_hash demo_ops (Some (demo_blk 0)) \<noteq> Some []" by (simp add: demo_blk_hash)
  show "inj_on poly_hash (block_inputs demo_env poly_hash demo_ops (demo_blk 0) \<union> block_inputs demo_env poly_hash demo_ops (demo_blk 1))"
    using demo_inputs_inj by (simp add: demo_blk_inputs)
  show "in64 (hdr_Height (blk_Header (demo_blk 0)))" "in64 (hdr_Height (blk_Header (demo_blk 1)))"
    by (simp_all add: demo_blk_def demo_header_def in64_def)
  show "in64 (cs_BlockIDFlag s)"
    if "blk_LastCommit (demo_blk 0) = Some c \<or> blk_LastCommit (demo_blk 1) = Some c" "s \<in> set (com_Signatures c)" for c s
    using that by (auto simp: demo_blk_def demo_commit_def in64_def)
qed (simp_all add: length_poly_hash demo_env_time demo_blk_valid demo_blk_hash)

section \<open>Sizes\<close>

lemma length_varint: "v < 128 ^ k \<Longrightarrow> 0 < k \<Longrightarrow> length (varint v) \<le> k"
proof (induction k arbitrary: v)
  case (Suc k)
  show ?case
  proof (cases "v < 128")
    case True
    then show ?thesis by (simp add: varint.simps)
  next
    case False
    then have "k \<noteq> 0" using Suc.prems by (cases k) auto
    moreover have "v div 128 < 128 ^ k" using Suc.prems by (simp add: less_mult_imp_div_less mult.commute)
    ultimately have "length (varint (v div 128)) \<le> k" using Suc.IH by simp
    then show ?thesis using False by (simp add: varint.simps [of v])
  qed
qed simp

lemma length_pb_varint: "v < 128 ^ k \<Longrightarrow> 0 < k \<Longrightarrow> length (pb_varint t v) \<le> Suc k"
  using length_varint by (simp add: pb_varint_def)

lemma length_pb_msg: "length bz < 128 \<Longrightarrow> length (pb_msg t bz) = length bz + 2"
  by (simp add: pb_msg_def varint.simps)

lemma length_pb_bytes: "length bz \<le> n \<Longrightarrow> n < 128 \<Longrightarrow> length (pb_bytes t bz) \<le> n + 2"
  by (simp add: pb_bytes_def length_pb_msg)

lemma length_BlockID_Marshal:
  assumes "BlockID_ValidateBasic b" and "psh_Total (bid_PartSetHeader b) < 2 ^ 32"
  shows "length (BlockID_Marshal b) \<le> 76"
proof -
  have h: "length (bid_Hash b) \<le> 32" "length (psh_Hash (bid_PartSetHeader b)) \<le> 32"
    using assms(1) by (auto simp: BlockID_ValidateBasic_def PartSetHeader_ValidateBasic_def ValidateHash_def)
  have "length (pb_varint 0x08 (psh_Total (bid_PartSetHeader b))) \<le> Suc 5"
    using assms(2) by (intro length_pb_varint) simp_all
  with h(2) have "length (PartSetHeader_Marshal (bid_PartSetHeader b)) \<le> 40"
    using length_pb_bytes [of "psh_Hash (bid_PartSetHeader b)" 32 "0x12"] by (simp add: PartSetHeader_Marshal_def)
  then show ?thesis using length_pb_bytes [OF h(1), of "0x0a"] by (simp add: BlockID_Marshal_def length_pb_msg)
qed

lemma length_CommitSig_Marshal:
  assumes "CommitSig_ValidateBasic s = None" and "CommitSig_Marshal ce s = Some bz"
    and time: "\<And>t b. stdTimeMarshal ce t = Some b \<Longrightarrow> length b \<le> 17"
  shows "length bz \<le> 109"
proof -
  obtain t where t: "stdTimeMarshal ce (cs_Timestamp s) = Some t"
    and bz: "bz = pb_varint 0x08 (u64 (cs_BlockIDFlag s)) @ pb_bytes 0x12 (cs_ValidatorAddress s) @
      pb_msg 0x1a t @ pb_bytes 0x22 (cs_Signature s)"
    using assms(2) by (auto simp: CommitSig_Marshal_def split: Option.bind_splits)
  have flag: "cs_BlockIDFlag s \<in> {1, 2, 3}"
    and l: "length (cs_ValidatorAddress s) \<le> 20" "length (cs_Signature s) \<le> 64"
    using assms(1) by (auto simp: CommitSig_ValidateBasic_def split: if_splits)
  have "length (pb_varint 0x08 (u64 (cs_BlockIDFlag s))) \<le> Suc 1"
    using flag by (intro length_pb_varint) (auto simp: u64_def)
  moreover have "length t \<le> 17" using time t by simp
  ultimately show ?thesis
    using length_pb_bytes [OF l(1), of "0x12"] length_pb_bytes [OF l(2), of "0x22"] length_pb_msg [of t "0x1a"] bz by simp
qed

lemma length_concat_msgs: "(\<And>x. x \<in> set bs \<Longrightarrow> length x \<le> 109) \<Longrightarrow> length (concat (map (pb_msg t) bs)) \<le> 111 * length bs"
  by (induction bs) (fastforce simp: length_pb_msg intro: add_mono)+

lemma MaxCommitBytes_exact: "n < 2 ^ 40 \<Longrightarrow> MaxCommitBytes (int n) = 94 + 111 * int n"
  by (simp add: MaxCommitBytes_def wrap64_id in64_def)

text \<open>C12. \<open>MaxCommitBytes\<close> is a bound on the encoding of every valid commit with as many signatures,
  provided that an encoded timestamp has at most 17 bytes.\<close>

theorem MaxCommitBytes_bound:
  assumes "Commit_ValidateBasic c = None" and "0 < com_Height c" and "in64 (com_Height c)" and "in32 (com_Round c)"
    and "BlockID_ValidateBasic (com_BlockID c)" and "psh_Total (bid_PartSetHeader (com_BlockID c)) < 2 ^ 32"
    and time: "\<And>t b. stdTimeMarshal ce t = Some b \<Longrightarrow> length b \<le> 17"
    and "length (com_Signatures c) < 2 ^ 40" and "Commit_Marshal ce c = Some bz"
  shows "int (length bz) \<le> MaxCommitBytes (int (length (com_Signatures c)))"
proof -
  obtain bs where bs: "those (map (CommitSig_Marshal ce) (com_Signatures c)) = Some bs"
    and bz: "bz = pb_varint 0x08 (u64 (com_Height c)) @ pb_varint 0x10 (u64 (com_Round c)) @
         pb_msg 0x1a (BlockID_Marshal (com_BlockID c)) @ concat (map (pb_msg 0x22) bs)"
    using assms(9) by (auto simp: Commit_Marshal_def split: Option.bind_splits)
  have valid: "\<forall>s \<in> set (com_Signatures c). CommitSig_ValidateBasic s = None" and r: "0 \<le> com_Round c"
    using assms(1,2) by (auto simp: Commit_ValidateBasic_def first_bad_sig_None split: if_splits)
  have "length x \<le> 109" if x: "x \<in> set bs" for x
  proof -
    from those_map [OF bs] x obtain s where s: "s \<in> set (com_Signatures c)" "CommitSig_Marshal ce s = Some x" by auto
    show ?thesis by (rule length_CommitSig_Marshal [OF _ s(2) time]) (use valid s(1) in auto)
  qed
  moreover have "length bs = length (com_Signatures c)" using those_map [OF bs] by simp
  ultimately have "length (concat (map (pb_msg 0x22) bs)) \<le> 111 * length (com_Signatures c)"
    using length_concat_msgs [of bs] by simp
  moreover have "length (pb_varint 0x08 (u64 (com_Height c))) \<le> Suc 9"
    using assms(2,3) by (intro length_pb_varint) (auto simp: u64_def in64_def)
  moreover have "length (pb_varint 0x10 (u64 (com_Round c))) \<le> Suc 5"
    using assms(4) r by (intro length_pb_varint) (auto simp: u64_def in32_def)
  moreover have "length (pb_msg 0x1a (BlockID_Marshal (com_BlockID c))) \<le> 78"
    using length_BlockID_Marshal [OF assms(5,6)] by (simp add: length_pb_msg)
  ultimately show ?thesis using bz MaxCommitBytes_exact [OF assms(8)] by simp
qed

definition short_env :: ext_env where
  "short_env = demo_env\<lparr>stdTimeMarshal := (\<lambda>t. if t < 0 \<or> 17 < t then None else Some (replicate (nat t) 1))\<rparr>"

theorem MaxCommitBytes_bound_witness:
  "int (length (the (Commit_Marshal short_env (demo_commit 3)))) \<le> MaxCommitBytes 1"
proof -
  obtain bz where bz: "Commit_Marshal short_env (demo_commit 3) = Some bz"
    by (simp add: Commit_Marshal_def demo_commit_def CommitSig_Marshal_def short_env_def)
  have "int (length bz) \<le> MaxCommitBytes (int (length (com_Signatures (demo_commit 3))))"
  proof (rule MaxCommitBytes_bound [OF _ _ _ _ _ _ _ _ bz])
    show "Commit_ValidateBasic (demo_commit 3) = None"
      by (simp add: demo_commit_def Commit_ValidateBasic_def CommitSig_ValidateBasic_def demo_block_def
        BlockID_IsZero_def PartSetHeader_IsZero_def)
    show "length b \<le> 17" if "stdTimeMarshal short_env t = Some b" for t b
      using that by (auto simp: short_env_def split: if_splits)
  qed (simp_all add: demo_commit_def in64_def in32_def demo_block_def BlockID_ValidateBasic_def
      PartSetHeader_ValidateBasic_def ValidateHash_def)
  then show ?thesis using bz by (simp add: demo_commit_def)
qed

end
