(* ===== verification/Chain_State.thy ===== *)
theory Chain_State
  imports Block Commit_Verify Validator_Update
begin

text \<open>
  The state of the chain after a block, and what it says about the next one: consensus parameters
  (\<open>types/params.go\<close>), the state with its genesis, block making and median time (\<open>state/state.go\<close>,
  \<open>types/time/time.go\<close>, \<open>types/genesis.go\<close>), block validation (\<open>state/validation.go\<close>) and the update of the
  state by the response of the application (\<open>state/execution.go\<close>, \<open>types/results.go\<close>).

  The application, the stores and the mempool are arguments: what the application answers, and
  whether each of the other calls fails. A field that is a nil validator set in the source is the
  empty set, which is what \<open>NewValidatorSet(nil)\<close> builds.
\<close>

section \<open>Consensus parameters\<close>

abbreviation MaxBlockSizeBytes :: int where "MaxBlockSizeBytes \<equiv> 104857600"
abbreviation BlockPartSizeBytes :: int where "BlockPartSizeBytes \<equiv> 65536"

record ConsensusParams =
  cp_MaxBytes :: int
  cp_MaxGas :: int
  cp_MaxAgeNumBlocks :: int
  cp_MaxAgeDuration :: int
  cp_EvidenceMaxBytes :: int
  cp_PubKeyTypes :: "string list"
  cp_App :: nat
  cp_VoteExtensionsEnableHeight :: int

definition DefaultConsensusParams :: ConsensusParams where
  "DefaultConsensusParams =
     \<lparr>cp_MaxBytes = 22020096, cp_MaxGas = -1, cp_MaxAgeNumBlocks = 100000,
      cp_MaxAgeDuration = 48 * 3600000000000, cp_EvidenceMaxBytes = 1048576,
      cp_PubKeyTypes = [''ed25519''], cp_App = 0, cp_VoteExtensionsEnableHeight = 0\<rparr>"

definition IsValidPubkeyType :: "ConsensusParams \<Rightarrow> string \<Rightarrow> bool" where
  "IsValidPubkeyType params pubkeyType = list_ex (\<lambda>k. k = pubkeyType) (cp_PubKeyTypes params)"

datatype params_error =
    MaxBytesZero | MaxBytesNegative | MaxBytesTooBig | MaxGasNegative | MaxAgeNumBlocksNotPositive
  | MaxAgeDurationNotPositive | EvidenceMaxBytesTooBig | EvidenceMaxBytesNegative
  | EnableHeightNegative | NoPubKeyTypes | UnknownPubKeyType
  | ExtensionsDisabledAgain | EnableHeightInThePast | ExtensionsModified

definition params_ValidateBasic :: "ConsensusParams \<Rightarrow> params_error option" where
  "params_ValidateBasic params =
     (let maxBytes = (if cp_MaxBytes params = -1 then MaxBlockSizeBytes else cp_MaxBytes params)
      in if cp_MaxBytes params = 0 then Some MaxBytesZero
         else if cp_MaxBytes params < -1 then Some MaxBytesNegative
         else if cp_MaxBytes params > MaxBlockSizeBytes then Some MaxBytesTooBig
         else if cp_MaxGas params < -1 then Some MaxGasNegative
         else if cp_MaxAgeNumBlocks params \<le> 0 then Some MaxAgeNumBlocksNotPositive
         else if cp_MaxAgeDuration params \<le> 0 then Some MaxAgeDurationNotPositive
         else if cp_EvidenceMaxBytes params > maxBytes then Some EvidenceMaxBytesTooBig
         else if cp_EvidenceMaxBytes params < 0 then Some EvidenceMaxBytesNegative
         else if cp_VoteExtensionsEnableHeight params < 0 then Some EnableHeightNegative
         else if length (cp_PubKeyTypes params) = 0 then Some NoPubKeyTypes
         else if \<not> list_all (\<lambda>k. k = ''ed25519'' \<or> k = ''secp256k1'') (cp_PubKeyTypes params) then Some UnknownPubKeyType
         else None)"

text \<open>The update the application may send; a nil part is \<open>None\<close>.\<close>

record params_update =
  up_Block :: "(int \<times> int) option"
  up_Evidence :: "(int \<times> int \<times> int) option"
  up_Validator :: "string list option"
  up_Version :: "nat option"
  up_Abci :: "int option"

definition ValidateUpdate :: "ConsensusParams \<Rightarrow> params_update option \<Rightarrow> int \<Rightarrow> params_error option" where
  "ValidateUpdate params updated h =
     (case Option.bind updated up_Abci of
        None \<Rightarrow> None
      | Some upd \<Rightarrow>
          let cur = cp_VoteExtensionsEnableHeight params
          in if upd < 0 then Some EnableHeightNegative
             else if cur \<le> 0 \<and> upd = 0 then None
             else if cur = upd then None
             else if cur > 0 \<and> upd = 0
             then (if cur \<le> h then Some ExtensionsDisabledAgain else None)
             else if upd \<le> h then Some EnableHeightInThePast
             else if cur \<le> 0 then None
             else if cur \<le> h then Some ExtensionsModified
             else None)"

definition HashedParams_Marshal :: "ConsensusParams \<Rightarrow> bytes" where
  "HashedParams_Marshal params = pb_varint 0x08 (u64 (cp_MaxBytes params)) @ pb_varint 0x10 (u64 (cp_MaxGas params))"

definition params_Hash :: "(bytes \<Rightarrow> bytes) \<Rightarrow> ConsensusParams \<Rightarrow> bytes" where
  "params_Hash H params = H (HashedParams_Marshal params)"

definition params_Update :: "ConsensusParams \<Rightarrow> params_update option \<Rightarrow> ConsensusParams" where
  "params_Update params p2 =
     (case p2 of
        None \<Rightarrow> params
      | Some u \<Rightarrow>
          let res = (case up_Block u of None \<Rightarrow> params
                     | Some (b, g) \<Rightarrow> params\<lparr>cp_MaxBytes := b, cp_MaxGas := g\<rparr>);
              res = (case up_Evidence u of None \<Rightarrow> res
                     | Some (n, d, b) \<Rightarrow> res\<lparr>cp_MaxAgeNumBlocks := n, cp_MaxAgeDuration := d, cp_EvidenceMaxBytes := b\<rparr>);
              res = (case up_Validator u of None \<Rightarrow> res | Some ks \<Rightarrow> res\<lparr>cp_PubKeyTypes := ks\<rparr>);
              res = (case up_Version u of None \<Rightarrow> res | Some a \<Rightarrow> res\<lparr>cp_App := a\<rparr>)
          in case up_Abci u of None \<Rightarrow> res | Some x \<Rightarrow> res\<lparr>cp_VoteExtensionsEnableHeight := x\<rparr>)"

section \<open>Hash of a validator set\<close>

text \<open>\<open>PubKeyToProto\<close> and the marshallers of the key and of \<open>SimpleValidator\<close>; \<open>None\<close> is the panic on
  a key of another type.\<close>

definition PubKey_Marshal :: "PubKey \<Rightarrow> bytes option" where
  "PubKey_Marshal k =
     (if pk_type k = ''ed25519'' then Some (pb_msg 0x0a (pk_bytes k))
      else if pk_type k = ''secp256k1'' then Some (pb_msg 0x12 (pk_bytes k))
      else None)"

definition Validator_Bytes :: "Validator \<Rightarrow> bytes option" where
  "Validator_Bytes v =
     do {
       k \<leftarrow> val_PubKey v;
       pk \<leftarrow> PubKey_Marshal k;
       Some (pb_msg 0x0a pk @ pb_varint 0x10 (u64 (VotingPower v)))
     }"

definition ValidatorSet_Hash :: "(bytes \<Rightarrow> bytes) \<Rightarrow> ValidatorSet \<Rightarrow> bytes option" where
  "ValidatorSet_Hash H vals =
     do {
       bzs \<leftarrow> those (map Validator_Bytes (Validators vals));
       Some (HashFromByteSlices H bzs)
     }"

text \<open>\<open>binary.PutVarint\<close>: the zigzag encoding. Every priority is written at the start of the buffer.\<close>

definition zigzag :: "int \<Rightarrow> nat" where
  "zigzag x = (if x < 0 then nat (- 2 * x - 1) else nat (2 * x))"

definition put_at_start :: "bytes \<Rightarrow> bytes \<Rightarrow> bytes" where
  "put_at_start bz buf = bz @ drop (length bz) buf"

fun priority_loop :: "Validator list \<Rightarrow> bytes \<Rightarrow> nat \<Rightarrow> bytes \<times> nat" where
  "priority_loop [] buf tot = (buf, tot)"
| "priority_loop (v # vs) buf tot =
     (let bz = varint (zigzag (ProposerPriority v))
      in priority_loop vs (put_at_start bz buf) (tot + length bz))"

definition ProposerPriorityHash :: "(bytes \<Rightarrow> bytes) \<Rightarrow> ValidatorSet \<Rightarrow> bytes" where
  "ProposerPriorityHash H vals =
     (if length (Validators vals) = 0 then []
      else let (buf, tot) = priority_loop (Validators vals) (replicate (10 * length (Validators vals)) 0) 0
           in H (take tot buf))"

section \<open>Median time\<close>

text \<open>\<open>UnixNano\<close> of an instant, which wraps around outside the years 1678 to 2262.\<close>

definition UnixNano :: "timestamp \<Rightarrow> int" where
  "UnixNano t = wrap64 (t - 62135596800000000000)"

fun median_loop :: "(timestamp \<times> int) list \<Rightarrow> int \<Rightarrow> timestamp" where
  "median_loop [] median = 0"
| "median_loop ((t, w) # ws) median = (if median \<le> w then t else median_loop ws (wrap64 (median - w)))"

text \<open>Sorting puts the nil entries last, where the loop skips them. The order of entries with equal
  times does not matter.\<close>

definition WeightedMedian :: "(timestamp \<times> int) option list \<Rightarrow> int \<Rightarrow> timestamp" where
  "WeightedMedian weightedTimes totalPower =
     median_loop (sort_key (\<lambda>(t, w). UnixNano t) (map the (filter (\<lambda>x. x \<noteq> None) weightedTimes))) (totalPower sdiv 2)"

definition weighted_time :: "ValidatorSet \<Rightarrow> CommitSig \<Rightarrow> (timestamp \<times> int) option" where
  "weighted_time vals s =
     (if cs_BlockIDFlag s = BlockIDFlagAbsent then None
      else case snd (GetByAddress vals (cs_ValidatorAddress s)) of
        None \<Rightarrow> None
      | Some v \<Rightarrow> Some (cs_Timestamp s, VotingPower v))"

fun voted_power :: "(timestamp \<times> int) option list \<Rightarrow> int \<Rightarrow> int" where
  "voted_power [] tot = tot"
| "voted_power (None # ws) tot = voted_power ws tot"
| "voted_power (Some (t, w) # ws) tot = voted_power ws (wrap64 (tot + w))"

definition MedianTime :: "Commit \<Rightarrow> ValidatorSet \<Rightarrow> timestamp" where
  "MedianTime commit vals =
     (let weightedTimes = map (weighted_time vals) (com_Signatures commit)
      in WeightedMedian weightedTimes (voted_power weightedTimes 0))"

section \<open>The state and its blocks\<close>

record ChainState =
  st_Version :: Version
  st_ChainID :: bytes
  st_InitialHeight :: int
  st_LastBlockHeight :: int
  st_LastBlockID :: BlockID
  st_LastBlockTime :: timestamp
  st_NextValidators :: ValidatorSet
  st_Validators :: ValidatorSet
  st_LastValidators :: ValidatorSet
  st_LastHeightValidatorsChanged :: int
  st_ConsensusParams :: ConsensusParams
  st_LastHeightConsensusParamsChanged :: int
  st_LastResultsHash :: bytes
  st_AppHash :: bytes

definition empty_header :: Header where
  "empty_header =
     \<lparr>hdr_Version = \<lparr>ver_Block = 0, ver_App = 0\<rparr>, hdr_ChainID = [], hdr_Height = 0, hdr_Time = 0,
      hdr_LastBlockID = zeroBlockID, hdr_LastCommitHash = [], hdr_DataHash = [], hdr_ValidatorsHash = [],
      hdr_NextValidatorsHash = [], hdr_ConsensusHash = [], hdr_AppHash = [], hdr_LastResultsHash = [],
      hdr_EvidenceHash = [], hdr_ProposerAddress = []\<rparr>"

definition types_MakeBlock ::
  "ext_env \<Rightarrow> (bytes \<Rightarrow> bytes) \<Rightarrow> 'ev evidence_ops \<Rightarrow> int \<Rightarrow> bytes list \<Rightarrow> Commit \<Rightarrow> 'ev list \<Rightarrow> 'ev Block option" where
  "types_MakeBlock ce H eo ht txs lastCommit evidence =
     fillHeader ce H eo
       \<lparr>blk_Header = empty_header\<lparr>hdr_Version := \<lparr>ver_Block = BlockProtocol, ver_App = 0\<rparr>, hdr_Height := ht\<rparr>,
        blk_Txs = txs, blk_Evidence = evidence, blk_LastCommit = Some lastCommit\<rparr>"

definition MakeBlock ::
  "ext_env \<Rightarrow> (bytes \<Rightarrow> bytes) \<Rightarrow> 'ev evidence_ops \<Rightarrow> ChainState \<Rightarrow> int \<Rightarrow> bytes list \<Rightarrow> Commit \<Rightarrow> 'ev list \<Rightarrow> bytes \<Rightarrow> 'ev Block option" where
  "MakeBlock ce H eo state ht txs lastCommit evidence proposerAddress =
     do {
       block \<leftarrow> types_MakeBlock ce H eo ht txs lastCommit evidence;
       let timestamp = (if ht = st_InitialHeight state then st_LastBlockTime state
                        else MedianTime lastCommit (st_LastValidators state));
       vh \<leftarrow> ValidatorSet_Hash H (st_Validators state);
       nvh \<leftarrow> ValidatorSet_Hash H (st_NextValidators state);
       Some (block\<lparr>blk_Header := Header_Populate (blk_Header block) (st_Version state) (st_ChainID state) timestamp
         (st_LastBlockID state) vh nvh (params_Hash H (st_ConsensusParams state)) (st_AppHash state)
         (st_LastResultsHash state) proposerAddress\<rparr>)
     }"

text \<open>The size of the evidence as an \<open>EvidenceList\<close> message, each item inside its \<open>oneof\<close> wrapper.\<close>

definition msg_size :: "nat \<Rightarrow> nat" where
  "msg_size n = 1 + length (varint n) + n"

definition Evidence_ByteSize :: "'ev evidence_ops \<Rightarrow> 'ev list \<Rightarrow> int" where
  "Evidence_ByteSize eo evl = (\<Sum>e \<leftarrow> evl. int (msg_size (msg_size (length (evBytes eo e)))))"

datatype state_error =
    BasicError block_error | WrongVersion | WrongChainID | WrongInitialHeight | WrongBlockHeight
  | WrongPrevBlockID | WrongAppHash | WrongParamsHash | WrongResultsHash | WrongValidators
  | WrongNextValidators | InitialBlockHasCommit | CommitError verify_error | WrongProposerSize
  | UnknownProposer | TimeNotMonotonic | WrongMedianTime | WrongGenesisTime | HeightBelowInitial
  | ErrEvidenceOverflow

definition check_header :: "(bytes \<Rightarrow> bytes) \<Rightarrow> ChainState \<Rightarrow> Header \<Rightarrow> state_error option option" where
  "check_header H state h =
     (if hdr_Version h \<noteq> st_Version state then Some (Some WrongVersion)
      else if hdr_ChainID h \<noteq> st_ChainID state then Some (Some WrongChainID)
      else if st_LastBlockHeight state = 0 \<and> hdr_Height h \<noteq> st_InitialHeight state then Some (Some WrongInitialHeight)
      else if st_LastBlockHeight state > 0 \<and> hdr_Height h \<noteq> wrap64 (st_LastBlockHeight state + 1)
      then Some (Some WrongBlockHeight)
      else if \<not> BlockID_Equals (hdr_LastBlockID h) (st_LastBlockID state) then Some (Some WrongPrevBlockID)
      else if hdr_AppHash h \<noteq> st_AppHash state then Some (Some WrongAppHash)
      else if hdr_ConsensusHash h \<noteq> params_Hash H (st_ConsensusParams state) then Some (Some WrongParamsHash)
      else if hdr_LastResultsHash h \<noteq> st_LastResultsHash state then Some (Some WrongResultsHash)
      else do {
        vh \<leftarrow> ValidatorSet_Hash H (st_Validators state);
        if hdr_ValidatorsHash h \<noteq> vh then Some (Some WrongValidators)
        else do {
          nvh \<leftarrow> ValidatorSet_Hash H (st_NextValidators state);
          Some (if hdr_NextValidatorsHash h \<noteq> nvh then Some WrongNextValidators else None)
        }
      })"

definition check_last_commit ::
  "ext_env \<Rightarrow> batch_lib \<Rightarrow> ChainState \<Rightarrow> int \<Rightarrow> Commit \<Rightarrow> state_error option option" where
  "check_last_commit ce bl state ht lc =
     (if ht = st_InitialHeight state
      then Some (if length (com_Signatures lc) \<noteq> 0 then Some InitialBlockHasCommit else None)
      else do {
        r \<leftarrow> VerifyCommit ce bl (st_ChainID state) (Some (st_LastValidators state)) (st_LastBlockID state)
               (wrap64 (ht - 1)) (Some lc);
        Some (map_option CommitError r)
      })"

definition check_time :: "ChainState \<Rightarrow> Header \<Rightarrow> Commit \<Rightarrow> state_error option" where
  "check_time state h lc =
     (if hdr_Height h > st_InitialHeight state
      then (if \<not> hdr_Time h > st_LastBlockTime state then Some TimeNotMonotonic
            else if hdr_Time h \<noteq> MedianTime lc (st_LastValidators state) then Some WrongMedianTime
            else None)
      else if hdr_Height h = st_InitialHeight state
      then (if hdr_Time h \<noteq> st_LastBlockTime state then Some WrongGenesisTime else None)
      else Some HeightBelowInitial)"

definition validateBlock ::
  "ext_env \<Rightarrow> batch_lib \<Rightarrow> (bytes \<Rightarrow> bytes) \<Rightarrow> 'ev evidence_ops \<Rightarrow> ChainState \<Rightarrow> 'ev Block \<Rightarrow> state_error option option" where
  "validateBlock ce bl H eo state block =
     do {
       basic \<leftarrow> Block_ValidateBasic ce H eo block;
       (case basic of
          Some e \<Rightarrow> Some (Some (BasicError e))
        | None \<Rightarrow> do {
            lc \<leftarrow> blk_LastCommit block;
            let h = blk_Header block;
            hdr \<leftarrow> check_header H state h;
            (case hdr of
               Some e \<Rightarrow> Some (Some e)
             | None \<Rightarrow> do {
                 com \<leftarrow> check_last_commit ce bl state (hdr_Height h) lc;
                 Some (case com of
                    Some e \<Rightarrow> Some e
                  | None \<Rightarrow>
                      if length (hdr_ProposerAddress h) \<noteq> AddressSize then Some WrongProposerSize
                      else if \<not> HasAddress (st_Validators state) (hdr_ProposerAddress h) then Some UnknownProposer
                      else case check_time state h lc of
                          Some e \<Rightarrow> Some e
                        | None \<Rightarrow>
                            if Evidence_ByteSize eo (blk_Evidence block) > cp_EvidenceMaxBytes (st_ConsensusParams state)
                            then Some ErrEvidenceOverflow else None)
               })
          })
     }"

section \<open>Genesis\<close>

record GenesisValidator =
  gv_Address :: bytes
  gv_PubKey :: PubKey
  gv_Power :: int

record GenesisDoc =
  gd_GenesisTime :: timestamp
  gd_ChainID :: bytes
  gd_InitialHeight :: int
  gd_ConsensusParams :: "ConsensusParams option"
  gd_Validators :: "GenesisValidator list"
  gd_AppHash :: bytes

datatype genesis_error =
    NoChainID | GenesisChainIDTooLong | NegativeInitialHeight | InvalidParams params_error
  | NoVotingPower | IncorrectAddress

fun complete_validators :: "ext_env \<Rightarrow> GenesisValidator list \<Rightarrow> genesis_error + GenesisValidator list" where
  "complete_validators ce [] = Inr []"
| "complete_validators ce (v # vs) =
     (if gv_Power v = 0 then Inl NoVotingPower
      else if length (gv_Address v) > 0 \<and> pkAddress ce (gv_PubKey v) \<noteq> gv_Address v then Inl IncorrectAddress
      else case complete_validators ce vs of
          Inl e \<Rightarrow> Inl e
        | Inr ws \<Rightarrow> Inr ((if length (gv_Address v) = 0 then v\<lparr>gv_Address := pkAddress ce (gv_PubKey v)\<rparr> else v) # ws))"

definition ValidateAndComplete :: "ext_env \<Rightarrow> timestamp \<Rightarrow> GenesisDoc \<Rightarrow> genesis_error + GenesisDoc" where
  "ValidateAndComplete ce now g =
     (if gd_ChainID g = [] then Inl NoChainID
      else if length (gd_ChainID g) > MaxChainIDLen then Inl GenesisChainIDTooLong
      else if gd_InitialHeight g < 0 then Inl NegativeInitialHeight
      else let g = (if gd_InitialHeight g = 0 then g\<lparr>gd_InitialHeight := 1\<rparr> else g)
           in case Option.bind (gd_ConsensusParams g) params_ValidateBasic of
                Some e \<Rightarrow> Inl (InvalidParams e)
              | None \<Rightarrow>
                  let g = (if gd_ConsensusParams g = None then g\<lparr>gd_ConsensusParams := Some DefaultConsensusParams\<rparr> else g)
                  in case complete_validators ce (gd_Validators g) of
                       Inl e \<Rightarrow> Inl e
                     | Inr vs \<Rightarrow>
                         Inr ((if gd_GenesisTime g = 0 then g\<lparr>gd_GenesisTime := now\<rparr> else g)\<lparr>gd_Validators := vs\<rparr>))"

definition MakeGenesisState :: "ext_env \<Rightarrow> timestamp \<Rightarrow> GenesisDoc \<Rightarrow> (genesis_error + ChainState) option" where
  "MakeGenesisState ce now genDoc =
     (case ValidateAndComplete ce now genDoc of
        Inl e \<Rightarrow> Some (Inl e)
      | Inr g \<Rightarrow> do {
          let vals = map (\<lambda>v. NewValidator ce (gv_PubKey v) (gv_Power v)) (gd_Validators g);
          validatorSet \<leftarrow> NewValidatorSet vals;
          nextValidatorSet \<leftarrow> (if gd_Validators g = [] then Some validatorSet else CopyIncrementProposerPriority validatorSet 1);
          noVals \<leftarrow> NewValidatorSet [];
          params \<leftarrow> gd_ConsensusParams g;
          Some (Inr
            \<lparr>st_Version = \<lparr>ver_Block = BlockProtocol, ver_App = 0\<rparr>, st_ChainID = gd_ChainID g,
             st_InitialHeight = gd_InitialHeight g, st_LastBlockHeight = 0, st_LastBlockID = zeroBlockID,
             st_LastBlockTime = gd_GenesisTime g, st_NextValidators = nextValidatorSet, st_Validators = validatorSet,
             st_LastValidators = noVals, st_LastHeightValidatorsChanged = gd_InitialHeight g,
             st_ConsensusParams = params, st_LastHeightConsensusParamsChanged = gd_InitialHeight g,
             st_LastResultsHash = [], st_AppHash = gd_AppHash g\<rparr>)
        })"

section \<open>Executing a block\<close>

record ExecTxResult =
  tr_Code :: nat
  tr_Data :: bytes
  tr_Log :: bytes
  tr_Info :: bytes
  tr_GasWanted :: int
  tr_GasUsed :: int
  tr_Codespace :: bytes

text \<open>\<open>deterministicExecTxResult\<close> and its marshaller: the stripped fields are not written.\<close>

definition result_bytes :: "ExecTxResult \<Rightarrow> bytes" where
  "result_bytes r =
     pb_varint 0x08 (tr_Code r) @ pb_bytes 0x12 (tr_Data r) @ pb_varint 0x28 (u64 (tr_GasWanted r)) @
     pb_varint 0x30 (u64 (tr_GasUsed r))"

definition TxResultsHash :: "(bytes \<Rightarrow> bytes) \<Rightarrow> ExecTxResult list \<Rightarrow> bytes" where
  "TxResultsHash H rs = HashFromByteSlices H (map result_bytes rs)"

record ValidatorUpdate =
  vu_PubKey :: PubKey
  vu_Power :: int

record abci_response =
  ar_TxResults :: "ExecTxResult list"
  ar_ValidatorUpdates :: "ValidatorUpdate list"
  ar_ParamUpdates :: "params_update option"
  ar_AppHash :: bytes

datatype exec_error =
    AppError | ResultCountMismatch | SaveResponseError | NegativeUpdatePower | BadKey | UnsupportedKeyType
  | ValidatorSetChange valset_error | ParamsChange params_error | CommitFailed | SaveStateError
  | InvalidBlock state_error

text \<open>\<open>PubKeyFromProto\<close>; a \<open>ValidatorUpdate\<close> here holds the key with the name of its protobuf case.\<close>

definition PubKeyFromProto :: "PubKey \<Rightarrow> PubKey option" where
  "PubKeyFromProto k =
     (if pk_type k = ''ed25519'' then (if length (pk_bytes k) = 32 then Some k else None)
      else if pk_type k = ''secp256k1'' then (if length (pk_bytes k) = 33 then Some k else None)
      else None)"

fun validateValidatorUpdates :: "ValidatorUpdate list \<Rightarrow> ConsensusParams \<Rightarrow> exec_error option" where
  "validateValidatorUpdates [] params = None"
| "validateValidatorUpdates (u # us) params =
     (if vu_Power u < 0 then Some NegativeUpdatePower
      else if vu_Power u = 0 then validateValidatorUpdates us params
      else case PubKeyFromProto (vu_PubKey u) of
          None \<Rightarrow> Some BadKey
        | Some pk \<Rightarrow>
            if \<not> IsValidPubkeyType params (pk_type pk) then Some UnsupportedKeyType
            else validateValidatorUpdates us params)"

fun PB2TM_ValidatorUpdates :: "ext_env \<Rightarrow> ValidatorUpdate list \<Rightarrow> Validator list option" where
  "PB2TM_ValidatorUpdates ce [] = Some []"
| "PB2TM_ValidatorUpdates ce (u # us) =
     do {
       pk \<leftarrow> PubKeyFromProto (vu_PubKey u);
       vs \<leftarrow> PB2TM_ValidatorUpdates ce us;
       Some (NewValidator ce pk (vu_Power u) # vs)
     }"

definition updateState ::
  "(bytes \<Rightarrow> bytes) \<Rightarrow> ChainState \<Rightarrow> BlockID \<Rightarrow> Header \<Rightarrow> abci_response \<Rightarrow> Validator list \<Rightarrow> (exec_error + ChainState) option" where
  "updateState H state blockID header resp validatorUpdates =
     do {
       (nValSet, err, changed) \<leftarrow>
         (if validatorUpdates \<noteq> []
          then do {
            (vs, e) \<leftarrow> UpdateWithChangeSet (st_NextValidators state) validatorUpdates;
            Some (vs, e, wrap64 (wrap64 (hdr_Height header + 1) + 1))
          }
          else Some (st_NextValidators state, None, st_LastHeightValidatorsChanged state));
       (case err of
          Some e \<Rightarrow> Some (Inl (ValidatorSetChange e))
        | None \<Rightarrow> do {
            nValSet \<leftarrow> IncrementProposerPriority nValSet 1;
            let nextParams = params_Update (st_ConsensusParams state) (ar_ParamUpdates resp);
            let nstate = (\<lambda>version paramsChanged.
              \<lparr>st_Version = version, st_ChainID = st_ChainID state, st_InitialHeight = st_InitialHeight state,
               st_LastBlockHeight = hdr_Height header, st_LastBlockID = blockID, st_LastBlockTime = hdr_Time header,
               st_NextValidators = nValSet, st_Validators = st_NextValidators state, st_LastValidators = st_Validators state,
               st_LastHeightValidatorsChanged = changed, st_ConsensusParams = nextParams,
               st_LastHeightConsensusParamsChanged = paramsChanged, st_LastResultsHash = TxResultsHash H (ar_TxResults resp),
               st_AppHash = []\<rparr>);
            Some (if ar_ParamUpdates resp = None then Inr (nstate (st_Version state) (st_LastHeightConsensusParamsChanged state))
                  else case params_ValidateBasic nextParams of
                      Some e \<Rightarrow> Inl (ParamsChange e)
                    | None \<Rightarrow>
                        (case ValidateUpdate (st_ConsensusParams state) (ar_ParamUpdates resp) (hdr_Height header) of
                           Some e \<Rightarrow> Inl (ParamsChange e)
                         | None \<Rightarrow> Inr (nstate ((st_Version state)\<lparr>ver_App := cp_App nextParams\<rparr>) (wrap64 (hdr_Height header + 1)))))
          })
     }"

text \<open>The calls of the executor: the application's answer (\<open>None\<close> its error) and whether saving the
  response, committing application and mempool, and saving the state succeed.\<close>

record 'ev exec_env =
  ex_FinalizeBlock :: "ChainState \<Rightarrow> 'ev Block \<Rightarrow> abci_response option"
  ex_SaveResponse :: bool
  ex_Commit :: bool
  ex_SaveState :: bool

definition applyBlock ::
  "ext_env \<Rightarrow> (bytes \<Rightarrow> bytes) \<Rightarrow> 'ev exec_env \<Rightarrow> ChainState \<Rightarrow> BlockID \<Rightarrow> 'ev Block \<Rightarrow> (exec_error + ChainState) option" where
  "applyBlock ce H ex state blockID block =
     (case ex_FinalizeBlock ex state block of
        None \<Rightarrow> Some (Inl AppError)
      | Some resp \<Rightarrow>
          if length (blk_Txs block) \<noteq> length (ar_TxResults resp) then Some (Inl ResultCountMismatch)
          else if \<not> ex_SaveResponse ex then Some (Inl SaveResponseError)
          else case validateValidatorUpdates (ar_ValidatorUpdates resp) (st_ConsensusParams state) of
              Some e \<Rightarrow> Some (Inl e)
            | None \<Rightarrow>
                (case PB2TM_ValidatorUpdates ce (ar_ValidatorUpdates resp) of
                   None \<Rightarrow> Some (Inl BadKey)
                 | Some updates \<Rightarrow> do {
                     r \<leftarrow> updateState H state blockID (blk_Header block) resp updates;
                     Some (case r of
                        Inl e \<Rightarrow> Inl e
                      | Inr nstate \<Rightarrow>
                          if \<not> ex_Commit ex then Inl CommitFailed
                          else if \<not> ex_SaveState ex then Inl SaveStateError
                          else Inr (nstate\<lparr>st_AppHash := ar_AppHash resp\<rparr>))
                   }))"

definition ApplyBlock ::
  "ext_env \<Rightarrow> batch_lib \<Rightarrow> (bytes \<Rightarrow> bytes) \<Rightarrow> 'ev evidence_ops \<Rightarrow> 'ev exec_env \<Rightarrow> ChainState \<Rightarrow> BlockID \<Rightarrow> 'ev Block \<Rightarrow> (exec_error + ChainState) option" where
  "ApplyBlock ce bl H eo ex state blockID block =
     do {
       v \<leftarrow> validateBlock ce bl H eo state block;
       (case v of
          Some e \<Rightarrow> Some (Inl (InvalidBlock e))
        | None \<Rightarrow> applyBlock ce H ex state blockID block)
     }"

section \<open>Parameters and validators over a block\<close>

lemma params_Update_enable:
  "cp_VoteExtensionsEnableHeight (params_Update params (Some u)) =
     (case up_Abci u of None \<Rightarrow> cp_VoteExtensionsEnableHeight params | Some x \<Rightarrow> x)"
  by (simp add: params_Update_def Let_def split: option.splits prod.splits)

lemma ValidateUpdate_past:
  assumes "ValidateUpdate params (Some u) h = None" and "0 \<le> cp_VoteExtensionsEnableHeight params" and "k \<le> h"
  shows "VoteExtensionsEnabled (cp_VoteExtensionsEnableHeight (params_Update params (Some u))) k =
    VoteExtensionsEnabled (cp_VoteExtensionsEnableHeight params) k"
  using assms
  by (auto simp: params_Update_enable ValidateUpdate_def VoteExtensionsEnabled_def Let_def split: option.splits if_splits)

definition state_inv :: "ChainState \<Rightarrow> bool" where
  "state_inv st \<longleftrightarrow>
     rot_inv (st_Validators st) \<and> keyed (Validators (st_Validators st)) \<and>
     rot_inv (st_NextValidators st) \<and> keyed (Validators (st_NextValidators st)) \<and>
     params_ValidateBasic (st_ConsensusParams st) = None"

lemma state_inv_AppHash [simp]: "state_inv (st\<lparr>st_AppHash := h\<rparr>) = state_inv st"
  by (simp add: state_inv_def)

lemma PB2TM_keyed: "PB2TM_ValidatorUpdates ce us = Some vs \<Longrightarrow> keyed vs"
  by (induction us arbitrary: vs) (auto simp: keyed_def NewValidator_def split: Option.bind_splits)

lemma apply_no_changes: "apply_changes m (\<lambda>x. None) = m"
  by (rule ext) (simp add: apply_changes_def)

lemma next_validators:
  assumes "rot_inv vals" and "keyed (Validators vals)" and "keyed ups"
    and "\<And>vals'. UpdateWithChangeSet vals ups = Some (vals', None) \<Longrightarrow> roomy vals'"
  shows "(\<exists>e. ups \<noteq> [] \<and> UpdateWithChangeSet vals ups = Some (vals, Some e)) \<or>
    (\<exists>mid vals'. (if ups = [] then mid = vals else UpdateWithChangeSet vals ups = Some (mid, None)) \<and>
       IncrementProposerPriority mid 1 = Some vals' \<and> rot_inv vals' \<and> keyed (Validators vals') \<and>
       power_of (Validators vals') = apply_changes (power_of (Validators vals)) (power_of ups))"
proof (cases "ups = []")
  case True
  obtain vals' where v: "IncrementProposerPriority vals 1 = Some vals'" "rot_inv vals'"
      "map Address (Validators vals') = map Address (Validators vals)"
      "map VotingPower (Validators vals') = map VotingPower (Validators vals)"
      "map val_PubKey (Validators vals') = map val_PubKey (Validators vals)"
    using IncrementProposerPriority_eq [of vals 1] bounded_spread [of vals] assms(1) by (auto simp: rot_inv_def)
  then show ?thesis using True assms(2) keyed_cong [OF v(5)] power_of_cong [OF v(3,4)]
    by - (rule disjI2, rule exI [of _ vals], rule exI [of _ vals'], auto simp: apply_no_changes)
next
  case False
  note up = updateWithChangeSet_eq [OF rot_inv_base [OF assms(1)] rot_inv_window [OF assms(1)] assms(2,3) False, of True]
  show ?thesis
  proof (cases "changes_accepted vals ups True")
    case no: False
    then show ?thesis using up False by (auto simp: UpdateWithChangeSet_def)
  next
    case True
    then obtain mid where mid: "UpdateWithChangeSet vals ups = Some (mid, None)" "vs_wf mid" "prio_narrow mid"
        "keyed (Validators mid)" "power_of (Validators mid) = apply_changes (power_of (Validators vals)) (power_of ups)"
      using up by (auto simp: UpdateWithChangeSet_def)
    obtain vals' where v: "IncrementProposerPriority mid 1 = Some vals'" "rot_inv vals'"
        "map Address (Validators vals') = map Address (Validators mid)"
        "map VotingPower (Validators vals') = map VotingPower (Validators mid)"
        "map val_PubKey (Validators vals') = map val_PubKey (Validators mid)"
      using IncrementProposerPriority_eq [OF mid(2) assms(4) [OF mid(1)] narrow_spread [OF mid(2,3)], of 1] by auto
    show ?thesis using False mid v keyed_cong [OF v(5)] power_of_cong [OF v(3,4)]
      by - (rule disjI2, rule exI [of _ mid], rule exI [of _ vals'], auto)
  qed
qed

lemma updateState_inv:
  assumes "state_inv st" and "keyed ups"
    and "\<And>vals'. UpdateWithChangeSet (st_NextValidators st) ups = Some (vals', None) \<Longrightarrow> roomy vals'"
  shows "\<exists>r. updateState H st bid hdr resp ups = Some r \<and>
    (\<forall>st'. r = Inr st' \<longrightarrow> state_inv st' \<and> st_LastBlockHeight st' = hdr_Height hdr \<and> st_LastBlockID st' = bid \<and>
       st_LastBlockTime st' = hdr_Time hdr \<and> st_Validators st' = st_NextValidators st \<and> st_LastValidators st' = st_Validators st \<and>
       power_of (Validators (st_NextValidators st')) = apply_changes (power_of (Validators (st_NextValidators st))) (power_of ups) \<and>
       st_LastResultsHash st' = TxResultsHash H (ar_TxResults resp) \<and>
       (\<forall>k \<le> hdr_Height hdr. VoteExtensionsEnabled (cp_VoteExtensionsEnableHeight (st_ConsensusParams st')) k =
          VoteExtensionsEnabled (cp_VoteExtensionsEnableHeight (st_ConsensusParams st)) k))"
proof -
  have inv: "rot_inv (st_NextValidators st)" "keyed (Validators (st_NextValidators st))"
    and par: "params_ValidateBasic (st_ConsensusParams st) = None"
    using assms(1) by (auto simp: state_inv_def)
  have pos: "0 \<le> cp_VoteExtensionsEnableHeight (st_ConsensusParams st)"
    using par by (auto simp: params_ValidateBasic_def Let_def split: if_splits)
  have "(\<exists>e. ups \<noteq> [] \<and> UpdateWithChangeSet (st_NextValidators st) ups = Some (st_NextValidators st, Some e)) \<or>
    (\<exists>mid vals'. (if ups = [] then mid = st_NextValidators st else UpdateWithChangeSet (st_NextValidators st) ups = Some (mid, None)) \<and>
       IncrementProposerPriority mid 1 = Some vals' \<and> rot_inv vals' \<and> keyed (Validators vals') \<and>
       power_of (Validators vals') = apply_changes (power_of (Validators (st_NextValidators st))) (power_of ups))"
    by (rule next_validators [OF inv assms(2)]) (rule assms(3))
  then show ?thesis
  proof (elim disjE exE conjE)
    fix e
    assume "ups \<noteq> []" "UpdateWithChangeSet (st_NextValidators st) ups = Some (st_NextValidators st, Some e)"
    then show ?thesis by (simp add: updateState_def)
  next
    fix mid vals'
    assume m: "if ups = [] then mid = st_NextValidators st
        else UpdateWithChangeSet (st_NextValidators st) ups = Some (mid, None)"
      and i: "IncrementProposerPriority mid 1 = Some vals'" and v: "rot_inv vals'" "keyed (Validators vals')"
        "power_of (Validators vals') = apply_changes (power_of (Validators (st_NextValidators st))) (power_of ups)"
    show ?thesis
    proof (cases "ar_ParamUpdates resp")
      case None
      then show ?thesis using m i v assms(1) inv
        by (cases "ups = []") (auto simp: updateState_def state_inv_def params_Update_def Let_def)
    next
      case (Some u)
      show ?thesis using m i v assms(1) inv Some ValidateUpdate_past [of "st_ConsensusParams st" u "hdr_Height hdr"] pos
        by (cases "ups = []") (auto simp: updateState_def state_inv_def Let_def split: option.splits)
    qed
  qed
qed


definition demo_state :: ChainState where
  "demo_state =
     \<lparr>st_Version = \<lparr>ver_Block = BlockProtocol, ver_App = 0\<rparr>, st_ChainID = [7], st_InitialHeight = 1,
      st_LastBlockHeight = 1, st_LastBlockID = demo_block, st_LastBlockTime = 1, st_NextValidators = demo_vals,
      st_Validators = demo_vals, st_LastValidators = demo_vals, st_LastHeightValidatorsChanged = 1,
      st_ConsensusParams = DefaultConsensusParams, st_LastHeightConsensusParamsChanged = 1,
      st_LastResultsHash = [], st_AppHash = []\<rparr>"

definition demo_response :: abci_response where
  "demo_response =
     \<lparr>ar_TxResults = replicate 2 \<lparr>tr_Code = 0, tr_Data = [], tr_Log = [], tr_Info = [], tr_GasWanted = 0,
        tr_GasUsed = 0, tr_Codespace = []\<rparr>,
      ar_ValidatorUpdates = [\<lparr>vu_PubKey = \<lparr>pk_type = ''ed25519'', pk_bytes = replicate 32 9\<rparr>, vu_Power = 3\<rparr>],
      ar_ParamUpdates = None, ar_AppHash = [5]\<rparr>"

definition demo_exec :: "bytes exec_env" where
  "demo_exec = \<lparr>ex_FinalizeBlock = (\<lambda>st b. Some demo_response), ex_SaveResponse = True, ex_Commit = True, ex_SaveState = True\<rparr>"

definition demo_ups :: "Validator list" where
  "demo_ups = [NewValidator demo_env \<lparr>pk_type = ''ed25519'', pk_bytes = replicate 32 9\<rparr> 3]"

lemma demo_updates: "validateValidatorUpdates (ar_ValidatorUpdates demo_response) (st_ConsensusParams demo_state) = None"
  by code_simp

lemma demo_results: "length (ar_TxResults demo_response) = 2"
  by (simp add: demo_response_def)

lemma demo_state_inv: "state_inv demo_state"
  by code_simp


section \<open>Median time\<close>

lemma sort_key_map_comp: "sort_key f (map g xs) = map g (sort_key (\<lambda>x. f (g x)) xs)"
proof (induction xs)
  case (Cons x xs)
  have "insort_key f (g x) (map g ys) = map g (insort_key (\<lambda>x. f (g x)) x ys)" for ys
    by (induction ys) auto
  with Cons show ?case by simp
qed simp

lemma median_pick:
  assumes "\<forall>x \<in> set xs. 0 < w x" and "0 < m" and "m \<le> sum_list (map w xs)" and "sum_list (map w xs) \<le> MaxInt64"
  shows "\<exists>ys x zs. xs = ys @ x # zs \<and> median_loop (map (\<lambda>x. (t x, w x)) xs) m = t x \<and>
    sum_list (map w ys) < m \<and> m \<le> sum_list (map w ys) + w x"
  using assms
proof (induction xs arbitrary: m)
  case Nil
  then show ?case by simp
next
  case (Cons a xs)
  show ?case
  proof (cases "m \<le> w a")
    case True
    then show ?thesis using Cons.prems by (intro exI [of _ "[]"] exI [of _ a] exI [of _ xs]) auto
  next
    case False
    have pos: "0 < w a" using Cons.prems(1) by simp
    have "0 \<le> sum_list (map w xs)"
      using Cons.prems(1) by (intro sum_list_nonneg) (auto intro: order.strict_implies_order)
    have "in64 (m - w a)" using False pos Cons.prems(2-4) \<open>0 \<le> sum_list (map w xs)\<close> unfolding in64_def by simp
    then have step: "median_loop (map (\<lambda>x. (t x, w x)) (a # xs)) m = median_loop (map (\<lambda>x. (t x, w x)) xs) (m - w a)"
      using False by simp
    obtain ys x zs where "xs = ys @ x # zs" "median_loop (map (\<lambda>x. (t x, w x)) xs) (m - w a) = t x"
        "sum_list (map w ys) < m - w a" "m - w a \<le> sum_list (map w ys) + w x"
      using Cons.IH [of "m - w a"] Cons.prems False pos by auto
    then show ?thesis using step by (intro exI [of _ "a # ys"] exI [of _ x] exI [of _ zs]) auto
  qed
qed

lemma sum_split: "sum_list (map w xs) = sum_list (map w (filter P xs)) + sum_list (map w (filter (\<lambda>x. \<not> P x) xs))" for w :: "'a \<Rightarrow> int"
  by (induction xs) auto

lemma sum_filter_le: "\<forall>x \<in> set xs. 0 < w x \<Longrightarrow> sum_list (map w (filter P xs)) \<le> sum_list (map w xs)" for w :: "'a \<Rightarrow> int"
  by (induction xs) force+

lemma median_between:
  assumes sorted: "sorted (map t xs)" and w: "\<forall>x \<in> set xs. 0 < w x" and total: "sum_list (map w xs) \<le> MaxInt64"
    and faulty: "sum_list (map w (filter (\<lambda>x. \<not> P x) xs)) < sum_list (map w xs) div 2"
    and honest: "\<And>x. x \<in> set xs \<Longrightarrow> P x \<Longrightarrow> lo \<le> t x \<and> t x \<le> hi"
  shows "lo \<le> median_loop (map (\<lambda>x. (t x, w x)) xs) (sum_list (map w xs) div 2) \<and>
    median_loop (map (\<lambda>x. (t x, w x)) xs) (sum_list (map w xs) div 2) \<le> hi"
proof -
  let ?m = "sum_list (map w xs) div 2"
  have nonneg: "0 \<le> sum_list (map w (filter Q ys))" if "set ys \<subseteq> set xs" for Q ys
    using w that by (intro sum_list_nonneg) (auto intro: order.strict_implies_order)
  have m: "0 < ?m" "?m \<le> sum_list (map w xs)" using faulty nonneg [of xs "\<lambda>x. \<not> P x"] by auto
  obtain ys x zs where xs: "xs = ys @ x # zs" and r: "median_loop (map (\<lambda>x. (t x, w x)) xs) ?m = t x"
    and lt: "sum_list (map w ys) < ?m" and ge: "?m \<le> sum_list (map w ys) + w x"
    using median_pick [OF w m total, of t] by auto
  have "\<exists>y \<in> set (ys @ [x]). P y"
  proof (rule ccontr)
    assume "\<not> (\<exists>y \<in> set (ys @ [x]). P y)"
    then have "filter (\<lambda>x. \<not> P x) ys = ys" "\<not> P x" by (auto simp: filter_id_conv)
    then have "sum_list (map w ys) + w x \<le> sum_list (map w (filter (\<lambda>x. \<not> P x) xs))"
      using nonneg [of zs "\<lambda>x. \<not> P x"] by (auto simp: xs)
    with ge faulty show False by simp
  qed
  then have "lo \<le> t x" using sorted honest by (auto simp: xs sorted_append intro: order_trans)
  moreover have "\<exists>z \<in> set (x # zs). P z"
  proof (rule ccontr)
    assume "\<not> (\<exists>z \<in> set (x # zs). P z)"
    then have "filter P (x # zs) = []" by (auto simp: filter_empty_conv)
    then have "sum_list (map w (filter P xs)) = sum_list (map w (filter P ys))" by (simp add: xs)
    also have "\<dots> \<le> sum_list (map w ys)" using w by (intro sum_filter_le) (auto simp: xs)
    finally show False using lt faulty sum_split [of w xs P] by simp
  qed
  then have "t x \<le> hi" using sorted honest by (auto simp: xs sorted_append intro: order_trans)
  ultimately show ?thesis using r by simp
qed

text \<open>The signatures that count for the median, and the power of some of them.\<close>

definition timed :: "ValidatorSet \<Rightarrow> Commit \<Rightarrow> CommitSig list" where
  "timed vals c = filter (\<lambda>s. weighted_time vals s \<noteq> None) (com_Signatures c)"

definition sig_power :: "ValidatorSet \<Rightarrow> CommitSig \<Rightarrow> int" where
  "sig_power vals s = snd (the (weighted_time vals s))"

definition commit_power :: "ValidatorSet \<Rightarrow> (CommitSig \<Rightarrow> bool) \<Rightarrow> Commit \<Rightarrow> int" where
  "commit_power vals P c = sum_list (map (sig_power vals) (filter P (timed vals c)))"

lemma voted_power_sum:
  assumes "\<And>t w. Some (t, w) \<in> set ws \<Longrightarrow> 0 < w" and "0 \<le> tot"
    and "tot + sum_list (map (\<lambda>x. snd (the x)) (filter (\<lambda>x. x \<noteq> None) ws)) \<le> MaxInt64"
  shows "voted_power ws tot = tot + sum_list (map (\<lambda>x. snd (the x)) (filter (\<lambda>x. x \<noteq> None) ws))"
  using assms
proof (induction ws tot rule: voted_power.induct)
  case (3 t w ws tot)
  have nonneg: "0 \<le> sum_list (map (\<lambda>x. snd (the x)) (filter (\<lambda>x. x \<noteq> None) ws))"
    using 3(2) by (intro sum_list_nonneg) (fastforce intro: order.strict_implies_order)
  have "0 < w" by (rule 3(2) [of t]) simp
  with nonneg 3(3,4) have "wrap64 (tot + w) = tot + w" by (intro wrap64_id) (auto simp: in64_def)
  moreover have "voted_power ws (wrap64 (tot + w)) =
      wrap64 (tot + w) + sum_list (map (\<lambda>x. snd (the x)) (filter (\<lambda>x. x \<noteq> None) ws))"
    by (rule 3(1)) (use 3(2-4) \<open>0 < w\<close> calculation in \<open>auto simp: algebra_simps\<close>)
  ultimately show ?case by simp
qed auto

lemma timed_pos:
  assumes "\<forall>v \<in> set (Validators vals). 0 < VotingPower v" and "s \<in> set (timed vals c)"
  shows "0 < sig_power vals s" and "weighted_time vals s = Some (cs_Timestamp s, sig_power vals s)"
proof -
  obtain v where v: "snd (GetByAddress vals (cs_ValidatorAddress s)) = Some v" and f: "cs_BlockIDFlag s \<noteq> BlockIDFlagAbsent"
    using assms(2) by (auto simp: timed_def weighted_time_def split: option.splits if_splits)
  have "\<And>vs i. snd (get_by_address vs i (cs_ValidatorAddress s)) = Some v \<Longrightarrow> v \<in> set vs"
    subgoal for vs i by (induction vs i "cs_ValidatorAddress s" rule: get_by_address.induct) (auto split: if_splits)
    done
  then have "v \<in> set (Validators vals)" using v by (auto simp: GetByAddress_def)
  with assms(1) v f show "0 < sig_power vals s" "weighted_time vals s = Some (cs_Timestamp s, sig_power vals s)"
    by (auto simp: sig_power_def weighted_time_def)
qed

lemma MedianTime_timed:
  assumes "\<forall>v \<in> set (Validators vals). 0 < VotingPower v" and "commit_power vals (\<lambda>s. True) c \<le> MaxInt64"
  shows "MedianTime c vals = median_loop (map (\<lambda>s. (cs_Timestamp s, sig_power vals s))
      (sort_key (\<lambda>s. UnixNano (cs_Timestamp s)) (timed vals c))) (commit_power vals (\<lambda>s. True) c div 2)"
proof -
  let ?ws = "map (weighted_time vals) (com_Signatures c)"
  have sel: "map the (filter (\<lambda>x. x \<noteq> None) ?ws) = map (\<lambda>s. (cs_Timestamp s, sig_power vals s)) (timed vals c)"
  proof -
    have "map (\<lambda>s. the (weighted_time vals s)) (timed vals c) = map (\<lambda>s. (cs_Timestamp s, sig_power vals s)) (timed vals c)"
      using timed_pos(2) [OF assms(1)] by (intro map_cong) auto
    then show ?thesis by (simp add: filter_map o_def timed_def)
  qed
  have sum: "sum_list (map (\<lambda>x. snd (the x)) (filter (\<lambda>x. x \<noteq> None) ?ws)) = commit_power vals (\<lambda>s. True) c"
    using arg_cong [OF sel, of "\<lambda>xs. sum_list (map snd xs)"] by (simp add: commit_power_def o_def)
  have "voted_power ?ws 0 = commit_power vals (\<lambda>s. True) c"
  proof (subst voted_power_sum)
    show "0 < w" if tw: "Some (t, w) \<in> set ?ws" for t w
    proof -
      from tw obtain s where s: "s \<in> set (com_Signatures c)" "weighted_time vals s = Some (t, w)" by auto
      then have "s \<in> set (timed vals c)" by (simp add: timed_def)
      from timed_pos [OF assms(1) this] s show ?thesis by simp
    qed
  qed (use sum assms(2) in auto)
  moreover have "0 \<le> commit_power vals (\<lambda>s. True) c"
    using timed_pos(1) [OF assms(1)] unfolding commit_power_def
    by (intro sum_list_nonneg) (auto intro: order.strict_implies_order)
  ultimately show ?thesis
    unfolding MedianTime_def Let_def WeightedMedian_def unfolding sel unfolding sort_key_map_comp by (simp add: sdiv_nonneg)
qed


definition four_vals :: ValidatorSet where
  "four_vals =
     \<lparr>Validators = map (\<lambda>i. \<lparr>Address = [i], val_PubKey = Some \<lparr>pk_type = ''ed25519'', pk_bytes = [i]\<rparr>,
        VotingPower = 1, ProposerPriority = 0\<rparr>) [1, 2, 3, 4],
      Proposer = None, totalVotingPower = 4, allKeysHaveSameType = True\<rparr>"

definition timed_sig :: "8 word \<Rightarrow> int \<Rightarrow> CommitSig" where
  "timed_sig i t = \<lparr>cs_BlockIDFlag = BlockIDFlagCommit, cs_ValidatorAddress = [i],
     cs_Timestamp = 62135596800000000000 + t, cs_Signature = []\<rparr>"

definition timed_commit :: "CommitSig list \<Rightarrow> Commit" where
  "timed_commit sigs = \<lparr>com_Height = 1, com_Round = 0, com_BlockID = demo_block, com_Signatures = sigs\<rparr>"

abbreviation honest_commit :: Commit where
  "honest_commit \<equiv> timed_commit [timed_sig 1 5, timed_sig 2 100, timed_sig 3 101, timed_sig 4 102]"



definition with_priorities :: "int list \<Rightarrow> ValidatorSet" where
  "with_priorities ps = four_vals\<lparr>Validators := map2 (\<lambda>v p. v\<lparr>ProposerPriority := p\<rparr>) (Validators four_vals) ps\<rparr>"


section \<open>Making and validating blocks\<close>

lemma root_valid: "(\<And>x. length (H x) = 32) \<Longrightarrow> ValidateHash (HashFromByteSlices H items)"
  using length_hashFromByteSlices [of H items] by (simp add: ValidateHash_def HashFromByteSlices_def)

lemma MakeBlock_shape:
  assumes "MakeBlock ce H eo st ht txs lc ev addr = Some b"
  obtains lch vh nvh where "Commit_Hash ce H (Some lc) = Some lch" and "ValidatorSet_Hash H (st_Validators st) = Some vh"
    and "ValidatorSet_Hash H (st_NextValidators st) = Some nvh"
    and "b = \<lparr>blk_Header = \<lparr>hdr_Version = st_Version st, hdr_ChainID = st_ChainID st, hdr_Height = ht,
        hdr_Time = (if ht = st_InitialHeight st then st_LastBlockTime st else MedianTime lc (st_LastValidators st)),
        hdr_LastBlockID = st_LastBlockID st, hdr_LastCommitHash = lch, hdr_DataHash = Txs_Hash H txs,
        hdr_ValidatorsHash = vh, hdr_NextValidatorsHash = nvh, hdr_ConsensusHash = params_Hash H (st_ConsensusParams st),
        hdr_AppHash = st_AppHash st, hdr_LastResultsHash = st_LastResultsHash st,
        hdr_EvidenceHash = EvidenceList_Hash H eo ev, hdr_ProposerAddress = addr\<rparr>,
      blk_Txs = txs, blk_Evidence = ev, blk_LastCommit = Some lc\<rparr>"
  using assms
  by (auto simp: MakeBlock_def types_MakeBlock_def fillHeader_def empty_header_def Header_Populate_def Let_def
      split: Option.bind_splits)


definition genesis_vals :: ValidatorSet where
  "genesis_vals =
     \<lparr>Validators = [\<lparr>Address = replicate 20 1, val_PubKey = Some \<lparr>pk_type = ''ed25519'', pk_bytes = replicate 32 1\<rparr>,
        VotingPower = 1, ProposerPriority = 0\<rparr>],
      Proposer = None, totalVotingPower = 1, allKeysHaveSameType = True\<rparr>"

definition genesis_state :: ChainState where
  "genesis_state = demo_state\<lparr>st_LastBlockHeight := 0, st_LastBlockID := zeroBlockID, st_NextValidators := genesis_vals,
     st_Validators := genesis_vals\<rparr>"


end
