(* ===== verification/Block_Store.thy ===== *)
theory Block_Store
  imports Chain_State
begin

text \<open>
  The block store: \<open>store/store.go\<close> and \<open>types/block_meta.go\<close>.

  The key-value database is a map from the printed keys to values. A value is the message that its
  bytes encode; reading it back converts it with the checks of the \<open>FromProto\<close> functions, whose
  failure is a panic. The outcome of a database write is an argument. The caches are maps, from which
  no entry is dropped. Unmarshalling a block is the argument \<open>unm\<close>, \<open>None\<close> its error, and the size of an
  encoded block is the argument \<open>bsize\<close>.
\<close>

section \<open>Keys\<close>

definition show_int :: "int \<Rightarrow> string" where
  "show_int n = (if n < 0 then ''-'' @ show_nat (nat (- n)) else show_nat (nat n))"

definition hex_digit :: "nat \<Rightarrow> char" where
  "hex_digit n = ''0123456789abcdef'' ! n"

definition show_hex :: "bytes \<Rightarrow> string" where
  "show_hex bz = concat (map (\<lambda>b. [hex_digit (unat b div 16), hex_digit (unat b mod 16)]) bz)"

definition calcBlockMetaKey :: "int \<Rightarrow> string" where
  "calcBlockMetaKey h = ''H:'' @ show_int h"

definition calcBlockPartKey :: "int \<Rightarrow> int \<Rightarrow> string" where
  "calcBlockPartKey h partIndex = ''P:'' @ show_int h @ '':'' @ show_int partIndex"

definition calcBlockCommitKey :: "int \<Rightarrow> string" where
  "calcBlockCommitKey h = ''C:'' @ show_int h"

definition calcSeenCommitKey :: "int \<Rightarrow> string" where
  "calcSeenCommitKey h = ''SC:'' @ show_int h"

definition calcExtCommitKey :: "int \<Rightarrow> string" where
  "calcExtCommitKey h = ''EC:'' @ show_int h"

definition calcBlockHashKey :: "bytes \<Rightarrow> string" where
  "calcBlockHashKey hash = ''BH:'' @ show_hex hash"

abbreviation blockStoreKey :: string where "blockStoreKey \<equiv> ''blockStore''"

section \<open>The store\<close>

record BlockMeta =
  bm_BlockID :: BlockID
  bm_BlockSize :: int
  bm_Header :: Header
  bm_NumTxs :: int

definition BlockMeta_ValidateBasic :: "ext_env \<Rightarrow> (bytes \<Rightarrow> bytes) \<Rightarrow> BlockMeta \<Rightarrow> bool" where
  "BlockMeta_ValidateBasic ce H bm \<longleftrightarrow>
     BlockID_ValidateBasic (bm_BlockID bm) \<and> bid_Hash (bm_BlockID bm) = Header_Hash ce H (bm_Header bm)"

text \<open>The last constructor is the stored pair of base and height.\<close>

datatype db_value =
    VMeta BlockMeta | VPart Part | VCommit Commit | VExtCommit ExtendedCommit | VHeight int | VState int int

type_synonym db = "string \<rightharpoonup> db_value"
type_synonym batch = "(string \<times> db_value option) list"

definition db_write :: "batch \<Rightarrow> db \<Rightarrow> db" where
  "db_write ops m = fold (\<lambda>(k, v) m. m(k := v)) ops m"

record BlockStore =
  bs_db :: db
  bs_base :: int
  bs_height :: int
  seenCommitCache :: "int \<rightharpoonup> Commit"
  blockCommitCache :: "int \<rightharpoonup> Commit"
  blockExtendedCommitCache :: "int \<rightharpoonup> ExtendedCommit"

definition LoadBlockStoreState :: "db \<Rightarrow> (int \<times> int) option" where
  "LoadBlockStoreState m =
     (case m blockStoreKey of
        None \<Rightarrow> Some (0, 0)
      | Some (VState b h) \<Rightarrow> Some (if h > 0 \<and> b = 0 then (1, h) else (b, h))
      | Some _ \<Rightarrow> None)"

definition NewBlockStore :: "db \<Rightarrow> BlockStore option" where
  "NewBlockStore m =
     do {
       (b, h) \<leftarrow> LoadBlockStoreState m;
       Some \<lparr>bs_db = m, bs_base = b, bs_height = h, seenCommitCache = Map.empty, blockCommitCache = Map.empty,
             blockExtendedCommitCache = Map.empty\<rparr>
     }"

definition BlockStore_IsEmpty :: "BlockStore \<Rightarrow> bool" where
  "BlockStore_IsEmpty bs \<longleftrightarrow> bs_base bs = bs_height bs \<and> bs_base bs = 0"

definition BlockStore_Size :: "BlockStore \<Rightarrow> int" where
  "BlockStore_Size bs = (if bs_height bs = 0 then 0 else wrap64 (wrap64 (bs_height bs - bs_base bs) + 1))"

section \<open>Loading\<close>

definition LoadBlockMeta :: "BlockStore \<Rightarrow> int \<Rightarrow> BlockMeta option option" where
  "LoadBlockMeta bs h =
     (case bs_db bs (calcBlockMetaKey h) of
        None \<Rightarrow> Some None
      | Some (VMeta m) \<Rightarrow>
          if BlockID_ValidateBasic (bm_BlockID m) \<and> Header_ValidateBasic (bm_Header m) = None then Some (Some m) else None
      | Some _ \<Rightarrow> None)"

definition LoadBaseMeta :: "BlockStore \<Rightarrow> BlockMeta option option" where
  "LoadBaseMeta bs = (if bs_base bs = 0 then Some None else LoadBlockMeta bs (bs_base bs))"

definition LoadBlockPart :: "BlockStore \<Rightarrow> int \<Rightarrow> int \<Rightarrow> Part option option" where
  "LoadBlockPart bs h index =
     (case bs_db bs (calcBlockPartKey h index) of
        None \<Rightarrow> Some None
      | Some (VPart p) \<Rightarrow> if Part_ValidateBasic p = None then Some (Some p) else None
      | Some _ \<Rightarrow> None)"

text \<open>The loop of \<open>LoadBlock\<close>; the inner \<open>None\<close> is a missing part.\<close>

fun load_parts :: "BlockStore \<Rightarrow> int \<Rightarrow> nat list \<Rightarrow> bytes \<Rightarrow> bytes option option" where
  "load_parts bs h [] buf = Some (Some buf)"
| "load_parts bs h (i # is) buf =
     do {
       part \<leftarrow> LoadBlockPart bs h (int i);
       (case part of
          None \<Rightarrow> Some None
        | Some p \<Rightarrow> load_parts bs h is (buf @ part_Bytes p))
     }"

definition LoadBlock :: "(bytes \<Rightarrow> 'ev Block option) \<Rightarrow> BlockStore \<Rightarrow> int \<Rightarrow> 'ev Block option option" where
  "LoadBlock unm bs h =
     do {
       meta \<leftarrow> LoadBlockMeta bs h;
       (case meta of
          None \<Rightarrow> Some None
        | Some m \<Rightarrow> do {
            buf \<leftarrow> load_parts bs h [0..<psh_Total (bid_PartSetHeader (bm_BlockID m))] [];
            (case buf of
               None \<Rightarrow> Some None
             | Some bz \<Rightarrow> do { block \<leftarrow> unm bz; Some (Some block) })
          })
     }"

definition height_of_hash :: "BlockStore \<Rightarrow> bytes \<Rightarrow> int option option" where
  "height_of_hash bs hash =
     (case bs_db bs (calcBlockHashKey hash) of
        None \<Rightarrow> Some None
      | Some (VHeight h) \<Rightarrow> Some (Some h)
      | Some _ \<Rightarrow> None)"

definition LoadBlockByHash :: "(bytes \<Rightarrow> 'ev Block option) \<Rightarrow> BlockStore \<Rightarrow> bytes \<Rightarrow> 'ev Block option option" where
  "LoadBlockByHash unm bs hash =
     do {
       r \<leftarrow> height_of_hash bs hash;
       (case r of None \<Rightarrow> Some None | Some h \<Rightarrow> LoadBlock unm bs h)
     }"

definition LoadBlockMetaByHash :: "BlockStore \<Rightarrow> bytes \<Rightarrow> BlockMeta option option" where
  "LoadBlockMetaByHash bs hash =
     do {
       r \<leftarrow> height_of_hash bs hash;
       (case r of None \<Rightarrow> Some None | Some h \<Rightarrow> LoadBlockMeta bs h)
     }"

text \<open>A commit as read from the database, with the check of \<open>CommitFromProto\<close>.\<close>

definition read_commit :: "BlockStore \<Rightarrow> string \<Rightarrow> Commit option option" where
  "read_commit bs key =
     (case bs_db bs key of
        None \<Rightarrow> Some None
      | Some (VCommit c) \<Rightarrow> if Commit_ValidateBasic c = None then Some (Some c) else None
      | Some _ \<Rightarrow> None)"

definition LoadBlockCommit :: "BlockStore \<Rightarrow> int \<Rightarrow> (BlockStore \<times> Commit option) option" where
  "LoadBlockCommit bs h =
     (case blockCommitCache bs h of
        Some c \<Rightarrow> Some (bs, Some c)
      | None \<Rightarrow> do {
          r \<leftarrow> read_commit bs (calcBlockCommitKey h);
          Some (case r of
             None \<Rightarrow> (bs, None)
           | Some c \<Rightarrow> (bs\<lparr>blockCommitCache := (blockCommitCache bs)(h \<mapsto> c)\<rparr>, Some c))
        })"

definition LoadSeenCommit :: "BlockStore \<Rightarrow> int \<Rightarrow> (BlockStore \<times> Commit option) option" where
  "LoadSeenCommit bs h =
     (case seenCommitCache bs h of
        Some c \<Rightarrow> Some (bs, Some c)
      | None \<Rightarrow> do {
          r \<leftarrow> read_commit bs (calcSeenCommitKey h);
          Some (case r of
             None \<Rightarrow> (bs, None)
           | Some c \<Rightarrow> (bs\<lparr>seenCommitCache := (seenCommitCache bs)(h \<mapsto> c)\<rparr>, Some c))
        })"

definition ExtendedCommit_ValidateBasic :: "ExtendedCommit \<Rightarrow> bool" where
  "ExtendedCommit_ValidateBasic ec \<longleftrightarrow>
     0 \<le> ec_Height ec \<and> 0 \<le> ec_Round ec \<and>
     (ec_Height ec < 1 \<or>
        \<not> BlockID_IsZero (ec_BlockID ec) \<and> length (ec_ExtendedSignatures ec) \<noteq> 0 \<and>
        list_all (\<lambda>s. ExtendedCommitSig_ValidateBasic s = None) (ec_ExtendedSignatures ec))"

definition LoadBlockExtendedCommit :: "BlockStore \<Rightarrow> int \<Rightarrow> (BlockStore \<times> ExtendedCommit option) option" where
  "LoadBlockExtendedCommit bs h =
     (case blockExtendedCommitCache bs h of
        Some c \<Rightarrow> Some (bs, Some c)
      | None \<Rightarrow>
          (case bs_db bs (calcExtCommitKey h) of
             None \<Rightarrow> Some (bs, None)
           | Some (VExtCommit c) \<Rightarrow>
               if ExtendedCommit_ValidateBasic c
               then Some (bs\<lparr>blockExtendedCommitCache := (blockExtendedCommitCache bs)(h \<mapsto> c)\<rparr>, Some c)
               else None
           | Some _ \<Rightarrow> None))"

section \<open>Saving\<close>

text \<open>\<open>saveStateAndWriteDB\<close>; \<open>None\<close> is its error.\<close>

definition saveStateAndWriteDB :: "bool \<Rightarrow> batch \<Rightarrow> BlockStore \<Rightarrow> BlockStore option" where
  "saveStateAndWriteDB io ops bs =
     (if io then Some (bs\<lparr>bs_db := db_write (ops @ [(blockStoreKey, Some (VState (bs_base bs) (bs_height bs)))]) (bs_db bs)\<rparr>)
      else None)"

abbreviation maxBlockPartsToBatch :: nat where "maxBlockPartsToBatch \<equiv> 10"

definition part_ops :: "int \<Rightarrow> Part list \<Rightarrow> batch" where
  "part_ops h parts = map (\<lambda>(i, p). (calcBlockPartKey h (int i), Some (VPart p))) (enumerate 0 parts)"

text \<open>\<open>NewBlockMeta\<close>: computing the hash of a block fills its header.\<close>

definition NewBlockMeta ::
  "ext_env \<Rightarrow> (bytes \<Rightarrow> bytes) \<Rightarrow> 'ev evidence_ops \<Rightarrow> ('ev Block \<Rightarrow> int) \<Rightarrow> 'ev Block \<Rightarrow> PartSet \<Rightarrow> BlockMeta option" where
  "NewBlockMeta ce H eo bsize block ps =
     do {
       hash \<leftarrow> Block_Hash ce H eo (Some block);
       block' \<leftarrow> (if blk_LastCommit block = None then Some block else fillHeader ce H eo block);
       Some \<lparr>bm_BlockID = \<lparr>bid_Hash = hash, bid_PartSetHeader = PartSet_Header (Some ps)\<rparr>, bm_BlockSize = bsize block,
             bm_Header = blk_Header block', bm_NumTxs = int (length (blk_Txs block))\<rparr>
     }"

text \<open>
  Its errors are panics of its callers. The parts of a large block are written at once, those of a
  small one with the rest. The new database and the batch.
\<close>

definition saveBlockToBatch ::
  "ext_env \<Rightarrow> (bytes \<Rightarrow> bytes) \<Rightarrow> 'ev evidence_ops \<Rightarrow> ('ev Block \<Rightarrow> int) \<Rightarrow> BlockStore \<Rightarrow> 'ev Block \<Rightarrow> PartSet \<Rightarrow> Commit \<Rightarrow> (db \<times> batch) option" where
  "saveBlockToBatch ce H eo bsize bs block ps seenCommit =
     (let h = hdr_Height (blk_Header block)
      in do {
        hash \<leftarrow> Block_Hash ce H eo (Some block);
        if bs_base bs > 0 \<and> h \<noteq> wrap64 (bs_height bs + 1) then None
        else if \<not> PartSet_IsComplete ps then None
        else if h \<noteq> com_Height seenCommit then None
        else do {
          parts \<leftarrow> those (map (\<lambda>i. Option.bind (GetPart ps (int i)) id) [0..<ps_total ps]);
          let pops = part_ops h parts;
          let small = ps_count ps \<le> maxBlockPartsToBatch;
          meta \<leftarrow> NewBlockMeta ce H eo bsize block ps;
          t \<leftarrow> stdTimeMarshal ce (hdr_Time (bm_Header meta));
          lc \<leftarrow> blk_LastCommit block;
          lcBytes \<leftarrow> Commit_Marshal ce lc;
          scBytes \<leftarrow> Commit_Marshal ce seenCommit;
          Some (if small then bs_db bs else db_write pops (bs_db bs),
                (if small then pops else []) @
                [(calcBlockMetaKey h, Some (VMeta meta)), (calcBlockHashKey hash, Some (VHeight h)),
                 (calcBlockCommitKey (wrap64 (h - 1)), Some (VCommit lc)), (calcSeenCommitKey h, Some (VCommit seenCommit))])
        }
      })"

definition advance :: "int \<Rightarrow> BlockStore \<Rightarrow> BlockStore" where
  "advance h bs = bs\<lparr>bs_height := h, bs_base := (if bs_base bs = 0 then h else bs_base bs)\<rparr>"

definition SaveBlock ::
  "ext_env \<Rightarrow> (bytes \<Rightarrow> bytes) \<Rightarrow> 'ev evidence_ops \<Rightarrow> ('ev Block \<Rightarrow> int) \<Rightarrow> bool \<Rightarrow> BlockStore \<Rightarrow> 'ev Block option \<Rightarrow> PartSet \<Rightarrow> Commit \<Rightarrow> BlockStore option" where
  "SaveBlock ce H eo bsize io bs p ps seenCommit =
     do {
       block \<leftarrow> p;
       (m, ops) \<leftarrow> saveBlockToBatch ce H eo bsize bs block ps seenCommit;
       saveStateAndWriteDB io ops (advance (hdr_Height (blk_Header block)) (bs\<lparr>bs_db := m\<rparr>))
     }"

definition SaveBlockWithExtendedCommit ::
  "ext_env \<Rightarrow> (bytes \<Rightarrow> bytes) \<Rightarrow> 'ev evidence_ops \<Rightarrow> ('ev Block \<Rightarrow> int) \<Rightarrow> bool \<Rightarrow> BlockStore \<Rightarrow> 'ev Block option \<Rightarrow> PartSet \<Rightarrow> ExtendedCommit \<Rightarrow> BlockStore option" where
  "SaveBlockWithExtendedCommit ce H eo bsize io bs p ps ec =
     do {
       block \<leftarrow> p;
       if EnsureExtensions True ec \<noteq> None then None
       else do {
         (m, ops) \<leftarrow> saveBlockToBatch ce H eo bsize bs block ps (ToCommit ec);
         let h = hdr_Height (blk_Header block);
         saveStateAndWriteDB io (ops @ [(calcExtCommitKey h, Some (VExtCommit ec))]) (advance h (bs\<lparr>bs_db := m\<rparr>))
       }
     }"

text \<open>\<open>None\<close> is its error.\<close>

definition SaveSeenCommit :: "ext_env \<Rightarrow> bool \<Rightarrow> BlockStore \<Rightarrow> int \<Rightarrow> Commit \<Rightarrow> BlockStore option" where
  "SaveSeenCommit ce io bs h seenCommit =
     do {
       bz \<leftarrow> Commit_Marshal ce seenCommit;
       if io then Some (bs\<lparr>bs_db := (bs_db bs)(calcSeenCommitKey h \<mapsto> VCommit seenCommit)\<rparr>) else None
     }"

section \<open>Removing\<close>

text \<open>\<open>time.Time.Sub\<close> saturates.\<close>

definition time_sub :: "timestamp \<Rightarrow> timestamp \<Rightarrow> int" where
  "time_sub a b = max MinInt64 (min MaxInt64 (a - b))"

definition IsEvidenceExpired :: "int \<Rightarrow> timestamp \<Rightarrow> int \<Rightarrow> timestamp \<Rightarrow> ConsensusParams \<Rightarrow> bool" where
  "IsEvidenceExpired heightNow timeNow heightEv timeEv params \<longleftrightarrow>
     time_sub timeNow timeEv > cp_MaxAgeDuration params \<and> wrap64 (heightNow - heightEv) > cp_MaxAgeNumBlocks params"

datatype prune_error = HeightNotPositive | BeyondLatestHeight | BelowBaseHeight | WriteFailed

definition delete_parts :: "int \<Rightarrow> BlockMeta \<Rightarrow> batch" where
  "delete_parts h m = map (\<lambda>p. (calcBlockPartKey h (int p), None)) [0..<psh_Total (bid_PartSetHeader (bm_BlockID m))]"

definition prune_ops :: "int \<Rightarrow> int \<Rightarrow> BlockMeta \<Rightarrow> batch" where
  "prune_ops h evidencePoint m =
     (if h < evidencePoint then [(calcBlockMetaKey h, None)] else []) @
     [(calcBlockHashKey (bid_Hash (bm_BlockID m)), None)] @
     (if h < evidencePoint then [(calcBlockCommitKey h, None)] else []) @
     [(calcSeenCommitKey h, None)] @ delete_parts h m"

text \<open>\<open>flush\<close>: the base is set in memory even if the write fails.\<close>

definition flush :: "bool \<Rightarrow> batch \<Rightarrow> int \<Rightarrow> BlockStore \<Rightarrow> BlockStore \<times> bool" where
  "flush io ops b bs =
     (let bs' = bs\<lparr>bs_base := b\<rparr>
      in case saveStateAndWriteDB io ops bs' of None \<Rightarrow> (bs', False) | Some bs'' \<Rightarrow> (bs'', True))"

text \<open>The loop over the heights, with the batch, the number of blocks pruned and the evidence point;
  \<open>io\<close> gives the outcome of each write.\<close>

fun prune_loop ::
  "(nat \<Rightarrow> bool) \<Rightarrow> ChainState \<Rightarrow> int \<Rightarrow> int list \<Rightarrow> BlockStore \<Rightarrow> batch \<Rightarrow> nat \<Rightarrow> int \<Rightarrow> (BlockStore \<times> (prune_error + (nat \<times> int))) option" where
  "prune_loop io state target [] bs ops pruned evidencePoint =
     (case flush (io pruned) ops target bs of
        (bs', ok) \<Rightarrow> Some (bs', if ok then Inr (pruned, evidencePoint) else Inl WriteFailed))"
| "prune_loop io state target (h # hs) bs ops pruned evidencePoint =
     do {
       meta \<leftarrow> LoadBlockMeta bs h;
       (case meta of
          None \<Rightarrow> prune_loop io state target hs bs ops pruned evidencePoint
        | Some m \<Rightarrow>
            let evidencePoint =
                  (if evidencePoint = target \<and> \<not> IsEvidenceExpired (st_LastBlockHeight state) (st_LastBlockTime state) h
                        (hdr_Time (bm_Header m)) (st_ConsensusParams state)
                   then h else evidencePoint);
                ops = ops @ prune_ops h evidencePoint m;
                pruned = pruned + 1
            in if pruned mod 1000 = 0
               then (case flush (io pruned) ops h bs of
                       (bs', ok) \<Rightarrow> if ok then prune_loop io state target hs bs' [] pruned evidencePoint
                                    else Some (bs', Inl WriteFailed))
               else prune_loop io state target hs bs ops pruned evidencePoint)
     }"

definition PruneBlocks ::
  "(nat \<Rightarrow> bool) \<Rightarrow> BlockStore \<Rightarrow> int \<Rightarrow> ChainState \<Rightarrow> (BlockStore \<times> (prune_error + (nat \<times> int))) option" where
  "PruneBlocks io bs h state =
     (if h \<le> 0 then Some (bs, Inl HeightNotPositive)
      else if h > bs_height bs then Some (bs, Inl BeyondLatestHeight)
      else if h < bs_base bs then Some (bs, Inl BelowBaseHeight)
      else prune_loop io state h [bs_base bs..h - 1] bs [] 0 h)"

text \<open>The new store and whether the write succeeded; the height is lowered in memory either way.\<close>

definition DeleteLatestBlock :: "bool \<Rightarrow> BlockStore \<Rightarrow> (BlockStore \<times> bool) option" where
  "DeleteLatestBlock io bs =
     (let target = bs_height bs
      in do {
        meta \<leftarrow> LoadBlockMeta bs target;
        let ops = (case meta of None \<Rightarrow> []
                   | Some m \<Rightarrow> (calcBlockHashKey (bid_Hash (bm_BlockID m)), None) # delete_parts target m) @
                  [(calcBlockCommitKey target, None), (calcSeenCommitKey target, None), (calcBlockMetaKey target, None)];
        let bs' = bs\<lparr>bs_height := wrap64 (target - 1)\<rparr>;
        Some (case saveStateAndWriteDB io ops bs' of None \<Rightarrow> (bs', False) | Some bs'' \<Rightarrow> (bs'', True))
      })"

section \<open>Keys are distinct\<close>

lemma show_int_inj [simp]: "show_int a = show_int b \<longleftrightarrow> a = b"
proof
  assume eq: "show_int a = show_int b"
  have dash: "show_nat m \<noteq> CHR ''-'' # cs" for m cs
  proof
    assume "show_nat m = CHR ''-'' # cs"
    then have "is_digit_char CHR ''-''" using show_nat_digits [of m] by simp
    then show False by (simp add: is_digit_char_def)
  qed
  have nat: "show_nat m = show_nat n \<Longrightarrow> m = n" for m n using dec_val_show_nat by metis
  show "a = b"
  proof (cases "a < 0"; cases "b < 0")
    assume "a < 0" "b < 0"
    then show ?thesis using eq nat [of "nat (- a)" "nat (- b)"] by (simp add: show_int_def)
  next
    assume "\<not> a < 0" "\<not> b < 0"
    then show ?thesis using eq nat [of "nat a" "nat b"] by (simp add: show_int_def)
  qed (use eq dash in \<open>simp_all add: show_int_def, metis+\<close>)
qed simp

lemma calcBlockMetaKey_inj [simp]: "calcBlockMetaKey a = calcBlockMetaKey b \<longleftrightarrow> a = b"
  by (simp add: calcBlockMetaKey_def)

lemmas key_defs = calcBlockMetaKey_def calcBlockPartKey_def calcBlockCommitKey_def calcSeenCommitKey_def
  calcExtCommitKey_def calcBlockHashKey_def

lemma meta_key_distinct [simp]:
  "calcBlockMetaKey a \<noteq> calcBlockPartKey b c" "calcBlockMetaKey a \<noteq> calcBlockCommitKey b" "calcBlockMetaKey a \<noteq> calcSeenCommitKey b"
  "calcBlockMetaKey a \<noteq> calcExtCommitKey b" "calcBlockMetaKey a \<noteq> calcBlockHashKey x" "calcBlockMetaKey a \<noteq> blockStoreKey"
  by (simp_all add: key_defs)

lemma db_write_Nil [simp]: "db_write [] m = m"
  by (simp add: db_write_def)

lemma db_write_Cons [simp]: "db_write ((k, v) # ops) m = db_write ops (m(k := v))"
  by (simp add: db_write_def)

lemma db_write_append [simp]: "db_write (a @ b) m = db_write b (db_write a m)"
  by (simp add: db_write_def)

lemma db_write_other: "k \<notin> fst ` set ops \<Longrightarrow> db_write ops m k = m k"
  by (induction ops arbitrary: m) auto

lemma part_ops_meta: "calcBlockMetaKey a \<notin> fst ` set (part_ops h parts)"
  by (auto simp: part_ops_def)

text \<open>What saving a block does to the entries for headers.\<close>

lemma saveBlockToBatch_meta:
  assumes "saveBlockToBatch ce H eo bsize bs block ps seenc = Some (m, ops)"
  shows "\<exists>meta. Block_Hash ce H eo (Some block) = Some (bid_Hash (bm_BlockID meta)) \<and>
    db_write ops m (calcBlockMetaKey h) =
      (if h = hdr_Height (blk_Header block) then Some (VMeta meta) else bs_db bs (calcBlockMetaKey h))"
proof -
  obtain hash parts meta lc where r: "Block_Hash ce H eo (Some block) = Some hash" "NewBlockMeta ce H eo bsize block ps = Some meta"
    "m = (if ps_count ps \<le> maxBlockPartsToBatch then bs_db bs else db_write (part_ops (hdr_Height (blk_Header block)) parts) (bs_db bs))"
    "ops = (if ps_count ps \<le> maxBlockPartsToBatch then part_ops (hdr_Height (blk_Header block)) parts else []) @
       [(calcBlockMetaKey (hdr_Height (blk_Header block)), Some (VMeta meta)), (calcBlockHashKey hash, Some (VHeight (hdr_Height (blk_Header block)))),
        (calcBlockCommitKey (wrap64 (hdr_Height (blk_Header block) - 1)), Some (VCommit lc)),
        (calcSeenCommitKey (hdr_Height (blk_Header block)), Some (VCommit seenc))]"
    using assms by (auto simp: saveBlockToBatch_def Let_def split: bind_splits if_splits)
  have "bid_Hash (bm_BlockID meta) = hash" using r(1,2) by (auto simp: NewBlockMeta_def split: bind_splits if_splits)
  then show ?thesis
    using r by (intro exI [of _ meta]) (auto simp: db_write_other part_ops_meta)
qed

lemma SaveBlock_meta:
  assumes "SaveBlock ce H eo bsize io bs (Some block) ps seenc = Some bs'"
  shows "\<exists>meta. Block_Hash ce H eo (Some block) = Some (bid_Hash (bm_BlockID meta)) \<and>
    bs_db bs' (calcBlockMetaKey h) =
      (if h = hdr_Height (blk_Header block) then Some (VMeta meta) else bs_db bs (calcBlockMetaKey h))"
proof -
  obtain m ops where r: "saveBlockToBatch ce H eo bsize bs block ps seenc = Some (m, ops)"
    using assms by (auto simp: SaveBlock_def split: bind_splits)
  then have "bs_db bs' = db_write (ops @ [(blockStoreKey, Some (VState (bs_base bs') (bs_height bs')))]) m"
    using assms by (auto simp: SaveBlock_def saveStateAndWriteDB_def advance_def split: if_splits)
  then show ?thesis using saveBlockToBatch_meta [OF r, of h] by auto
qed

lemma SaveBlockWithExtendedCommit_meta:
  assumes "SaveBlockWithExtendedCommit ce H eo bsize io bs (Some block) ps ec = Some bs'"
  shows "\<exists>meta. Block_Hash ce H eo (Some block) = Some (bid_Hash (bm_BlockID meta)) \<and>
    bs_db bs' (calcBlockMetaKey h) =
      (if h = hdr_Height (blk_Header block) then Some (VMeta meta) else bs_db bs (calcBlockMetaKey h))"
proof -
  obtain m ops where r: "saveBlockToBatch ce H eo bsize bs block ps (ToCommit ec) = Some (m, ops)"
    using assms by (auto simp: SaveBlockWithExtendedCommit_def split: bind_splits if_splits)
  then have "bs_db bs' = db_write (ops @ [(calcExtCommitKey (hdr_Height (blk_Header block)), Some (VExtCommit ec)),
       (blockStoreKey, Some (VState (bs_base bs') (bs_height bs')))]) m"
    using assms by (auto simp: SaveBlockWithExtendedCommit_def saveStateAndWriteDB_def advance_def Let_def split: if_splits)
  then show ?thesis using saveBlockToBatch_meta [OF r, of h] by auto
qed

end
