(* ===== verification/Consensus_State.thy ===== *)
theory Consensus_State
  imports Block_Store Height_Vote_Set Privval
begin

text \<open>
  The consensus state machine: \<open>consensus/state.go\<close>, \<open>consensus/types/round_state.go\<close>, the timeouts of
  \<open>config/config.go\<close> and the signing of votes in \<open>types/vote.go\<close>.

  A handler is a function from the state to the state, \<open>None\<close> if it panics, which stops the node. What
  a handler sends, schedules or reports is appended to the list \<open>cs_out\<close>. What the handlers ask of other
  parts of the program and of its surroundings while they process one event is the record \<open>cs_env\<close>: the
  clock, the outcome of writes, the application, the mempool and the evidence pool. Part sets are
  values: the code shares one object between the proposal, locked and valid block, but adding a part
  changes neither the header nor a complete set. Metrics, logging and the publication of events, which
  fails only while the node shuts down, have no effect on the state and are left out.
\<close>

section \<open>Configuration\<close>

record ConsensusConfig =
  TimeoutPropose :: int
  TimeoutProposeDelta :: int
  TimeoutPrevote :: int
  TimeoutPrevoteDelta :: int
  TimeoutPrecommit :: int
  TimeoutPrecommitDelta :: int
  TimeoutCommit :: int
  SkipTimeoutCommit :: bool
  CreateEmptyBlocks :: bool
  CreateEmptyBlocksInterval :: int
  PeerGossipSleepDuration :: int
  PeerQueryMaj23SleepDuration :: int
  DoubleSignCheckHeight :: int

definition DefaultConsensusConfig :: ConsensusConfig where
  "DefaultConsensusConfig =
     \<lparr>TimeoutPropose = 3000000000, TimeoutProposeDelta = 500000000, TimeoutPrevote = 1000000000,
      TimeoutPrevoteDelta = 500000000, TimeoutPrecommit = 1000000000, TimeoutPrecommitDelta = 500000000,
      TimeoutCommit = 1000000000, SkipTimeoutCommit = False, CreateEmptyBlocks = True, CreateEmptyBlocksInterval = 0,
      PeerGossipSleepDuration = 100000000, PeerQueryMaj23SleepDuration = 2000000000, DoubleSignCheckHeight = 0\<rparr>"

definition WaitForTxs :: "ConsensusConfig \<Rightarrow> bool" where
  "WaitForTxs cfg \<longleftrightarrow> \<not> CreateEmptyBlocks cfg \<or> CreateEmptyBlocksInterval cfg > 0"

definition cfg_Propose :: "ConsensusConfig \<Rightarrow> int \<Rightarrow> int" where
  "cfg_Propose cfg r = wrap64 (TimeoutPropose cfg + wrap64 (TimeoutProposeDelta cfg * r))"

definition cfg_Prevote :: "ConsensusConfig \<Rightarrow> int \<Rightarrow> int" where
  "cfg_Prevote cfg r = wrap64 (TimeoutPrevote cfg + wrap64 (TimeoutPrevoteDelta cfg * r))"

definition cfg_Precommit :: "ConsensusConfig \<Rightarrow> int \<Rightarrow> int" where
  "cfg_Precommit cfg r = wrap64 (TimeoutPrecommit cfg + wrap64 (TimeoutPrecommitDelta cfg * r))"

definition cfg_Commit :: "ConsensusConfig \<Rightarrow> timestamp \<Rightarrow> timestamp" where
  "cfg_Commit cfg t = t + TimeoutCommit cfg"

definition cfg_ValidateBasic :: "ConsensusConfig \<Rightarrow> bool" where
  "cfg_ValidateBasic cfg \<longleftrightarrow>
     0 \<le> TimeoutPropose cfg \<and> 0 \<le> TimeoutProposeDelta cfg \<and> 0 \<le> TimeoutPrevote cfg \<and> 0 \<le> TimeoutPrevoteDelta cfg \<and>
     0 \<le> TimeoutPrecommit cfg \<and> 0 \<le> TimeoutPrecommitDelta cfg \<and> 0 \<le> TimeoutCommit cfg \<and>
     0 \<le> CreateEmptyBlocksInterval cfg \<and> 0 \<le> PeerGossipSleepDuration cfg \<and> 0 \<le> PeerQueryMaj23SleepDuration cfg \<and>
     0 \<le> DoubleSignCheckHeight cfg"

section \<open>The state\<close>

abbreviation RoundStepNewHeight :: int where "RoundStepNewHeight \<equiv> 1"
abbreviation RoundStepNewRound :: int where "RoundStepNewRound \<equiv> 2"
abbreviation RoundStepPropose :: int where "RoundStepPropose \<equiv> 3"
abbreviation RoundStepPrevote :: int where "RoundStepPrevote \<equiv> 4"
abbreviation RoundStepPrevoteWait :: int where "RoundStepPrevoteWait \<equiv> 5"
abbreviation RoundStepPrecommit :: int where "RoundStepPrecommit \<equiv> 6"
abbreviation RoundStepPrecommitWait :: int where "RoundStepPrecommitWait \<equiv> 7"
abbreviation RoundStepCommit :: int where "RoundStepCommit \<equiv> 8"

definition RoundStepType_IsValid :: "int \<Rightarrow> bool" where
  "RoundStepType_IsValid s \<longleftrightarrow> 1 \<le> s \<and> s \<le> 8"

definition CompareHRS :: "int \<Rightarrow> int \<Rightarrow> int \<Rightarrow> int \<Rightarrow> int \<Rightarrow> int \<Rightarrow> int" where
  "CompareHRS h1 r1 s1 h2 r2 s2 =
     (if h1 < h2 then -1 else if h1 > h2 then 1
      else if r1 < r2 then -1 else if r1 > r2 then 1
      else if s1 < s2 then -1 else if s1 > s2 then 1
      else 0)"

record 'ev RoundState =
  rs_Height :: int
  rs_Round :: int
  rs_Step :: int
  rs_StartTime :: timestamp
  rs_CommitTime :: timestamp
  rs_Validators :: ValidatorSet
  rs_Proposal :: "Proposal option"
  rs_ProposalBlock :: "'ev Block option"
  rs_ProposalBlockParts :: "PartSet option"
  rs_LockedRound :: int
  rs_LockedBlock :: "'ev Block option"
  rs_LockedBlockParts :: "PartSet option"
  rs_ValidRound :: int
  rs_ValidBlock :: "'ev Block option"
  rs_ValidBlockParts :: "PartSet option"
  rs_Votes :: HeightVoteSet
  rs_CommitRound :: int
  rs_LastCommit :: "VoteSet option"
  rs_LastValidators :: ValidatorSet
  rs_TriggeredTimeoutPrecommit :: bool

record timeoutInfo =
  ti_Duration :: int
  ti_Height :: int
  ti_Round :: int
  ti_Step :: int

text \<open>A nil part is sent if a part set has a gap.\<close>

datatype cs_message = ProposalMessage Proposal | BlockPartMessage int int "Part option" | VoteMessage Vote

text \<open>Messages to the node itself, which the reactor also sends to the peers, scheduled timeouts, fired
  events and reports.\<close>

datatype cs_output =
    SendInternal cs_message
  | ScheduleTimeout timeoutInfo
  | EventNewRoundStep int int int
  | EventVote Vote
  | ReportConflictingVotes Vote Vote
  | StatsMessage cs_message bytes

text \<open>\<open>cs_started\<close> says that \<open>updateToState\<close> has run: before, \<open>cs.state\<close> is empty and \<open>cs.Votes\<close> nil.\<close>

record 'ev ConsensusState = "'ev RoundState" +
  cs_state :: ChainState
  cs_started :: bool
  privValidator :: "(FilePV \<times> pv_disk) option"
  privValidatorPubKey :: "PubKey option"
  blockStore :: BlockStore
  cs_out :: "cs_output list"

type_synonym 'ev handler = "'ev ConsensusState \<Rightarrow> 'ev ConsensusState option"

record 'ev cs_env =
  en_ext :: ext_env
  en_batch :: batch_lib
  en_hash :: "bytes \<Rightarrow> bytes"
  en_evidence :: "'ev evidence_ops"
  en_marshal :: "'ev Block \<Rightarrow> bytes option"
  en_unmarshal :: "bytes \<Rightarrow> 'ev Block option"
  en_config :: ConsensusConfig
  en_now :: timestamp
  en_sign :: "bytes \<Rightarrow> bytes option"
  en_decodeTime :: "bytes \<Rightarrow> int option"
  en_pvWrite :: bool
  en_walFlush :: bool
  en_walSync :: bool
  en_dbWrite :: bool
  en_checkEvidence :: "'ev list \<Rightarrow> bool"
  en_pendingEvidence :: "int \<Rightarrow> 'ev list \<times> int"
  en_reap :: "int \<Rightarrow> int \<Rightarrow> bytes list"
  en_prepareProposal :: "ExtendedCommit \<Rightarrow> int \<Rightarrow> 'ev Block \<Rightarrow> bytes list option"
  en_processProposal :: "ChainState \<Rightarrow> 'ev Block \<Rightarrow> bool option"
  en_extendVote :: "ChainState \<Rightarrow> Vote \<Rightarrow> 'ev Block \<Rightarrow> bytes option"
  en_verifyExtension :: "Vote \<Rightarrow> bool option"
  en_exec :: "'ev exec_env"

abbreviation en_pv :: "'ev cs_env \<Rightarrow> pv_env" where
  "en_pv en \<equiv> \<lparr>pe_ext = en_ext en, pe_sign = en_sign en, pe_time = en_decodeTime en, pe_now = en_now en, pe_io = en_pvWrite en\<rparr>"

abbreviation en_Hash :: "'ev cs_env \<Rightarrow> 'ev Block option \<Rightarrow> bytes option" where
  "en_Hash en \<equiv> Block_Hash (en_ext en) (en_hash en) (en_evidence en)"

abbreviation en_HashesTo :: "'ev cs_env \<Rightarrow> 'ev Block option \<Rightarrow> bytes \<Rightarrow> bool option" where
  "en_HashesTo en \<equiv> HashesTo (en_ext en) (en_hash en) (en_evidence en)"

abbreviation en_bsize :: "'ev cs_env \<Rightarrow> 'ev Block \<Rightarrow> int" where
  "en_bsize en b \<equiv> (case en_marshal en b of None \<Rightarrow> 0 | Some bz \<Rightarrow> int (length bz))"

definition emit :: "cs_output \<Rightarrow> 'ev ConsensusState \<Rightarrow> 'ev ConsensusState" where
  "emit out cs = cs\<lparr>cs_out := cs_out cs @ [out]\<rparr>"

definition updateRoundStep :: "int \<Rightarrow> int \<Rightarrow> 'ev ConsensusState \<Rightarrow> 'ev ConsensusState" where
  "updateRoundStep r s cs = cs\<lparr>rs_Round := r, rs_Step := s\<rparr>"

definition newStep :: "'ev ConsensusState \<Rightarrow> 'ev ConsensusState" where
  "newStep cs = emit (EventNewRoundStep (rs_Height cs) (rs_Round cs) (rs_Step cs)) cs"

definition scheduleTimeout :: "int \<Rightarrow> int \<Rightarrow> int \<Rightarrow> int \<Rightarrow> 'ev ConsensusState \<Rightarrow> 'ev ConsensusState" where
  "scheduleTimeout dur h r s cs = emit (ScheduleTimeout \<lparr>ti_Duration = dur, ti_Height = h, ti_Round = r, ti_Step = s\<rparr>) cs"

definition scheduleRound0 :: "'ev cs_env \<Rightarrow> 'ev ConsensusState \<Rightarrow> 'ev ConsensusState" where
  "scheduleRound0 en cs = scheduleTimeout (time_sub (rs_StartTime cs) (en_now en)) (rs_Height cs) 0 RoundStepNewHeight cs"

definition sendInternalMessage :: "cs_message \<Rightarrow> 'ev ConsensusState \<Rightarrow> 'ev ConsensusState" where
  "sendInternalMessage m cs = emit (SendInternal m) cs"

definition extensions_at :: "'ev ConsensusState \<Rightarrow> int \<Rightarrow> bool option" where
  "extensions_at cs h = VoteExtensionsEnabled (cp_VoteExtensionsEnableHeight (st_ConsensusParams (cs_state cs))) h"

definition updatePrivValidatorPubKey :: "'ev ConsensusState \<Rightarrow> 'ev ConsensusState" where
  "updatePrivValidatorPubKey cs =
     (case privValidator cs of
        None \<Rightarrow> cs
      | Some (pv, disk) \<Rightarrow> cs\<lparr>privValidatorPubKey := Some (pvk_PubKey (pv_Key pv))\<rparr>)"

definition SetPrivValidator :: "(FilePV \<times> pv_disk) option \<Rightarrow> 'ev ConsensusState \<Rightarrow> 'ev ConsensusState" where
  "SetPrivValidator priv cs = updatePrivValidatorPubKey (cs\<lparr>privValidator := priv\<rparr>)"

section \<open>Signing\<close>

text \<open>The last two components say whether an error is recoverable and whether there is one.\<close>

definition SignAndCheckVote ::
  "pv_env \<Rightarrow> FilePV \<Rightarrow> pv_disk \<Rightarrow> bytes \<Rightarrow> Vote \<Rightarrow> bool \<Rightarrow> (FilePV \<times> pv_disk \<times> Vote \<times> bool \<times> bool) option" where
  "SignAndCheckVote pe pv disk chain vote extEnabled =
     do {
       (pv, disk, v, err) \<leftarrow> signVote pe pv disk chain vote;
       if err \<noteq> None then Some (pv, disk, vote, True, True)
       else let vote = vote\<lparr>vote_Signature := vote_Signature v\<rparr>;
                isPrecommit = (vote_Type vote = PrecommitType);
                isNil = BlockID_IsZero (vote_BlockID vote);
                extSignature = length (vote_ExtensionSignature v) > 0
            in if \<not> isPrecommit \<and> extEnabled then Some (pv, disk, vote, False, True)
               else if extSignature \<and> (\<not> isPrecommit \<or> isNil) then Some (pv, disk, vote, False, True)
               else let vote = vote\<lparr>vote_ExtensionSignature := []\<rparr>
                    in if extEnabled \<and> \<not> extSignature \<and> isPrecommit \<and> \<not> isNil then Some (pv, disk, vote, False, True)
                       else let vote = (if extEnabled then vote\<lparr>vote_ExtensionSignature := vote_ExtensionSignature v\<rparr> else vote)
                            in Some (pv, disk, vote\<lparr>vote_Timestamp := vote_Timestamp v\<rparr>, True, False)
     }"

definition voteTime :: "'ev cs_env \<Rightarrow> 'ev ConsensusState \<Rightarrow> timestamp" where
  "voteTime en cs =
     (let now = en_now en;
          minVoteTime = (case rs_LockedBlock cs of
              Some b \<Rightarrow> hdr_Time (blk_Header b) + 1000000
            | None \<Rightarrow> (case rs_ProposalBlock cs of
                  Some b \<Rightarrow> hdr_Time (blk_Header b) + 1000000
                | None \<Rightarrow> now))
      in if now > minVoteTime then now else minVoteTime)"

definition ExtendVote :: "'ev cs_env \<Rightarrow> ChainState \<Rightarrow> Vote \<Rightarrow> 'ev Block option \<Rightarrow> bytes option" where
  "ExtendVote en state vote p =
     do {
       same \<leftarrow> en_HashesTo en p (bid_Hash (vote_BlockID vote));
       if \<not> same then None
       else do {
         block \<leftarrow> p;
         if vote_Height vote \<noteq> hdr_Height (blk_Header block) then None else en_extendVote en state vote block
       }
     }"

text \<open>The new state and the vote, \<open>None\<close> if there is an error; an error that is not recoverable is a
  panic.\<close>

definition cs_signVote ::
  "'ev cs_env \<Rightarrow> int \<Rightarrow> bytes \<Rightarrow> PartSetHeader \<Rightarrow> 'ev Block option \<Rightarrow> 'ev ConsensusState \<Rightarrow> ('ev ConsensusState \<times> Vote option) option" where
  "cs_signVote en msgType hash header block cs =
     (if \<not> en_walFlush en then Some (cs, None)
      else case privValidatorPubKey cs of
        None \<Rightarrow> Some (cs, None)
      | Some pk \<Rightarrow> do {
          let addr = pkAddress (en_ext en) pk;
          let valIdx = fst (GetByAddress (rs_Validators cs) addr);
          let vote = \<lparr>vote_Type = msgType, vote_Height = rs_Height cs, vote_Round = rs_Round cs,
                      vote_BlockID = \<lparr>bid_Hash = hash, bid_PartSetHeader = header\<rparr>, vote_Timestamp = voteTime en cs,
                      vote_ValidatorAddress = addr, vote_ValidatorIndex = valIdx, vote_Signature = [],
                      vote_Extension = [], vote_ExtensionSignature = []\<rparr>;
          extEnabled \<leftarrow> extensions_at cs (vote_Height vote);
          vote \<leftarrow> (if msgType = PrecommitType \<and> \<not> BlockID_IsZero (vote_BlockID vote) \<and> extEnabled
                   then do { ext \<leftarrow> ExtendVote en (cs_state cs) vote block; Some (vote\<lparr>vote_Extension := ext\<rparr>) }
                   else Some vote);
          (pv, disk) \<leftarrow> privValidator cs;
          (pv, disk, vote, recoverable, err) \<leftarrow>
            SignAndCheckVote (en_pv en) pv disk (st_ChainID (cs_state cs)) vote (extEnabled \<and> msgType = PrecommitType);
          if err \<and> \<not> recoverable then None
          else Some (cs\<lparr>privValidator := Some (pv, disk)\<rparr>, if err then None else Some vote)
        })"

definition signAddVote :: "'ev cs_env \<Rightarrow> int \<Rightarrow> bytes \<Rightarrow> PartSetHeader \<Rightarrow> 'ev Block option \<Rightarrow> 'ev handler" where
  "signAddVote en msgType hash header block cs =
     (if privValidator cs = None then Some cs
      else case privValidatorPubKey cs of
        None \<Rightarrow> Some cs
      | Some pk \<Rightarrow>
          if \<not> HasAddress (rs_Validators cs) (pkAddress (en_ext en) pk) then Some cs
          else do {
            (cs, r) \<leftarrow> cs_signVote en msgType hash header block cs;
            (case r of
               None \<Rightarrow> Some cs
             | Some vote \<Rightarrow> do {
                 let hasExt = length (vote_ExtensionSignature vote) > 0;
                 extEnabled \<leftarrow> extensions_at cs (vote_Height vote);
                 if vote_Type vote = PrecommitType \<and> \<not> BlockID_IsZero (vote_BlockID vote) \<and> hasExt \<noteq> extEnabled then None
                 else Some (sendInternalMessage (VoteMessage vote) cs)
               })
          })"

abbreviation signAddNil :: "'ev cs_env \<Rightarrow> int \<Rightarrow> 'ev handler" where
  "signAddNil en msgType \<equiv> signAddVote en msgType [] \<lparr>psh_Total = 0, psh_Hash = []\<rparr> None"

section \<open>Block execution\<close>

definition ValidateBlock :: "'ev cs_env \<Rightarrow> ChainState \<Rightarrow> 'ev Block \<Rightarrow> bool option" where
  "ValidateBlock en state block =
     do {
       v \<leftarrow> validateBlock (en_ext en) (en_batch en) (en_hash en) (en_evidence en) state block;
       Some (v = None \<and> en_checkEvidence en (blk_Evidence block))
     }"

text \<open>An error is a panic of the caller.\<close>

definition CreateProposalBlock ::
  "'ev cs_env \<Rightarrow> int \<Rightarrow> ChainState \<Rightarrow> ExtendedCommit \<Rightarrow> bytes \<Rightarrow> 'ev Block option" where
  "CreateProposalBlock en h state lastExtCommit proposerAddr =
     do {
       let params = st_ConsensusParams state;
       let emptyMaxBytes = (cp_MaxBytes params = -1);
       let maxBytes = (if emptyMaxBytes then MaxBlockSizeBytes else cp_MaxBytes params);
       let (evidence, evSize) = en_pendingEvidence en (cp_EvidenceMaxBytes params);
       maxDataBytes \<leftarrow> MaxDataBytes maxBytes evSize (Size (st_Validators state));
       let txs = en_reap en (if emptyMaxBytes then -1 else maxDataBytes) (cp_MaxGas params);
       let commit = ToCommit lastExtCommit;
       block \<leftarrow> MakeBlock (en_ext en) (en_hash en) (en_evidence en) state h txs commit evidence proposerAddr;
       txl \<leftarrow> en_prepareProposal en lastExtCommit maxDataBytes block;
       if \<not> Txs_Validate txl maxDataBytes then None
       else MakeBlock (en_ext en) (en_hash en) (en_evidence en) state h txl commit evidence proposerAddr
     }"

section \<open>Moving to a height\<close>

definition votesFromSeenCommit :: "ext_env \<Rightarrow> ChainState \<Rightarrow> 'ev ConsensusState \<Rightarrow> ('ev ConsensusState \<times> VoteSet) option" where
  "votesFromSeenCommit ce state cs =
     do {
       (bs, c) \<leftarrow> LoadSeenCommit (blockStore cs) (st_LastBlockHeight state);
       (bs, c) \<leftarrow> (if c = None then LoadBlockCommit bs (st_LastBlockHeight state) else Some (bs, c));
       commit \<leftarrow> c;
       if com_Height commit \<noteq> st_LastBlockHeight state then None
       else do {
         vs \<leftarrow> ToVoteSet ce commit (st_ChainID state) (st_LastValidators state);
         if \<not> HasTwoThirdsMajority (Some vs) then None else Some (cs\<lparr>blockStore := bs\<rparr>, vs)
       }
     }"

definition votesFromExtendedCommit :: "ext_env \<Rightarrow> ChainState \<Rightarrow> 'ev ConsensusState \<Rightarrow> ('ev ConsensusState \<times> VoteSet) option" where
  "votesFromExtendedCommit ce state cs =
     do {
       (bs, c) \<leftarrow> LoadBlockExtendedCommit (blockStore cs) (st_LastBlockHeight state);
       ec \<leftarrow> c;
       if ec_Height ec \<noteq> st_LastBlockHeight state then None
       else do {
         vs \<leftarrow> ToExtendedVoteSet ce ec (st_ChainID state) (st_LastValidators state);
         if \<not> HasTwoThirdsMajority (Some vs) then None else Some (cs\<lparr>blockStore := bs\<rparr>, vs)
       }
     }"

definition reconstructSeenCommit :: "ext_env \<Rightarrow> ChainState \<Rightarrow> 'ev handler" where
  "reconstructSeenCommit ce state cs =
     do { (cs, vs) \<leftarrow> votesFromSeenCommit ce state cs; Some (cs\<lparr>rs_LastCommit := Some vs\<rparr>) }"

definition reconstructLastCommit :: "ext_env \<Rightarrow> ChainState \<Rightarrow> 'ev handler" where
  "reconstructLastCommit ce state cs =
     do {
       enabled \<leftarrow> VoteExtensionsEnabled (cp_VoteExtensionsEnableHeight (st_ConsensusParams state)) (st_LastBlockHeight state);
       if \<not> enabled then reconstructSeenCommit ce state cs
       else do { (cs, vs) \<leftarrow> votesFromExtendedCommit ce state cs; Some (cs\<lparr>rs_LastCommit := Some vs\<rparr>) }
     }"

text \<open>The new value of \<open>LastCommit\<close>.\<close>

definition next_last_commit :: "ChainState \<Rightarrow> 'ev ConsensusState \<Rightarrow> VoteSet option option" where
  "next_last_commit state cs =
     (if st_LastBlockHeight state = 0 then Some None
      else if rs_CommitRound cs > -1 \<and> cs_started cs
      then (let precommits = Precommits (rs_Votes cs) (rs_CommitRound cs)
            in if \<not> HasTwoThirdsMajority precommits then None else Some precommits)
      else if rs_LastCommit cs = None then None
      else Some (rs_LastCommit cs))"

definition reset_to_height :: "'ev cs_env \<Rightarrow> ChainState \<Rightarrow> VoteSet option \<Rightarrow> 'ev handler" where
  "reset_to_height en state lastCommit cs =
     do {
       let h = wrap64 (st_LastBlockHeight state + 1);
       let h = (if h = 1 then st_InitialHeight state else h);
       let startTime = cfg_Commit (en_config en) (if rs_CommitTime cs = 0 then en_now en else rs_CommitTime cs);
       enabled \<leftarrow> VoteExtensionsEnabled (cp_VoteExtensionsEnableHeight (st_ConsensusParams state)) h;
       votes \<leftarrow> (if enabled then NewExtendedHeightVoteSet (st_ChainID state) h (st_Validators state)
                else NewHeightVoteSet (st_ChainID state) h (st_Validators state));
       Some (newStep (cs\<lparr>rs_Height := h, rs_Round := 0, rs_Step := RoundStepNewHeight, rs_StartTime := startTime,
         rs_Validators := st_Validators state, rs_Proposal := None, rs_ProposalBlock := None, rs_ProposalBlockParts := None,
         rs_LockedRound := -1, rs_LockedBlock := None, rs_LockedBlockParts := None,
         rs_ValidRound := -1, rs_ValidBlock := None, rs_ValidBlockParts := None, rs_Votes := votes,
         rs_CommitRound := -1, rs_LastCommit := lastCommit, rs_LastValidators := st_LastValidators state,
         rs_TriggeredTimeoutPrecommit := False, cs_state := state, cs_started := True\<rparr>))
     }"

definition updateToState :: "'ev cs_env \<Rightarrow> ChainState \<Rightarrow> 'ev handler" where
  "updateToState en state cs =
     (if rs_CommitRound cs > -1 \<and> 0 < rs_Height cs \<and> rs_Height cs \<noteq> st_LastBlockHeight state then None
      else if cs_started cs \<and> st_LastBlockHeight (cs_state cs) > 0 \<and>
              wrap64 (st_LastBlockHeight (cs_state cs) + 1) \<noteq> rs_Height cs then None
      else if cs_started cs \<and> st_LastBlockHeight (cs_state cs) > 0 \<and>
              rs_Height cs = st_InitialHeight (cs_state cs) then None
      else if cs_started cs \<and> st_LastBlockHeight state \<le> st_LastBlockHeight (cs_state cs) then Some (newStep cs)
      else do {
        lastCommit \<leftarrow> next_last_commit state cs;
        reset_to_height en state lastCommit cs
      })"

definition zero_hvs :: "ValidatorSet \<Rightarrow> HeightVoteSet" where
  "zero_hvs vals = \<lparr>hvs_chainID = [], hvs_height = 0, hvs_valSet = vals, hvs_extensionsEnabled = False, hvs_round = 0,
     roundVoteSets = Map.empty, peerCatchupRounds = (\<lambda>_. [])\<rparr>"

text \<open>The zero value of \<open>RoundState\<close>; its nil validators, votes and state are not looked at.\<close>

definition zero_state :: "ChainState \<Rightarrow> BlockStore \<Rightarrow> 'ev ConsensusState" where
  "zero_state state bs =
     \<lparr>rs_Height = 0, rs_Round = 0, rs_Step = 0, rs_StartTime = 0, rs_CommitTime = 0, rs_Validators = st_Validators state,
      rs_Proposal = None, rs_ProposalBlock = None, rs_ProposalBlockParts = None, rs_LockedRound = 0, rs_LockedBlock = None,
      rs_LockedBlockParts = None, rs_ValidRound = 0, rs_ValidBlock = None, rs_ValidBlockParts = None,
      rs_Votes = zero_hvs (st_Validators state), rs_CommitRound = 0, rs_LastCommit = None,
      rs_LastValidators = st_LastValidators state, rs_TriggeredTimeoutPrecommit = False, cs_state = state,
      cs_started = False, privValidator = None, privValidatorPubKey = None, blockStore = bs, cs_out = []\<rparr>"

definition NewState :: "'ev cs_env \<Rightarrow> ChainState \<Rightarrow> BlockStore \<Rightarrow> int \<Rightarrow> 'ev ConsensusState option" where
  "NewState en state bs offlineStateSyncHeight =
     do {
       cs \<leftarrow> (if st_LastBlockHeight state > 0
              then (if offlineStateSyncHeight \<noteq> 0 then reconstructSeenCommit (en_ext en) state (zero_state state bs)
                    else reconstructLastCommit (en_ext en) state (zero_state state bs))
              else Some (zero_state state bs));
       updateToState en state cs
     }"

text \<open>The loop over the past heights, with the store, whose cache changes; the result says whether a
  signature was found.\<close>

fun signed_before :: "bytes \<Rightarrow> int list \<Rightarrow> BlockStore \<Rightarrow> (BlockStore \<times> bool) option" where
  "signed_before addr [] bs = Some (bs, False)"
| "signed_before addr (h # hs) bs =
     do {
       (bs, c) \<leftarrow> LoadSeenCommit bs h;
       (case c of
          None \<Rightarrow> signed_before addr hs bs
        | Some commit \<Rightarrow>
            if list_ex (\<lambda>s. cs_BlockIDFlag s = BlockIDFlagCommit \<and> cs_ValidatorAddress s = addr) (com_Signatures commit)
            then Some (bs, True) else signed_before addr hs bs)
     }"

definition checkDoubleSigningRisk :: "'ev cs_env \<Rightarrow> int \<Rightarrow> 'ev ConsensusState \<Rightarrow> ('ev ConsensusState \<times> bool) option" where
  "checkDoubleSigningRisk en h cs =
     (let n = DoubleSignCheckHeight (en_config en)
      in case privValidatorPubKey cs of
           Some pk \<Rightarrow>
             if privValidator cs \<noteq> None \<and> n > 0 \<and> h > 0
             then do {
               (bs, found) \<leftarrow> signed_before (pkAddress (en_ext en) pk) (map (\<lambda>i. h - i) [1..(if n > h then h else n) - 1])
                               (blockStore cs);
               Some (cs\<lparr>blockStore := bs\<rparr>, found)
             }
             else Some (cs, False)
         | None \<Rightarrow> Some (cs, False))"

text \<open>\<open>OnStart\<close> once the write-ahead log has been replayed; a node that finds its own signature does not start.\<close>

definition OnStart :: "'ev cs_env \<Rightarrow> 'ev ConsensusState \<Rightarrow> ('ev ConsensusState \<times> bool) option" where
  "OnStart en cs =
     do {
       (cs, found) \<leftarrow> checkDoubleSigningRisk en (rs_Height cs) cs;
       Some (if found then (cs, False) else (scheduleRound0 en cs, True))
     }"

definition cs_LoadCommit :: "int \<Rightarrow> 'ev ConsensusState \<Rightarrow> ('ev ConsensusState \<times> Commit option) option" where
  "cs_LoadCommit h cs =
     do {
       (bs, c) \<leftarrow> (if h = bs_height (blockStore cs) then LoadSeenCommit (blockStore cs) h else LoadBlockCommit (blockStore cs) h);
       Some (cs\<lparr>blockStore := bs\<rparr>, c)
     }"

section \<open>The steps of a round\<close>

text \<open>The guard that the entry functions share: the arguments are behind the state.\<close>

definition behind :: "int \<Rightarrow> int \<Rightarrow> int \<Rightarrow> 'ev ConsensusState \<Rightarrow> bool" where
  "behind h r step cs \<longleftrightarrow> rs_Height cs \<noteq> h \<or> r < rs_Round cs \<or> (rs_Round cs = r \<and> step \<le> rs_Step cs)"

definition isProposalComplete :: "'ev ConsensusState \<Rightarrow> bool" where
  "isProposalComplete cs =
     (case rs_Proposal cs of
        None \<Rightarrow> False
      | Some proposal \<Rightarrow>
          if rs_ProposalBlock cs = None then False
          else if prop_POLRound proposal < 0 then True
          else HasTwoThirdsMajority (Prevotes (rs_Votes cs) (prop_POLRound proposal)))"

definition defaultDoPrevote :: "'ev cs_env \<Rightarrow> 'ev handler" where
  "defaultDoPrevote en cs =
     (if rs_LockedBlock cs \<noteq> None
      then do {
        hash \<leftarrow> en_Hash en (rs_LockedBlock cs);
        signAddVote en PrevoteType hash (PartSet_Header (rs_LockedBlockParts cs)) None cs
      }
      else case rs_ProposalBlock cs of
        None \<Rightarrow> signAddNil en PrevoteType cs
      | Some block \<Rightarrow> do {
          valid \<leftarrow> ValidateBlock en (cs_state cs) block;
          if \<not> valid then signAddNil en PrevoteType cs
          else do {
            isAppValid \<leftarrow> en_processProposal en (cs_state cs) block;
            if \<not> isAppValid then signAddNil en PrevoteType cs
            else do {
              hash \<leftarrow> en_Hash en (Some block);
              signAddVote en PrevoteType hash (PartSet_Header (rs_ProposalBlockParts cs)) None cs
            }
          }
        })"

definition enterPrevote :: "'ev cs_env \<Rightarrow> int \<Rightarrow> int \<Rightarrow> 'ev handler" where
  "enterPrevote en h r cs =
     (if behind h r RoundStepPrevote cs then Some cs
      else do {
        cs \<leftarrow> defaultDoPrevote en cs;
        Some (newStep (updateRoundStep r RoundStepPrevote cs))
      })"

text \<open>The block and its parts, \<open>None\<close> on an error.\<close>

definition createProposalBlock :: "'ev cs_env \<Rightarrow> 'ev ConsensusState \<Rightarrow> 'ev Block option option" where
  "createProposalBlock en cs =
     (if privValidator cs = None then Some None
      else do {
        ec \<leftarrow> (if rs_Height cs = st_InitialHeight (cs_state cs)
               then Some (Some \<lparr>ec_Height = 0, ec_Round = 0, ec_BlockID = zeroBlockID, ec_ExtendedSignatures = []\<rparr>)
               else if HasTwoThirdsMajority (rs_LastCommit cs)
               then do {
                 vs \<leftarrow> rs_LastCommit cs;
                 ec \<leftarrow> MakeExtendedCommit (cp_VoteExtensionsEnableHeight (st_ConsensusParams (cs_state cs))) vs;
                 Some (Some ec)
               }
               else Some None);
        (case ec of
           None \<Rightarrow> Some None
         | Some lastExtCommit \<Rightarrow>
             (case privValidatorPubKey cs of
                None \<Rightarrow> Some None
              | Some pk \<Rightarrow> do {
                  block \<leftarrow> CreateProposalBlock en (rs_Height cs) (cs_state cs) lastExtCommit (pkAddress (en_ext en) pk);
                  Some (Some block)
                }))
      })"

definition proposal_parts :: "'ev cs_env \<Rightarrow> 'ev ConsensusState \<Rightarrow> ('ev Block \<times> PartSet option) option option" where
  "proposal_parts en cs =
     (case rs_ValidBlock cs of
        Some block \<Rightarrow> Some (Some (block, rs_ValidBlockParts cs))
      | None \<Rightarrow> do {
          p \<leftarrow> createProposalBlock en cs;
          (case p of
             None \<Rightarrow> Some None
           | Some block \<Rightarrow> do {
               ps \<leftarrow> MakePartSet (en_hash en) (en_marshal en) block 65536;
               Some (map_option (\<lambda>ps. (block, Some ps)) ps)
             })
        })"

fun send_parts :: "int \<Rightarrow> int \<Rightarrow> PartSet \<Rightarrow> nat list \<Rightarrow> 'ev handler" where
  "send_parts h r ps [] cs = Some cs"
| "send_parts h r ps (i # is) cs =
     do {
       part \<leftarrow> GetPart ps (int i);
       send_parts h r ps is (sendInternalMessage (BlockPartMessage h r part) cs)
     }"

text \<open>Only the signature is copied back from the signed message.\<close>

definition defaultDecideProposal :: "'ev cs_env \<Rightarrow> int \<Rightarrow> int \<Rightarrow> 'ev handler" where
  "defaultDecideProposal en h r cs =
     do {
       bp \<leftarrow> proposal_parts en cs;
       (case bp of
          None \<Rightarrow> Some cs
        | Some (block, blockParts) \<Rightarrow> do {
            hash \<leftarrow> en_Hash en (Some block);
            let proposal = \<lparr>prop_Type = ProposalType, prop_Height = h, prop_Round = r, prop_POLRound = rs_ValidRound cs,
              prop_BlockID = \<lparr>bid_Hash = hash, bid_PartSetHeader = PartSet_Header blockParts\<rparr>,
              prop_Timestamp = en_now en, prop_Signature = []\<rparr>;
            (pv, disk) \<leftarrow> privValidator cs;
            (pv, disk, p, err) \<leftarrow> signProposal (en_pv en) pv disk (st_ChainID (cs_state cs)) proposal;
            let cs = cs\<lparr>privValidator := Some (pv, disk)\<rparr>;
            if err \<noteq> None then Some cs
            else do {
              let cs = sendInternalMessage (ProposalMessage (proposal\<lparr>prop_Signature := prop_Signature p\<rparr>)) cs;
              (case blockParts of
                 None \<Rightarrow> Some cs
               | Some ps \<Rightarrow> send_parts (rs_Height cs) (rs_Round cs) ps [0..<ps_total ps] cs)
            }
          })
     }"

definition isProposer :: "bytes \<Rightarrow> 'ev ConsensusState \<Rightarrow> ('ev ConsensusState \<times> bool) option" where
  "isProposer address cs =
     do {
       (vals, p) \<leftarrow> GetProposer (rs_Validators cs);
       proposer \<leftarrow> p;
       Some (cs\<lparr>rs_Validators := vals\<rparr>, Address proposer = address)
     }"

definition maybe_propose :: "'ev cs_env \<Rightarrow> int \<Rightarrow> int \<Rightarrow> 'ev handler" where
  "maybe_propose en h r cs =
     (if privValidator cs = None then Some cs
      else case privValidatorPubKey cs of
        None \<Rightarrow> Some cs
      | Some pk \<Rightarrow>
          let address = pkAddress (en_ext en) pk
          in if \<not> HasAddress (rs_Validators cs) address then Some cs
             else do {
               (cs, mine) \<leftarrow> isProposer address cs;
               if mine then defaultDecideProposal en h r cs else Some cs
             })"

definition enterPropose :: "'ev cs_env \<Rightarrow> int \<Rightarrow> int \<Rightarrow> 'ev handler" where
  "enterPropose en h r cs =
     (if behind h r RoundStepPropose cs then Some cs
      else do {
        cs \<leftarrow> maybe_propose en h r (scheduleTimeout (cfg_Propose (en_config en) r) h r RoundStepPropose cs);
        let cs = newStep (updateRoundStep r RoundStepPropose cs);
        if isProposalComplete cs then enterPrevote en h (rs_Round cs) cs else Some cs
      })"

definition needProofBlock :: "int \<Rightarrow> 'ev ConsensusState \<Rightarrow> bool option" where
  "needProofBlock h cs =
     (if h = st_InitialHeight (cs_state cs) then Some True
      else do {
        meta \<leftarrow> LoadBlockMeta (blockStore cs) (wrap64 (h - 1));
        Some (case meta of None \<Rightarrow> True | Some m \<Rightarrow> st_AppHash (cs_state cs) \<noteq> hdr_AppHash (bm_Header m))
      })"

text \<open>The part of \<open>enterNewRound\<close> that sets up the round.\<close>

definition setup_round :: "int \<Rightarrow> 'ev handler" where
  "setup_round r cs =
     do {
       validators \<leftarrow> (if rs_Round cs < r
         then do { d \<leftarrow> SafeSubInt32 r (rs_Round cs); IncrementProposerPriority (rs_Validators cs) d }
         else Some (rs_Validators cs));
       let cs = (updateRoundStep r RoundStepNewRound cs)\<lparr>rs_Validators := validators\<rparr>;
       (validators, p) \<leftarrow> GetProposer validators;
       proposer \<leftarrow> p;
       pk \<leftarrow> val_PubKey proposer;
       let cs = cs\<lparr>rs_Validators := validators\<rparr>;
       let cs = (if r \<noteq> 0 then cs\<lparr>rs_Proposal := None, rs_ProposalBlock := None, rs_ProposalBlockParts := None\<rparr> else cs);
       r1 \<leftarrow> SafeAddInt32 r 1;
       hvs \<leftarrow> SetRound (rs_Votes cs) r1;
       Some (cs\<lparr>rs_Votes := hvs, rs_TriggeredTimeoutPrecommit := False\<rparr>)
     }"

definition enterNewRound :: "'ev cs_env \<Rightarrow> int \<Rightarrow> int \<Rightarrow> 'ev handler" where
  "enterNewRound en h r cs =
     (if rs_Height cs \<noteq> h \<or> r < rs_Round cs \<or> (rs_Round cs = r \<and> rs_Step cs \<noteq> RoundStepNewHeight) then Some cs
      else do {
        cs \<leftarrow> setup_round r cs;
        waitForTxs \<leftarrow> (if WaitForTxs (en_config en) \<and> r = 0 then map_option Not (needProofBlock h cs) else Some False);
        if waitForTxs
        then Some (if CreateEmptyBlocksInterval (en_config en) > 0
                   then scheduleTimeout (CreateEmptyBlocksInterval (en_config en)) h r RoundStepNewRound cs
                   else cs)
        else enterPropose en h r cs
      })"

definition enterPrevoteWait :: "'ev cs_env \<Rightarrow> int \<Rightarrow> int \<Rightarrow> 'ev handler" where
  "enterPrevoteWait en h r cs =
     (if behind h r RoundStepPrevoteWait cs then Some cs
      else do {
        any \<leftarrow> HasTwoThirdsAny (Prevotes (rs_Votes cs) r);
        if \<not> any then None
        else Some (newStep (updateRoundStep r RoundStepPrevoteWait
               (scheduleTimeout (cfg_Prevote (en_config en) r) h r RoundStepPrevoteWait cs)))
      })"

definition unlock :: "'ev ConsensusState \<Rightarrow> 'ev ConsensusState" where
  "unlock cs = cs\<lparr>rs_LockedRound := -1, rs_LockedBlock := None, rs_LockedBlockParts := None\<rparr>"

text \<open>The body of \<open>enterPrecommit\<close> after a polka for \<open>blockID\<close>.\<close>

definition precommit_polka :: "'ev cs_env \<Rightarrow> int \<Rightarrow> BlockID \<Rightarrow> 'ev handler" where
  "precommit_polka en r blockID cs =
     (if length (bid_Hash blockID) = 0
      then signAddNil en PrecommitType (if rs_LockedBlock cs = None then cs else unlock cs)
      else do {
        locked \<leftarrow> en_HashesTo en (rs_LockedBlock cs) (bid_Hash blockID);
        if locked
        then signAddVote en PrecommitType (bid_Hash blockID) (bid_PartSetHeader blockID) (rs_LockedBlock cs)
               (cs\<lparr>rs_LockedRound := r\<rparr>)
        else do {
          proposed \<leftarrow> en_HashesTo en (rs_ProposalBlock cs) (bid_Hash blockID);
          if proposed
          then do {
            block \<leftarrow> rs_ProposalBlock cs;
            valid \<leftarrow> ValidateBlock en (cs_state cs) block;
            if \<not> valid then None
            else signAddVote en PrecommitType (bid_Hash blockID) (bid_PartSetHeader blockID) (Some block)
                   (cs\<lparr>rs_LockedRound := r, rs_LockedBlock := rs_ProposalBlock cs,
                       rs_LockedBlockParts := rs_ProposalBlockParts cs\<rparr>)
          }
          else let cs = unlock cs
               in signAddNil en PrecommitType
                    (if HasHeader (rs_ProposalBlockParts cs) (bid_PartSetHeader blockID) then cs
                     else cs\<lparr>rs_ProposalBlock := None,
                             rs_ProposalBlockParts := Some (NewPartSetFromHeader (bid_PartSetHeader blockID))\<rparr>)
        }
      })"

definition enterPrecommit :: "'ev cs_env \<Rightarrow> int \<Rightarrow> int \<Rightarrow> 'ev handler" where
  "enterPrecommit en h r cs =
     (if behind h r RoundStepPrecommit cs then Some cs
      else do {
        let (blockID, ok) = TwoThirdsMajority (Prevotes (rs_Votes cs) r);
        cs \<leftarrow> (if \<not> ok then signAddNil en PrecommitType cs
               else if fst (POLInfo (rs_Votes cs)) < r then None
               else precommit_polka en r blockID cs);
        Some (newStep (updateRoundStep r RoundStepPrecommit cs))
      })"

definition enterPrecommitWait :: "'ev cs_env \<Rightarrow> int \<Rightarrow> int \<Rightarrow> 'ev handler" where
  "enterPrecommitWait en h r cs =
     (if rs_Height cs \<noteq> h \<or> r < rs_Round cs \<or> (rs_Round cs = r \<and> rs_TriggeredTimeoutPrecommit cs) then Some cs
      else do {
        any \<leftarrow> HasTwoThirdsAny (Precommits (rs_Votes cs) r);
        if \<not> any then None
        else let cs = scheduleTimeout (cfg_Precommit (en_config en) r) h r RoundStepPrecommitWait cs
             in Some (newStep (cs\<lparr>rs_TriggeredTimeoutPrecommit := True\<rparr>))
      })"

section \<open>Committing\<close>

text \<open>The one way in which \<open>recordMetrics\<close> can stop the node: the last commit and the last validators
  differ in size.\<close>

definition recordMetrics :: "int \<Rightarrow> 'ev Block \<Rightarrow> 'ev ConsensusState \<Rightarrow> unit option" where
  "recordMetrics h block cs =
     (if h > st_InitialHeight (cs_state cs)
      then (case blk_LastCommit block of
              None \<Rightarrow> None
            | Some lc \<Rightarrow> if length (com_Signatures lc) \<noteq> length (Validators (rs_LastValidators cs)) then None else Some ())
      else Some ())"

definition save_committed :: "'ev cs_env \<Rightarrow> 'ev Block \<Rightarrow> PartSet \<Rightarrow> 'ev ConsensusState \<Rightarrow> BlockStore option" where
  "save_committed en block parts cs =
     (let h = hdr_Height (blk_Header block)
      in if bs_height (blockStore cs) < h
         then do {
           vs \<leftarrow> Precommits (rs_Votes cs) (rs_CommitRound cs);
           ec \<leftarrow> MakeExtendedCommit (cp_VoteExtensionsEnableHeight (st_ConsensusParams (cs_state cs))) vs;
           enabled \<leftarrow> extensions_at cs h;
           (if enabled
            then SaveBlockWithExtendedCommit (en_ext en) (en_hash en) (en_evidence en) (en_bsize en) (en_dbWrite en)
                   (blockStore cs) (Some block) parts ec
            else SaveBlock (en_ext en) (en_hash en) (en_evidence en) (en_bsize en) (en_dbWrite en)
                   (blockStore cs) (Some block) parts (ToCommit ec))
         }
         else Some (blockStore cs))"

definition finalizeCommit :: "'ev cs_env \<Rightarrow> int \<Rightarrow> 'ev handler" where
  "finalizeCommit en h cs =
     (if rs_Height cs \<noteq> h \<or> rs_Step cs \<noteq> RoundStepCommit then Some cs
      else do {
        let (blockID, ok) = TwoThirdsMajority (Precommits (rs_Votes cs) (rs_CommitRound cs));
        if \<not> ok then None
        else if \<not> HasHeader (rs_ProposalBlockParts cs) (bid_PartSetHeader blockID) then None
        else do {
          parts \<leftarrow> rs_ProposalBlockParts cs;
          same \<leftarrow> en_HashesTo en (rs_ProposalBlock cs) (bid_Hash blockID);
          if \<not> same then None
          else do {
            block \<leftarrow> rs_ProposalBlock cs;
            valid \<leftarrow> ValidateBlock en (cs_state cs) block;
            if \<not> valid then None
            else do {
              bs \<leftarrow> save_committed en block parts cs;
              let cs = cs\<lparr>blockStore := bs\<rparr>;
              if \<not> en_walSync en then None
              else do {
                hash \<leftarrow> en_Hash en (Some block);
                r \<leftarrow> applyBlock (en_ext en) (en_hash en) (en_exec en) (cs_state cs)
                       \<lparr>bid_Hash = hash, bid_PartSetHeader = PartSet_Header (Some parts)\<rparr> block;
                (case r of
                   Inl e \<Rightarrow> None
                 | Inr state \<Rightarrow> do {
                     u \<leftarrow> recordMetrics h block cs;
                     cs \<leftarrow> updateToState en state cs;
                     Some (scheduleRound0 en (updatePrivValidatorPubKey cs))
                   })
              }
            }
          }
        }
      })"

definition tryFinalizeCommit :: "'ev cs_env \<Rightarrow> int \<Rightarrow> 'ev handler" where
  "tryFinalizeCommit en h cs =
     (if rs_Height cs \<noteq> h then None
      else do {
        let (blockID, ok) = TwoThirdsMajority (Precommits (rs_Votes cs) (rs_CommitRound cs));
        if \<not> ok \<or> length (bid_Hash blockID) = 0 then Some cs
        else do {
          same \<leftarrow> en_HashesTo en (rs_ProposalBlock cs) (bid_Hash blockID);
          if \<not> same then Some cs else finalizeCommit en h cs
        }
      })"

text \<open>The blocks that \<open>enterCommit\<close> sets.\<close>

definition take_commit_block :: "'ev cs_env \<Rightarrow> BlockID \<Rightarrow> 'ev handler" where
  "take_commit_block en blockID cs =
     do {
       locked \<leftarrow> en_HashesTo en (rs_LockedBlock cs) (bid_Hash blockID);
       let cs = (if locked then cs\<lparr>rs_ProposalBlock := rs_LockedBlock cs, rs_ProposalBlockParts := rs_LockedBlockParts cs\<rparr>
                 else cs);
       same \<leftarrow> en_HashesTo en (rs_ProposalBlock cs) (bid_Hash blockID);
       Some (if \<not> same \<and> \<not> HasHeader (rs_ProposalBlockParts cs) (bid_PartSetHeader blockID)
             then cs\<lparr>rs_ProposalBlock := None,
                     rs_ProposalBlockParts := Some (NewPartSetFromHeader (bid_PartSetHeader blockID))\<rparr>
             else cs)
     }"

definition enterCommit :: "'ev cs_env \<Rightarrow> int \<Rightarrow> int \<Rightarrow> 'ev handler" where
  "enterCommit en h commitRound cs =
     (if rs_Height cs \<noteq> h \<or> RoundStepCommit \<le> rs_Step cs then Some cs
      else do {
        let (blockID, ok) = TwoThirdsMajority (Precommits (rs_Votes cs) commitRound);
        if \<not> ok then None
        else do {
          cs \<leftarrow> take_commit_block en blockID cs;
          let cs = (updateRoundStep (rs_Round cs) RoundStepCommit cs)\<lparr>rs_CommitRound := commitRound, rs_CommitTime := en_now en\<rparr>;
          tryFinalizeCommit en h (newStep cs)
        }
      })"

section \<open>Proposals and block parts\<close>

datatype cs_error =
    ErrInvalidProposalPOLRound | ErrInvalidProposalSignature | ErrProposalTooManyParts
  | PartRejected part_error | BlockTooLarge | BlockMalformed
  | PubKeyNotSet | ErrAddingVote | VoteRejected vote_error | RoundUnwanted | ErrInvalidVote
  | ErrInvalidVoteExtension | ExtensionsDisabled

definition max_block_bytes :: "'ev ConsensusState \<Rightarrow> int" where
  "max_block_bytes cs =
     (let m = cp_MaxBytes (st_ConsensusParams (cs_state cs)) in if m = -1 then MaxBlockSizeBytes else m)"

definition defaultSetProposal :: "'ev cs_env \<Rightarrow> Proposal \<Rightarrow> 'ev ConsensusState \<Rightarrow> ('ev ConsensusState \<times> cs_error option) option" where
  "defaultSetProposal en proposal cs =
     (if rs_Proposal cs \<noteq> None then Some (cs, None)
      else if prop_Height proposal \<noteq> rs_Height cs \<or> prop_Round proposal \<noteq> rs_Round cs then Some (cs, None)
      else if prop_POLRound proposal < -1 \<or> (prop_POLRound proposal \<ge> 0 \<and> prop_POLRound proposal \<ge> prop_Round proposal)
      then Some (cs, Some ErrInvalidProposalPOLRound)
      else do {
        (vals, p) \<leftarrow> GetProposer (rs_Validators cs);
        proposer \<leftarrow> p;
        pubKey \<leftarrow> val_PubKey proposer;
        let cs = cs\<lparr>rs_Validators := vals\<rparr>;
        signBytes \<leftarrow> ProposalSignBytes (en_ext en) (st_ChainID (cs_state cs)) proposal;
        if \<not> pkVerify (en_ext en) pubKey signBytes (prop_Signature proposal) then Some (cs, Some ErrInvalidProposalSignature)
        else if int (psh_Total (bid_PartSetHeader (prop_BlockID proposal))) >
                wrap64 (wrap64 (max_block_bytes cs - 1) sdiv BlockPartSizeBytes + 1)
        then Some (cs, Some ErrProposalTooManyParts)
        else let cs = cs\<lparr>rs_Proposal := Some proposal\<rparr>
             in Some (if rs_ProposalBlockParts cs = None
                      then cs\<lparr>rs_ProposalBlockParts := Some (NewPartSetFromHeader (bid_PartSetHeader (prop_BlockID proposal)))\<rparr>
                      else cs, None)
      })"

text \<open>\<open>io.ReadAll\<close> on the reader of the set: what it returns does not depend on the sizes of its buffers.\<close>

definition read_all :: "PartSet \<Rightarrow> bytes option" where
  "read_all ps =
     do {
       rd \<leftarrow> GetReader ps;
       (rd', bz, eof) \<leftarrow> Read rd (length (remaining rd) + 1);
       Some bz
     }"

text \<open>\<open>proto.Unmarshal\<close> and \<open>BlockFromProto\<close>, whose last act is to validate the block; \<open>None\<close> inside is an
  error.\<close>

definition decode_block :: "'ev cs_env \<Rightarrow> bytes \<Rightarrow> 'ev Block option option" where
  "decode_block en bz =
     (case en_unmarshal en bz of
        None \<Rightarrow> Some None
      | Some block \<Rightarrow> do {
          err \<leftarrow> Block_ValidateBasic (en_ext en) (en_hash en) (en_evidence en) block;
          Some (if err = None then Some block else None)
        })"

definition addProposalBlockPart ::
  "'ev cs_env \<Rightarrow> int \<Rightarrow> Part option \<Rightarrow> 'ev ConsensusState \<Rightarrow> ('ev ConsensusState \<times> bool \<times> cs_error option) option" where
  "addProposalBlockPart en h p cs =
     (if rs_Height cs \<noteq> h then Some (cs, False, None)
      else if rs_ProposalBlockParts cs = None then Some (cs, False, None)
      else do {
        part \<leftarrow> p;
        (parts, added, err) \<leftarrow> AddPart (en_hash en) (rs_ProposalBlockParts cs) part;
        let cs = cs\<lparr>rs_ProposalBlockParts := parts\<rparr>;
        if err \<noteq> None then Some (cs, added, map_option PartRejected err)
        else do {
          ps \<leftarrow> parts;
          if ps_byteSize ps > max_block_bytes cs then Some (cs, added, Some BlockTooLarge)
          else if added \<and> PartSet_IsComplete ps
          then do {
            bz \<leftarrow> read_all ps;
            b \<leftarrow> decode_block en bz;
            Some (case b of
               None \<Rightarrow> (cs, added, Some BlockMalformed)
             | Some block \<Rightarrow> (cs\<lparr>rs_ProposalBlock := Some block\<rparr>, added, None))
          }
          else Some (cs, added, None)
        }
      })"

text \<open>Setting the valid block to the proposal block.\<close>

definition set_valid :: "int \<Rightarrow> 'ev ConsensusState \<Rightarrow> 'ev ConsensusState" where
  "set_valid r cs =
     cs\<lparr>rs_ValidRound := r, rs_ValidBlock := rs_ProposalBlock cs, rs_ValidBlockParts := rs_ProposalBlockParts cs\<rparr>"

definition handleCompleteProposal :: "'ev cs_env \<Rightarrow> int \<Rightarrow> 'ev handler" where
  "handleCompleteProposal en blockHeight cs =
     do {
       let (blockID, hasTwoThirds) = TwoThirdsMajority (Prevotes (rs_Votes cs) (rs_Round cs));
       cs \<leftarrow> (if hasTwoThirds \<and> \<not> BlockID_IsZero blockID \<and> rs_ValidRound cs < rs_Round cs
              then do {
                same \<leftarrow> en_HashesTo en (rs_ProposalBlock cs) (bid_Hash blockID);
                Some (if same then set_valid (rs_Round cs) cs else cs)
              }
              else Some cs);
       if rs_Step cs \<le> RoundStepPropose \<and> isProposalComplete cs
       then do {
         cs \<leftarrow> enterPrevote en blockHeight (rs_Round cs) cs;
         if hasTwoThirds then enterPrecommit en blockHeight (rs_Round cs) cs else Some cs
       }
       else if rs_Step cs = RoundStepCommit then tryFinalizeCommit en blockHeight cs
       else Some cs
     }"

section \<open>Votes\<close>

text \<open>The checks on vote extensions; the inner \<open>None\<close> says that there is no objection.\<close>

definition check_extension :: "'ev cs_env \<Rightarrow> Vote \<Rightarrow> bool \<Rightarrow> 'ev ConsensusState \<Rightarrow> cs_error option option" where
  "check_extension en vote extEnabled cs =
     (if extEnabled
      then (let myAddr = (case privValidatorPubKey cs of None \<Rightarrow> [] | Some pk \<Rightarrow> pkAddress (en_ext en) pk)
            in if vote_Type vote = PrecommitType \<and> \<not> BlockID_IsZero (vote_BlockID vote) \<and> vote_ValidatorAddress vote \<noteq> myAddr
               then (case GetByIndex (st_Validators (cs_state cs)) (vote_ValidatorIndex vote) of
                       (a, None) \<Rightarrow> Some (Some ErrInvalidVote)
                     | (a, Some val) \<Rightarrow> do {
                         pk \<leftarrow> val_PubKey val;
                         (case VerifyExtension (en_ext en) (st_ChainID (cs_state cs)) pk vote of
                            Some e \<Rightarrow> Some (Some (VoteRejected e))
                          | None \<Rightarrow> do {
                              ok \<leftarrow> en_verifyExtension en vote;
                              Some (if ok then None else Some ErrInvalidVoteExtension)
                            })
                       })
               else Some None)
      else Some (if length (vote_Extension vote) > 0 \<or> length (vote_ExtensionSignature vote) > 0
                 then Some ExtensionsDisabled else None))"

text \<open>The unlocking and the update of the valid block after a polka for \<open>blockID\<close> in round \<open>r\<close>.\<close>

definition polka_unlock :: "'ev cs_env \<Rightarrow> int \<Rightarrow> BlockID \<Rightarrow> 'ev handler" where
  "polka_unlock en r blockID cs =
     (if rs_LockedBlock cs \<noteq> None \<and> rs_LockedRound cs < r \<and> r \<le> rs_Round cs
      then do {
        same \<leftarrow> en_HashesTo en (rs_LockedBlock cs) (bid_Hash blockID);
        Some (if same then cs else unlock cs)
      }
      else Some cs)"

definition polka_valid :: "'ev cs_env \<Rightarrow> int \<Rightarrow> BlockID \<Rightarrow> 'ev handler" where
  "polka_valid en r blockID cs =
     (if length (bid_Hash blockID) \<noteq> 0 \<and> rs_ValidRound cs < r \<and> r = rs_Round cs
      then do {
        same \<leftarrow> en_HashesTo en (rs_ProposalBlock cs) (bid_Hash blockID);
        let cs = (if same then set_valid r cs else cs\<lparr>rs_ProposalBlock := None\<rparr>);
        Some (if HasHeader (rs_ProposalBlockParts cs) (bid_PartSetHeader blockID) then cs
              else cs\<lparr>rs_ProposalBlockParts := Some (NewPartSetFromHeader (bid_PartSetHeader blockID))\<rparr>)
      }
      else Some cs)"

definition prevote_transition :: "'ev cs_env \<Rightarrow> int \<Rightarrow> int \<Rightarrow> VoteSet option \<Rightarrow> 'ev handler" where
  "prevote_transition en h r prevotes cs =
     do {
       any \<leftarrow> HasTwoThirdsAny prevotes;
       (if rs_Round cs < r \<and> any then enterNewRound en h r cs
        else if rs_Round cs = r \<and> RoundStepPrevote \<le> rs_Step cs
        then (let (blockID, ok) = TwoThirdsMajority prevotes
              in if ok \<and> (isProposalComplete cs \<or> length (bid_Hash blockID) = 0) then enterPrecommit en h r cs
                 else if any then enterPrevoteWait en h r cs
                 else Some cs)
        else (case rs_Proposal cs of
                None \<Rightarrow> Some cs
              | Some proposal \<Rightarrow>
                  if 0 \<le> prop_POLRound proposal \<and> prop_POLRound proposal = r \<and> isProposalComplete cs
                  then enterPrevote en h (rs_Round cs) cs
                  else Some cs))
     }"

definition on_prevote :: "'ev cs_env \<Rightarrow> int \<Rightarrow> int \<Rightarrow> 'ev handler" where
  "on_prevote en h r cs =
     do {
       let prevotes = Prevotes (rs_Votes cs) r;
       cs \<leftarrow> (case TwoThirdsMajority prevotes of
                (blockID, True) \<Rightarrow> do {
                  cs \<leftarrow> polka_unlock en r blockID cs;
                  polka_valid en r blockID cs
                }
              | (blockID, False) \<Rightarrow> Some cs);
       prevote_transition en h r prevotes cs
     }"

definition on_precommit :: "'ev cs_env \<Rightarrow> int \<Rightarrow> int \<Rightarrow> 'ev handler" where
  "on_precommit en h r cs =
     (let precommits = Precommits (rs_Votes cs) r
      in case TwoThirdsMajority precommits of
           (blockID, True) \<Rightarrow> do {
             cs \<leftarrow> enterNewRound en h r cs;
             cs \<leftarrow> enterPrecommit en h r cs;
             if length (bid_Hash blockID) \<noteq> 0
             then do {
               cs \<leftarrow> enterCommit en h r cs;
               all \<leftarrow> (if SkipTimeoutCommit (en_config en) then HasAll precommits else Some False);
               if all then enterNewRound en (rs_Height cs) 0 cs else Some cs
             }
             else enterPrecommitWait en h r cs
           }
         | (blockID, False) \<Rightarrow> do {
             any \<leftarrow> (if rs_Round cs \<le> r then HasTwoThirdsAny precommits else Some False);
             if any
             then do {
               cs \<leftarrow> enterNewRound en h r cs;
               enterPrecommitWait en h r cs
             }
             else Some cs
           })"

text \<open>A precommit for the previous height; \<open>None\<close> for a nil \<open>LastCommit\<close>.\<close>

definition add_late_precommit :: "'ev cs_env \<Rightarrow> Vote \<Rightarrow> 'ev ConsensusState \<Rightarrow> ('ev ConsensusState \<times> bool \<times> cs_error option) option" where
  "add_late_precommit en vote cs =
     (if rs_Step cs \<noteq> RoundStepNewHeight then Some (cs, False, None)
      else do {
        lc \<leftarrow> rs_LastCommit cs;
        (lc, added, err) \<leftarrow> addVote (en_ext en) lc (Some vote);
        let cs = cs\<lparr>rs_LastCommit := Some lc\<rparr>;
        if \<not> added then Some (cs, added, map_option VoteRejected err)
        else do {
          let cs = emit (EventVote vote) cs;
          all \<leftarrow> (if SkipTimeoutCommit (en_config en) then HasAll (Some lc) else Some False);
          cs \<leftarrow> (if all then enterNewRound en (rs_Height cs) 0 cs else Some cs);
          Some (cs, added, map_option VoteRejected err)
        }
      })"

definition hvs_to_cs_error :: "hvs_error \<Rightarrow> cs_error" where
  "hvs_to_cs_error e = (case e of HvsVote v \<Rightarrow> VoteRejected v | _ \<Rightarrow> RoundUnwanted)"

text \<open>\<open>val.VotingPower\<close> in the metrics of the current round needs a validator with the index of the vote.\<close>

definition cs_addVote :: "'ev cs_env \<Rightarrow> Vote \<Rightarrow> bytes \<Rightarrow> 'ev ConsensusState \<Rightarrow> ('ev ConsensusState \<times> bool \<times> cs_error option) option" where
  "cs_addVote en vote peerID cs =
     (if wrap64 (vote_Height vote + 1) = rs_Height cs \<and> vote_Type vote = PrecommitType then add_late_precommit en vote cs
      else if vote_Height vote \<noteq> rs_Height cs then Some (cs, False, None)
      else do {
        extEnabled \<leftarrow> extensions_at cs (vote_Height vote);
        objection \<leftarrow> check_extension en vote extEnabled cs;
        (case objection of
           Some e \<Rightarrow> Some (cs, False, Some e)
         | None \<Rightarrow> do {
             let h = rs_Height cs;
             (hvs, added, err) \<leftarrow> hvs_AddVote (en_ext en) (rs_Votes cs) vote peerID extEnabled;
             let cs = cs\<lparr>rs_Votes := hvs\<rparr>;
             let err = map_option hvs_to_cs_error err;
             if \<not> added then Some (cs, added, err)
             else if vote_Round vote = rs_Round cs \<and> snd (GetByIndex (st_Validators (cs_state cs)) (vote_ValidatorIndex vote)) = None
             then None
             else do {
               let cs = emit (EventVote vote) cs;
               cs \<leftarrow> (if vote_Type vote = PrevoteType then on_prevote en h (vote_Round vote) cs
                      else if vote_Type vote = PrecommitType then on_precommit en h (vote_Round vote) cs
                      else None);
               Some (cs, added, err)
             }
           })
      })"

definition tryAddVote :: "'ev cs_env \<Rightarrow> Vote \<Rightarrow> bytes \<Rightarrow> 'ev ConsensusState \<Rightarrow> ('ev ConsensusState \<times> bool \<times> cs_error option) option" where
  "tryAddVote en vote peerID cs =
     do {
       (cs, added, err) \<leftarrow> cs_addVote en vote peerID cs;
       Some (case err of
          None \<Rightarrow> (cs, added, None)
        | Some (VoteRejected (ErrVoteConflictingVotes a b)) \<Rightarrow>
            (case privValidatorPubKey cs of
               None \<Rightarrow> (cs, False, Some PubKeyNotSet)
             | Some pk \<Rightarrow>
                 if vote_ValidatorAddress vote = pkAddress (en_ext en) pk then (cs, added, err)
                 else (emit (ReportConflictingVotes a b) cs, added, err))
        | Some (VoteRejected ErrVoteNonDeterministicSignature) \<Rightarrow> (cs, added, None)
        | Some ErrInvalidVoteExtension \<Rightarrow> (cs, added, None)
        | Some _ \<Rightarrow> (cs, added, Some ErrAddingVote))
     }"

section \<open>Events\<close>

text \<open>The error is logged only.\<close>

definition handleMsg :: "'ev cs_env \<Rightarrow> cs_message \<Rightarrow> bytes \<Rightarrow> 'ev handler" where
  "handleMsg en msg peerID cs =
     (case msg of
        ProposalMessage proposal \<Rightarrow> map_option fst (defaultSetProposal en proposal cs)
      | BlockPartMessage h r part \<Rightarrow> do {
          (cs, added, err) \<leftarrow> addProposalBlockPart en h part cs;
          if added
          then do {
            ps \<leftarrow> rs_ProposalBlockParts cs;
            cs \<leftarrow> (if PartSet_IsComplete ps then handleCompleteProposal en h cs else Some cs);
            Some (emit (StatsMessage msg peerID) cs)
          }
          else Some cs
        }
      | VoteMessage vote \<Rightarrow> do {
          (cs, added, err) \<leftarrow> tryAddVote en vote peerID cs;
          Some (if added then emit (StatsMessage msg peerID) cs else cs)
        })"

definition handleTimeout :: "'ev cs_env \<Rightarrow> timeoutInfo \<Rightarrow> 'ev handler" where
  "handleTimeout en ti cs =
     (let h = ti_Height ti; r = ti_Round ti; s = ti_Step ti
      in if h \<noteq> rs_Height cs \<or> r < rs_Round cs \<or> (r = rs_Round cs \<and> s < rs_Step cs) then Some cs
         else if s = RoundStepNewHeight then enterNewRound en h 0 cs
         else if s = RoundStepNewRound then enterPropose en h r cs
         else if s = RoundStepPropose then enterPrevote en h r cs
         else if s = RoundStepPrevoteWait then enterPrecommit en h r cs
         else if s = RoundStepPrecommitWait
         then do { cs \<leftarrow> enterPrecommit en h r cs; enterNewRound en h (wrap32 (r + 1)) cs }
         else None)"

definition handleTxsAvailable :: "'ev cs_env \<Rightarrow> 'ev handler" where
  "handleTxsAvailable en cs =
     (if rs_Round cs \<noteq> 0 then Some cs
      else if rs_Step cs = RoundStepNewHeight
      then do {
        need \<leftarrow> needProofBlock (rs_Height cs) cs;
        if need then Some cs
        else Some (scheduleTimeout (wrap64 (time_sub (rs_StartTime cs) (en_now en) + 1000000)) (rs_Height cs) 0
                     RoundStepNewRound cs)
      }
      else if rs_Step cs = RoundStepNewRound then enterPropose en (rs_Height cs) 0 cs
      else Some cs)"

text \<open>The claim of a peer about a majority, which the reactor passes to the vote sets.\<close>

definition peer_maj23 :: "int \<Rightarrow> int \<Rightarrow> int \<Rightarrow> bytes \<Rightarrow> BlockID \<Rightarrow> 'ev handler" where
  "peer_maj23 h r t peerID blockID cs =
     (if rs_Height cs \<noteq> h then Some cs
      else do {
        (hvs, err) \<leftarrow> hvs_SetPeerMaj23 (rs_Votes cs) r t peerID blockID;
        Some (cs\<lparr>rs_Votes := hvs\<rparr>)
      })"

datatype cs_event =
    Message cs_message bytes
  | Timeout timeoutInfo
  | TxsAvailable
  | PeerMaj23 int int int bytes BlockID

text \<open>One turn of \<open>receiveRoutine\<close>. A message of the node itself, without a peer, must reach the log.\<close>

definition receive :: "'ev cs_env \<Rightarrow> cs_event \<Rightarrow> 'ev handler" where
  "receive en ev cs =
     (case ev of
        Message m peerID \<Rightarrow> if peerID = [] \<and> \<not> en_walSync en then None else handleMsg en m peerID cs
      | Timeout ti \<Rightarrow> handleTimeout en ti cs
      | TxsAvailable \<Rightarrow> handleTxsAvailable en cs
      | PeerMaj23 h r t peerID blockID \<Rightarrow> peer_maj23 h r t peerID blockID cs)"

end
