(* ===== verification/Consensus_Votes.thy ===== *)
theory Consensus_Votes
  imports Consensus_State
begin

text \<open>
  The votes of a height as the consensus state machine sees them: which votes an operation lets count,
  and that a reported majority rests on signed votes of validators with more than two thirds of the power.
\<close>

section \<open>The votes that count\<close>

text \<open>The votes in the tallies of a vote set.\<close>

definition votes_in :: "blockVotes \<Rightarrow> Vote set" where
  "votes_in bv = {w. Some w \<in> set (bv_votes bv)}"

definition votes_of :: "(bytes \<rightharpoonup> blockVotes) \<Rightarrow> Vote set" where
  "votes_of m = {w. \<exists>k bv. m k = Some bv \<and> w \<in> votes_in bv}"

abbreviation tallied :: "VoteSet \<Rightarrow> Vote set" where
  "tallied vs \<equiv> votes_of (votesByBlock vs)"

lemma votes_of_split: "votes_of m = (case m k of None \<Rightarrow> {} | Some bv \<Rightarrow> votes_in bv) \<union> votes_of (m(k := None))"
proof -
  have "w \<in> votes_of m \<longleftrightarrow> (\<exists>bv. m k = Some bv \<and> w \<in> votes_in bv) \<or> w \<in> votes_of (m(k := None))" for w
  proof
    assume "w \<in> votes_of m"
    then obtain k' bv where "m k' = Some bv" "w \<in> votes_in bv" by (auto simp: votes_of_def)
    then show "(\<exists>bv. m k = Some bv \<and> w \<in> votes_in bv) \<or> w \<in> votes_of (m(k := None))"
      by (cases "k' = k") (auto simp: votes_of_def)
  qed (auto simp: votes_of_def split: if_splits)
  then show ?thesis by (cases "m k") auto
qed

lemma votes_of_put: "votes_of (m(k \<mapsto> bv)) = votes_in bv \<union> votes_of (m(k := None))"
  unfolding votes_of_split [of "m(k \<mapsto> bv)" k] by simp

lemma votes_of_empty [simp]: "votes_of Map.empty = {}"
  by (simp add: votes_of_def)

lemma NewVoteSet_tallied:
  "NewVoteSet c h r t vals = Some vs \<Longrightarrow> tallied vs = {} \<and> maj23 vs = None"
  "NewExtendedVoteSet c h r t vals = Some vs \<Longrightarrow> tallied vs = {} \<and> maj23 vs = None"
  by (auto simp: NewVoteSet_def NewExtendedVoteSet_def split: if_splits)

lemma set_fill:
  assumes "xs ! i = None" and "i < length xs"
  shows "Some w \<in> set (xs[i := Some v]) \<longleftrightarrow> Some w \<in> set xs \<or> w = v"
proof -
  have "xs[i := Some v] = take i xs @ Some v # drop (Suc i) xs" "xs = take i xs @ None # drop (Suc i) xs"
    using assms id_take_nth_drop [of i xs] by (simp_all add: upd_conv_take_nth_drop)
  then show ?thesis by (metis (no_types) Un_iff insert_iff list.simps(15) option.distinct(1) option.inject set_append)
qed

lemma votes_in_new [simp]: "votes_in (newBlockVotes p n) = {}" "votes_in (bv\<lparr>bv_peerMaj23 := q\<rparr>) = votes_in bv"
  by (auto simp: votes_in_def newBlockVotes_def)

lemma blockVotes_add_cases:
  assumes "blockVotes_addVerifiedVote bv v p = Some bv'"
  shows "bv' = bv \<or> votes_in bv' = insert v (votes_in bv)"
  using assms
  by (auto simp: blockVotes_addVerifiedVote_def slice_get_def slice_set_def set_fill votes_in_def split: bind_splits if_splits)

text \<open>How an operation may change a vote set: it tallies at most the vote \<open>v\<close>, and only if \<open>a\<close>.\<close>

definition grows :: "Vote \<Rightarrow> bool \<Rightarrow> VoteSet \<Rightarrow> VoteSet \<Rightarrow> bool" where
  "grows v a vs vs' \<longleftrightarrow> tallied vs \<subseteq> tallied vs' \<and> tallied vs' \<subseteq> tallied vs \<union> (if a then {v} else {}) \<and>
     (\<forall>b. maj23 vs' = Some b \<longrightarrow> maj23 vs = Some b \<or> b = vote_BlockID v \<and> v \<in> tallied vs')"

lemma grows_refl: "grows v a vs vs"
  by (auto simp: grows_def)

lemma add_canonical_grows:
  assumes "add_canonical vs v k p = Some (vs', c)"
  shows "maj23 vs' = maj23 vs \<and> votesByBlock vs' = votesByBlock vs"
  using assms by (auto simp: add_canonical_def store_vote_def split: bind_splits option.splits if_splits)

lemma add_to_block_grows:
  assumes "add_to_block vs bv v k p = Some vs'"
    and "votesByBlock vs k = Some bv \<or> votesByBlock vs k = None \<and> votes_in bv = {}"
  shows "grows v True vs vs'"
proof -
  obtain vals tvp bv' where t: "TotalVotingPower (valSet vs) = Some (vals, tvp)" "blockVotes_addVerifiedVote bv v p = Some bv'"
    using assms(1) by (auto simp: add_to_block_def Let_def split: bind_splits)
  note cases = blockVotes_add_cases [OF t(2)]
  have new: "v \<in> votes_in bv'" if "bv_sum bv < quorum_of tvp" "quorum_of tvp \<le> bv_sum bv'"
    using cases that by auto
  have old: "tallied vs = votes_in bv \<union> votes_of ((votesByBlock vs)(k := None))"
    using assms(2) votes_of_split [of "votesByBlock vs" k] by auto
  have new': "tallied vs' = votes_in bv' \<union> votes_of ((votesByBlock vs)(k := None))"
    and maj: "maj23 vs' = maj23 vs \<or> maj23 vs' = Some (vote_BlockID v) \<and> v \<in> votes_in bv'"
    using assms(1) t new by (auto simp: add_to_block_def Let_def votes_of_put split: if_splits bind_splits)
  have "votes_in bv \<subseteq> votes_in bv'" "votes_in bv' \<subseteq> insert v (votes_in bv)" using cases by auto
  then show ?thesis using maj unfolding grows_def old new' by fastforce
qed

lemma addVerifiedVote_grows:
  assumes "addVerifiedVote vs v k p = Some (vs', a, c)"
  shows "grows v a vs vs'"
proof -
  obtain vs1 where vs1: "add_canonical vs v k p = Some (vs1, c)"
    using assms by (auto simp: addVerifiedVote_def split: bind_splits option.splits if_splits)
  note same = add_canonical_grows [OF vs1]
  have "grows v a vs1 vs'"
  proof (cases a)
    case True
    then show ?thesis
      using assms vs1
      by (auto simp: addVerifiedVote_def split: option.splits if_splits bind_splits intro!: add_to_block_grows)
  next
    case False
    then have "vs' = vs1" using assms vs1 by (auto simp: addVerifiedVote_def split: option.splits if_splits bind_splits)
    then show ?thesis by (simp add: grows_refl)
  qed
  then show ?thesis using same by (simp add: grows_def)
qed

lemma addVote_grows:
  assumes "addVote ce vs (Some v) = Some (vs', a, err)"
  shows "grows v a vs vs'"
  using assms addVerifiedVote_grows
  by (auto simp: addVote_def Let_def grows_refl split: if_splits prod.splits option.splits bind_splits)

lemma SetPeerMaj23_grows:
  assumes "SetPeerMaj23 vs peer b = (vs', ok)"
  shows "tallied vs' = tallied vs \<and> maj23 vs' = maj23 vs"
proof -
  let ?m = "votesByBlock vs" and ?k = "BlockID_Key b"
  obtain Y where Y: "votes_of ?m = (case ?m ?k of None \<Rightarrow> {} | Some bv \<Rightarrow> votes_in bv) \<union> Y"
    "\<And>bv. votes_of (?m(?k \<mapsto> bv)) = votes_in bv \<union> Y"
    using votes_of_split [of ?m ?k] votes_of_put [of ?m ?k] by blast
  show ?thesis
  proof (cases "peerMaj23s vs peer")
    case None
    then show ?thesis using assms by (auto simp: SetPeerMaj23_def Let_def Y split: option.splits if_splits)
  qed (use assms in \<open>simp add: SetPeerMaj23_def\<close>)
qed

section \<open>The votes of a height\<close>

definition slots :: "HeightVoteSet \<Rightarrow> VoteSet set" where
  "slots hvs = {vs. \<exists>r rvs. roundVoteSets hvs r = Some rvs \<and> (vs = rvs_Prevotes rvs \<or> vs = rvs_Precommits rvs)}"

text \<open>All votes that count are in \<open>V\<close>, and majorities are majorities of such votes.\<close>

definition votes_within :: "Vote set \<Rightarrow> HeightVoteSet \<Rightarrow> bool" where
  "votes_within V hvs \<longleftrightarrow> (\<forall>vs \<in> slots hvs. tallied vs \<subseteq> V \<and> (\<forall>b. maj23 vs = Some b \<longrightarrow> b \<in> vote_BlockID ` tallied vs))"

definition same_height :: "HeightVoteSet \<Rightarrow> HeightVoteSet \<Rightarrow> bool" where
  "same_height a b \<longleftrightarrow> hvs_chainID a = hvs_chainID b \<and> hvs_height a = hvs_height b \<and> hvs_valSet a = hvs_valSet b"

lemma same_height_refl [simp]: "same_height a a"
  by (simp add: same_height_def)

lemma votes_within_mono: "votes_within V hvs \<Longrightarrow> V \<subseteq> V' \<Longrightarrow> votes_within V' hvs"
  unfolding votes_within_def by blast

lemma votes_within_upd [simp]:
  "votes_within V (hvs\<lparr>peerCatchupRounds := y\<rparr>) = votes_within V hvs"
  "votes_within V (hvs\<lparr>hvs_round := z\<rparr>) = votes_within V hvs"
  by (simp_all add: votes_within_def slots_def)

lemma addRound_within:
  assumes "addRound hvs r = Some hvs'"
  shows "same_height hvs' hvs \<and> hvs_round hvs' = hvs_round hvs \<and> (votes_within V hvs \<longrightarrow> votes_within V hvs')"
proof -
  obtain p q where h: "hvs' = hvs\<lparr>roundVoteSets := (roundVoteSets hvs)(r \<mapsto> \<lparr>rvs_Prevotes = p, rvs_Precommits = q\<rparr>)\<rparr>"
    and e: "tallied p = {}" "maj23 p = None" "tallied q = {}" "maj23 q = None"
    using assms NewVoteSet_tallied by (auto simp: addRound_def split: if_splits bind_splits)
  have "vs \<in> slots hvs \<or> vs = p \<or> vs = q" if "vs \<in> slots hvs'" for vs
    using that by (auto simp: h slots_def split: if_splits)
  then have "votes_within V hvs \<Longrightarrow> votes_within V hvs'" unfolding votes_within_def using e by (metis empty_subsetI option.distinct(1))
  then show ?thesis by (simp add: h same_height_def)
qed

lemma add_rounds_within:
  "add_rounds rs hvs = Some hvs' \<Longrightarrow> same_height hvs' hvs \<and> (votes_within V hvs \<longrightarrow> votes_within V hvs')"
proof (induction rs hvs rule: add_rounds.induct)
  case (2 r rs hvs)
  show ?case
  proof (cases "roundVoteSets hvs r")
    case None
    then obtain h where h: "addRound hvs r = Some h" "add_rounds rs h = Some hvs'"
      using "2.prems" by (auto split: bind_splits)
    then show ?thesis using "2.IH"(2) [OF _ h] None addRound_within [OF h(1), of V] by (auto simp: same_height_def)
  qed (use 2 in auto)
qed simp

lemma SetRound_within:
  assumes "SetRound hvs r = Some hvs'"
  shows "same_height hvs' hvs \<and> hvs_round hvs' = r \<and> (votes_within V hvs \<longrightarrow> votes_within V hvs')"
proof -
  obtain n h where h: "add_rounds [n..r] hvs = Some h" "hvs' = h\<lparr>hvs_round := r\<rparr>"
    using assms by (auto simp: SetRound_def split: if_splits bind_splits)
  then show ?thesis using add_rounds_within [OF h(1), of V] by (simp add: same_height_def)
qed

lemma new_hvs_within:
  assumes "new_hvs ext chain h vals = Some hvs"
  shows "votes_within V hvs \<and> hvs_chainID hvs = chain \<and> hvs_height hvs = h \<and> hvs_valSet hvs = vals \<and> hvs_round hvs = 0"
proof -
  let ?h0 = "\<lparr>hvs_chainID = chain, hvs_height = h, hvs_valSet = vals, hvs_extensionsEnabled = ext, hvs_round = 0,
        roundVoteSets = Map.empty, peerCatchupRounds = (\<lambda>_. [])\<rparr>"
  obtain h1 where h1: "addRound ?h0 0 = Some h1" "hvs = h1\<lparr>hvs_round := 0\<rparr>"
    using assms(1) by (auto simp: new_hvs_def hvs_Reset_def split: bind_splits)
  have "votes_within V ?h0" by (simp add: votes_within_def slots_def)
  then show ?thesis using addRound_within [OF h1(1), of V] h1(2) by (simp add: same_height_def)
qed

lemma put_within:
  assumes "getVoteSet hvs r t = Some (Some vs)" and "votes_within V hvs" and "V \<subseteq> V'"
    and "tallied vs' \<subseteq> V'" and "\<forall>b. maj23 vs' = Some b \<longrightarrow> b \<in> vote_BlockID ` tallied vs'"
  shows "votes_within V' (put_voteSet hvs r t vs')"
proof -
  have "ws \<in> slots hvs \<or> ws = vs'" if "ws \<in> slots (put_voteSet hvs r t vs')" for ws
    using that unfolding slots_def put_voteSet_def by (auto split: if_splits; blast)
  then show ?thesis using assms(2-) unfolding votes_within_def by blast
qed

lemma getVoteSet_in_slots: "getVoteSet hvs r t = Some (Some vs) \<Longrightarrow> vs \<in> slots hvs"
  by (auto simp: getVoteSet_def slots_def split: option.splits if_splits)

lemma add_to_set_within:
  assumes "getVoteSet hvs (vote_Round v) (vote_Type v) = Some (Some vs)" and "votes_within V hvs"
    and "add_to_set ce hvs vs v = Some (hvs', a, err)"
  shows "votes_within (if a then insert v V else V) hvs' \<and> same_height hvs' hvs \<and> hvs_round hvs' = hvs_round hvs"
proof -
  obtain vs' e where vs': "addVote ce vs (Some v) = Some (vs', a, e)" "hvs' = put_voteSet hvs (vote_Round v) (vote_Type v) vs'"
    using assms(3) by (auto simp: add_to_set_def split: bind_splits)
  have old: "tallied vs \<subseteq> V" "\<forall>b. maj23 vs = Some b \<longrightarrow> b \<in> vote_BlockID ` tallied vs"
    using assms(2) getVoteSet_in_slots [OF assms(1)] by (auto simp: votes_within_def)
  have "votes_within (if a then insert v V else V) hvs'"
    unfolding vs'(2)
  proof (rule put_within [OF assms(1,2)])
    show "tallied vs' \<subseteq> (if a then insert v V else V)" using addVote_grows [OF vs'(1)] old(1) by (auto simp: grows_def)
    show "\<forall>b. maj23 vs' = Some b \<longrightarrow> b \<in> vote_BlockID ` tallied vs'"
      using addVote_grows [OF vs'(1)] old(2) unfolding grows_def by blast
  qed auto
  then show ?thesis by (simp add: vs'(2) same_height_def put_voteSet_def)
qed

lemma hvs_AddVote_within:
  assumes "hvs_AddVote ce hvs v peer ext = Some (hvs', a, err)" and "votes_within V hvs"
  shows "votes_within (if a then insert v V else V) hvs' \<and> same_height hvs' hvs \<and> hvs_round hvs' = hvs_round hvs"
proof (cases "hvs' = hvs \<and> \<not> a")
  case False
  then have valid: "hvs_extensionsEnabled hvs = ext" "IsVoteTypeValid (vote_Type v)"
    using assms(1) by (auto simp: hvs_AddVote_def split: if_splits)
  obtain vo where vo: "getVoteSet hvs (vote_Round v) (vote_Type v) = Some vo"
    using assms(1) valid by (auto simp: hvs_AddVote_def split: bind_splits)
  show ?thesis
  proof (cases vo)
    case (Some vs)
    then show ?thesis using add_to_set_within [OF _ assms(2)] vo assms(1) valid by (auto simp: hvs_AddVote_def)
  next
    case None
    have less: "length (peerCatchupRounds hvs peer) < 2"
      using False assms(1) valid vo None by (auto simp: hvs_AddVote_def split: if_splits)
    obtain h vs where h: "addRound hvs (vote_Round v) = Some h" "getVoteSet h (vote_Round v) (vote_Type v) = Some (Some vs)"
      "add_to_set ce (h\<lparr>peerCatchupRounds := (peerCatchupRounds h)(peer := peerCatchupRounds h peer @ [vote_Round v])\<rparr>) vs v
         = Some (hvs', a, err)"
      using assms(1) valid vo None less by (auto simp: hvs_AddVote_def Let_def split: bind_splits option.splits)
    have "votes_within V h" "same_height h hvs" "hvs_round h = hvs_round hvs" using addRound_within [OF h(1), of V] assms(2) by auto
    then show ?thesis using add_to_set_within [OF _ _ h(3), of V] h(2) by (auto simp: getVoteSet_def same_height_def)
  qed
qed (use assms in simp)

lemma hvs_SetPeerMaj23_within:
  assumes "hvs_SetPeerMaj23 hvs r t peer b = Some (hvs', err)" and "votes_within V hvs"
  shows "votes_within V hvs' \<and> same_height hvs' hvs \<and> hvs_round hvs' = hvs_round hvs"
proof (cases "\<exists>vs. IsVoteTypeValid t \<and> getVoteSet hvs r t = Some (Some vs)")
  case True
  then obtain vs vs' ok where vs: "getVoteSet hvs r t = Some (Some vs)" "SetPeerMaj23 vs peer b = (vs', ok)"
    "hvs' = put_voteSet hvs r t vs'"
    using assms(1) by (cases "SetPeerMaj23 (the (the (getVoteSet hvs r t))) peer b") (auto simp: hvs_SetPeerMaj23_def)
  have "votes_within V hvs'"
    unfolding vs(3) using SetPeerMaj23_grows [OF vs(2)] assms(2) getVoteSet_in_slots [OF vs(1)]
    by (intro put_within [OF vs(1) assms(2)]) (auto simp: votes_within_def)
  then show ?thesis by (simp add: vs(3) same_height_def put_voteSet_def)
next
  case False
  then have "hvs' = hvs" using assms(1) by (auto simp: hvs_SetPeerMaj23_def split: if_splits bind_splits option.splits)
  then show ?thesis using assms(2) by simp
qed

section \<open>Quorums of votes\<close>

text \<open>A vote with the signature of the validator with index \<open>i\<close>.\<close>

definition signed_for :: "ext_env \<Rightarrow> bytes \<Rightarrow> ValidatorSet \<Rightarrow> nat \<Rightarrow> Vote \<Rightarrow> bool" where
  "signed_for ce chain vals i v \<longleftrightarrow> i < length (Validators vals) \<and> vote_ValidatorAddress v = Address (Validators vals ! i) \<and>
     (\<exists>pk. val_PubKey (Validators vals ! i) = Some pk \<and> Vote_Verify ce chain pk v = Some None)"

definition voters_for :: "ext_env \<Rightarrow> bytes \<Rightarrow> ValidatorSet \<Rightarrow> Vote set \<Rightarrow> int \<Rightarrow> int \<Rightarrow> int \<Rightarrow> bytes \<Rightarrow> nat set" where
  "voters_for ce chain vals V h r t x =
     {i. \<exists>v \<in> V. signed_for ce chain vals i v \<and> vote_Height v = h \<and> vote_Round v = r \<and> vote_Type v = t \<and>
        bid_Hash (vote_BlockID v) = x}"

abbreviation quorum_for :: "ext_env \<Rightarrow> bytes \<Rightarrow> ValidatorSet \<Rightarrow> Vote set \<Rightarrow> int \<Rightarrow> int \<Rightarrow> int \<Rightarrow> bytes \<Rightarrow> bool" where
  "quorum_for ce chain vals V h r t x \<equiv> vq.is_quorum vals (voters_for ce chain vals V h r t x)"

text \<open>What the reactor checks of the block of a vote.\<close>

definition clean :: "Vote \<Rightarrow> bool" where
  "clean v \<longleftrightarrow> BlockID_IsZero (vote_BlockID v) \<or> BlockID_IsComplete (vote_BlockID v)"

lemma quorum_for_mono:
  assumes "vs_wf vals" and "V \<subseteq> V'" and "quorum_for ce chain vals V h r t x"
  shows "quorum_for ce chain vals V' h r t x"
  using assms by (intro vq.quorum_mono [OF assms(1,3)]) (auto simp: voters_for_def)

lemma seen_maj23_quorum:
  assumes "slot_ok ce hvs r t vs" and "maj23 vs = Some b" and "tallied vs \<subseteq> V" and "b \<in> vote_BlockID ` tallied vs"
    and "\<forall>v \<in> V. clean v"
  shows "quorum_for ce (hvs_chainID hvs) (hvs_valSet hvs) V (hvs_height hvs) r t (bid_Hash b)"
proof -
  have inv: "vset_inv ce vs" and conf: "chainID vs = hvs_chainID hvs" "height vs = hvs_height hvs" "round vs = r"
    "signedMsgType vs = t" "valSet vs = hvs_valSet hvs"
    using assms(1) vset_reach_inv by (auto simp: slot_ok_def)
  have wf: "vs_wf (valSet vs)" using vset_invD(1) [OF inv] .
  obtain bv where bv: "votesByBlock vs (BlockID_Key b) = Some bv" "set_quorum vs \<le> bv_sum bv"
    using vset_invD(7) [OF inv] assms(2) by (auto simp: maj_inv_def)
  have bi: "bv_inv ce vs (BlockID_Key b) bv" using vset_invD(6) [OF inv bv(1)] .
  have cb: "BlockID_IsZero b \<or> BlockID_IsComplete b" using assms(3-5) by (auto simp: clean_def)
  have "voters (bv_votes bv) \<subseteq> voters_for ce (chainID vs) (valSet vs) V (height vs) r t (bid_Hash b)"
  proof
    fix i assume "i \<in> voters (bv_votes bv)"
    then obtain v where v: "i < length (bv_votes bv)" "bv_votes bv ! i = Some v" by (auto simp: voters_def)
    then have sg: "signed_by ce vs i v" "BlockID_Key (vote_BlockID v) = BlockID_Key b"
      using bi by (auto simp: bv_inv_def)
    have "v \<in> tallied vs" using v bv(1) nth_mem [OF v(1)] by (auto simp: votes_of_def votes_in_def)
    then have "v \<in> V" "vote_BlockID v = b" using assms(3,5) BlockID_Key_inj [OF _ cb sg(2)] by (auto simp: clean_def)
    then show "i \<in> voters_for ce (chainID vs) (valSet vs) V (height vs) r t (bid_Hash b)"
      using sg(1) conf by (auto simp: voters_for_def signed_for_def signed_by_def)
  qed
  then have le: "tally (valSet vs) (bv_votes bv) \<le> vq.weight_of (valSet vs) (voters_for ce (chainID vs) (valSet vs) V (height vs) r t (bid_Hash b))"
    unfolding tally_def by (intro vq.weight_mono [OF wf]) auto
  have "2 * total_power (Validators (valSet vs)) < 3 * bv_sum bv"
    using bv(2) quorum_of_le_iff [of "total_power (Validators (valSet vs))"] vs_wf_total_pos [OF wf] power_le_max [OF wf]
    by (simp add: vs_power_def)
  then show ?thesis
    using le bi weight_of_all [OF wf] by (simp add: bv_inv_def vq.is_quorum_def conf)
qed

end
