(* ===== verification/Consensus_Discipline.thy ===== *)
theory Consensus_Discipline
  imports Consensus_Votes
begin

text \<open>
  What one node that runs the state machine of \<open>consensus/state.go\<close> guarantees: the discipline of its
  votes at a height, and that it stores a block only after more than two thirds of the voting power
  precommitted it.
\<close>

section \<open>The discipline of a node\<close>

text \<open>A setting: what is the same in all environments, and the chain, the validators and the height that a
  statement is about.\<close>

record 'ev setting =
  se_ext :: ext_env
  se_hash :: "bytes \<Rightarrow> bytes"
  se_evidence :: "'ev evidence_ops"
  se_chain :: bytes
  se_vals :: ValidatorSet
  se_height :: int

definition en_ok :: "'ev setting \<Rightarrow> 'ev cs_env \<Rightarrow> bool" where
  "en_ok S en \<longleftrightarrow> en_ext en = se_ext S \<and> en_hash en = se_hash S \<and> en_evidence en = se_evidence S"

abbreviation vhash :: "Vote \<Rightarrow> bytes" where
  "vhash v \<equiv> bid_Hash (vote_BlockID v)"

text \<open>The votes that a node took into its vote sets, and its own votes at the height.\<close>

definition seen :: "cs_output list \<Rightarrow> Vote set" where
  "seen tr = {v. EventVote v \<in> set tr}"

definition own :: "'ev setting \<Rightarrow> cs_output list \<Rightarrow> Vote set" where
  "own S tr = {v. SendInternal (VoteMessage v) \<in> set tr \<and> vote_Height v = se_height S}"

abbreviation prevoted :: "'ev setting \<Rightarrow> Vote set \<Rightarrow> int \<Rightarrow> bytes \<Rightarrow> bool" where
  "prevoted S V r x \<equiv> quorum_for (se_ext S) (se_chain S) (se_vals S) V (se_height S) r PrevoteType x"

abbreviation precommitted :: "'ev setting \<Rightarrow> Vote set \<Rightarrow> int \<Rightarrow> bytes \<Rightarrow> bool" where
  "precommitted S V r x \<equiv> quorum_for (se_ext S) (se_chain S) (se_vals S) V (se_height S) r PrecommitType x"

text \<open>A later majority of prevotes for something else releases from a precommit.\<close>

definition released :: "'ev setting \<Rightarrow> Vote set \<Rightarrow> Vote \<Rightarrow> int \<Rightarrow> bool" where
  "released S V u r \<longleftrightarrow> (\<exists>r' x. vote_Round u < r' \<and> r' \<le> r \<and> x \<noteq> vhash u \<and> prevoted S V r' x)"

definition earlier :: "Vote \<Rightarrow> Vote \<Rightarrow> bool" where
  "earlier u v \<longleftrightarrow> vote_Round u < vote_Round v \<or> vote_Round u = vote_Round v \<and> vote_Type u < vote_Type v"

definition vote_law :: "'ev setting \<Rightarrow> cs_output list \<Rightarrow> Vote \<Rightarrow> bool" where
  "vote_law S tr v \<longleftrightarrow>
     in64 (vote_Height v) \<and> in32 (vote_Round v) \<and> (vote_Type v = PrevoteType \<or> vote_Type v = PrecommitType) \<and>
     (vote_Height v = se_height S \<longrightarrow>
        (\<forall>u \<in> own S tr. earlier u v) \<and>
        (vote_Type v = PrecommitType \<and> vhash v \<noteq> [] \<longrightarrow> prevoted S (seen tr) (vote_Round v) (vhash v)) \<and>
        (vote_Type v = PrevoteType \<longrightarrow>
           (\<forall>u \<in> own S tr. vote_Type u = PrecommitType \<and> vhash u \<noteq> [] \<and> vhash u \<noteq> vhash v \<longrightarrow>
              released S (seen tr) u (vote_Round v))))"

definition laws :: "'ev setting \<Rightarrow> cs_output list \<Rightarrow> bool" where
  "laws S tr \<longleftrightarrow> (\<forall>pre v post. tr = pre @ SendInternal (VoteMessage v) # post \<longrightarrow> vote_law S pre v)"

lemma laws_snoc: "laws S (tr @ [x]) \<longleftrightarrow> laws S tr \<and> (\<forall>v. x = SendInternal (VoteMessage v) \<longrightarrow> vote_law S tr v)"
proof
  assume l: "laws S (tr @ [x])"
  have "vote_law S pre v" if "tr = pre @ SendInternal (VoteMessage v) # post" for pre v post
    using l that unfolding laws_def by (metis append.assoc append_Cons)
  then show "laws S tr \<and> (\<forall>v. x = SendInternal (VoteMessage v) \<longrightarrow> vote_law S tr v)"
    using l unfolding laws_def by blast
next
  assume r: "laws S tr \<and> (\<forall>v. x = SendInternal (VoteMessage v) \<longrightarrow> vote_law S tr v)"
  show "laws S (tr @ [x])"
    unfolding laws_def
  proof (intro allI impI)
    fix pre v post assume "tr @ [x] = pre @ SendInternal (VoteMessage v) # post"
    then show "vote_law S pre v" using r unfolding laws_def by (cases post rule: rev_cases) auto
  qed
qed

lemma seen_snoc: "seen (tr @ [x]) = seen tr \<union> {v. x = EventVote v}"
  by (auto simp: seen_def)

lemma seen_append [simp]: "seen [] = {}" "seen (a @ b) = seen a \<union> seen b" "seen [x] = {v. x = EventVote v}"
  by (auto simp: seen_def)

lemma own_snoc: "own S (tr @ [x]) = own S tr \<union> {v. x = SendInternal (VoteMessage v) \<and> vote_Height v = se_height S}"
  by (auto simp: own_def)

definition vote_step :: "int \<Rightarrow> int" where
  "vote_step t = (if t = PrevoteType then RoundStepPrevote else RoundStepPrecommit)"

definition locked_on :: "'ev setting \<Rightarrow> 'ev ConsensusState \<Rightarrow> bytes \<Rightarrow> bool" where
  "locked_on S cs x \<longleftrightarrow>
     (\<exists>b. rs_LockedBlock cs = Some b \<and> Block_Hash (se_ext S) (se_hash S) (se_evidence S) (Some b) = Some x)"

text \<open>The node works on the height of the setting.\<close>

definition working :: "'ev setting \<Rightarrow> 'ev ConsensusState \<Rightarrow> bool" where
  "working S cs \<longleftrightarrow>
     hvs_inv (se_ext S) (rs_Votes cs) \<and> hvs_chainID (rs_Votes cs) = se_chain S \<and> hvs_height (rs_Votes cs) = se_height S \<and>
     hvs_valSet (rs_Votes cs) = se_vals S \<and> hvs_round (rs_Votes cs) \<le> rs_Round cs + 1 \<and>
     votes_within (seen (cs_out cs)) (rs_Votes cs) \<and>
     (\<forall>u \<in> own S (cs_out cs). vote_Round u < rs_Round cs \<or> vote_Round u = rs_Round cs \<and> vote_step (vote_Type u) \<le> rs_Step cs) \<and>
     (\<forall>u \<in> own S (cs_out cs). vote_Type u = PrecommitType \<and> vhash u \<noteq> [] \<longrightarrow>
        locked_on S cs (vhash u) \<and> vote_Round u \<le> rs_LockedRound cs \<or> released S (seen (cs_out cs)) u (rs_Round cs))"

text \<open>The height follows from the last block.\<close>

definition height_ok :: "'ev ConsensusState \<Rightarrow> bool" where
  "height_ok cs \<longleftrightarrow> cs_started cs \<and> 0 \<le> st_LastBlockHeight (cs_state cs) \<and> 0 < rs_Height cs \<and> rs_Height cs \<le> MaxInt64 \<and>
     rs_Height cs = (if st_LastBlockHeight (cs_state cs) = 0 then st_InitialHeight (cs_state cs)
                     else st_LastBlockHeight (cs_state cs) + 1)"

definition timeouts_ok :: "'ev ConsensusState \<Rightarrow> bool" where
  "timeouts_ok cs \<longleftrightarrow> (\<forall>ti. ScheduleTimeout ti \<in> set (cs_out cs) \<longrightarrow>
     ti_Height ti < rs_Height cs \<or> ti_Height ti = rs_Height cs \<and> ti_Round ti \<le> rs_Round cs)"

text \<open>A stored block was precommitted.\<close>

definition store_ok :: "'ev setting \<Rightarrow> 'ev ConsensusState \<Rightarrow> bool" where
  "store_ok S cs \<longleftrightarrow> (\<forall>m. bs_db (blockStore cs) (calcBlockMetaKey (se_height S)) = Some (VMeta m) \<longrightarrow>
     bid_Hash (bm_BlockID m) \<noteq> [] \<and> (\<exists>r. precommitted S (seen (cs_out cs)) r (bid_Hash (bm_BlockID m))))"

definition node_inv :: "'ev setting \<Rightarrow> 'ev ConsensusState \<Rightarrow> bool" where
  "node_inv S cs \<longleftrightarrow> vs_wf (se_vals S) \<and> laws S (cs_out cs) \<and> (\<forall>v \<in> seen (cs_out cs). clean v) \<and> store_ok S cs \<and>
     timeouts_ok cs \<and> height_ok cs \<and> 0 \<le> rs_Round cs \<and> rs_Round cs \<le> MaxInt32 \<and> se_height S \<le> rs_Height cs \<and>
     (rs_Height cs = se_height S \<longrightarrow> working S cs)"

lemmas node_defs = node_inv_def working_def height_ok_def timeouts_ok_def store_ok_def locked_on_def

lemma node_inv_upd [simp]:
  "node_inv S (cs\<lparr>rs_StartTime := x1\<rparr>) = node_inv S cs"
  "node_inv S (cs\<lparr>rs_CommitTime := x2\<rparr>) = node_inv S cs"
  "node_inv S (cs\<lparr>rs_Validators := x3\<rparr>) = node_inv S cs"
  "node_inv S (cs\<lparr>rs_Proposal := x4\<rparr>) = node_inv S cs"
  "node_inv S (cs\<lparr>rs_ProposalBlock := x5\<rparr>) = node_inv S cs"
  "node_inv S (cs\<lparr>rs_ProposalBlockParts := x6\<rparr>) = node_inv S cs"
  "node_inv S (cs\<lparr>rs_LockedBlockParts := x7\<rparr>) = node_inv S cs"
  "node_inv S (cs\<lparr>rs_ValidRound := x8\<rparr>) = node_inv S cs"
  "node_inv S (cs\<lparr>rs_ValidBlock := x9\<rparr>) = node_inv S cs"
  "node_inv S (cs\<lparr>rs_ValidBlockParts := x10\<rparr>) = node_inv S cs"
  "node_inv S (cs\<lparr>rs_CommitRound := x11\<rparr>) = node_inv S cs"
  "node_inv S (cs\<lparr>rs_LastCommit := x12\<rparr>) = node_inv S cs"
  "node_inv S (cs\<lparr>rs_TriggeredTimeoutPrecommit := x13\<rparr>) = node_inv S cs"
  "node_inv S (cs\<lparr>privValidator := x14\<rparr>) = node_inv S cs"
  "node_inv S (cs\<lparr>privValidatorPubKey := x15\<rparr>) = node_inv S cs"
  by (simp_all add: node_defs)

section \<open>Elementary changes\<close>

lemma released_mono:
  "vs_wf (se_vals S) \<Longrightarrow> V \<subseteq> V' \<Longrightarrow> r \<le> r' \<Longrightarrow> released S V u r \<Longrightarrow> released S V' u r'"
  unfolding released_def by (meson order_trans quorum_for_mono)

lemma releasedI: "prevoted S V r' x \<Longrightarrow> vote_Round u < r' \<Longrightarrow> r' \<le> r \<Longrightarrow> vhash u \<noteq> x \<Longrightarrow> released S V u r"
  unfolding released_def by metis

lemma node_inv_emit:
  assumes "node_inv S cs" and "\<forall>v. out \<noteq> SendInternal (VoteMessage v)" and "\<forall>v. out = EventVote v \<longrightarrow> clean v"
    and "\<forall>ti. out = ScheduleTimeout ti \<longrightarrow> ti_Height ti = rs_Height cs \<and> ti_Round ti \<le> rs_Round cs"
  shows "node_inv S (emit out cs)"
proof -
  have wf: "vs_wf (se_vals S)" using assms(1) by (simp add: node_inv_def)
  have sub: "seen (cs_out cs) \<subseteq> seen (cs_out cs @ [out])" by (auto simp: seen_snoc)
  have "store_ok S (emit out cs)"
    using assms(1) quorum_for_mono [OF wf sub] unfolding node_inv_def store_ok_def emit_def by fastforce
  moreover have "timeouts_ok (emit out cs)" using assms(1,4) by (auto simp: node_inv_def timeouts_ok_def emit_def)
  moreover have "working S (emit out cs)" if "working S cs"
    using that assms(2) votes_within_mono [OF _ sub] released_mono [OF wf sub order_refl]
    by (auto simp: working_def emit_def own_snoc locked_on_def)
  ultimately show ?thesis
    using assms(1-3) by (auto simp: node_inv_def emit_def laws_snoc seen_snoc height_ok_def)
qed

lemma node_inv_newStep [simp]: "node_inv S cs \<Longrightarrow> node_inv S (newStep cs)"
  unfolding newStep_def by (rule node_inv_emit) auto

lemma node_inv_timeout:
  "node_inv S cs \<Longrightarrow> h = rs_Height cs \<Longrightarrow> r \<le> rs_Round cs \<Longrightarrow> node_inv S (scheduleTimeout d h r s cs)"
  unfolding scheduleTimeout_def by (rule node_inv_emit) auto

lemma node_inv_step:
  assumes "node_inv S cs" and "rs_Round cs < r \<or> rs_Round cs = r \<and> rs_Step cs \<le> s" and "r \<le> MaxInt32"
  shows "node_inv S (updateRoundStep r s cs)"
proof -
  have wf: "vs_wf (se_vals S)" and le: "rs_Round cs \<le> r" using assms by (auto simp: node_inv_def)
  have "working S (updateRoundStep r s cs)" if "working S cs"
    using that assms(2) le released_mono [OF wf order_refl le]
    by (fastforce simp: working_def updateRoundStep_def locked_on_def)
  then show ?thesis using assms le by (auto simp: node_inv_def updateRoundStep_def store_ok_def timeouts_ok_def height_ok_def)
qed

text \<open>New vote sets.\<close>

lemma node_inv_votes:
  assumes "node_inv S cs" and "rs_Height cs = se_height S \<Longrightarrow> hvs_inv (se_ext S) hvs \<and> same_height hvs (rs_Votes cs) \<and>
      hvs_round hvs \<le> rs_Round cs + 1 \<and> votes_within (seen (cs_out cs)) hvs"
  shows "node_inv S (cs\<lparr>rs_Votes := hvs\<rparr>)"
  using assms by (auto simp: node_defs same_height_def)

text \<open>A reported majority of prevotes or precommits.\<close>

lemma reported_prevotes:
  assumes "node_inv S cs" and "rs_Height cs = se_height S" and "TwoThirdsMajority (Prevotes (rs_Votes cs) r) = (b, True)"
  shows "prevoted S (seen (cs_out cs)) r (bid_Hash b)"
proof -
  obtain rvs where rvs: "roundVoteSets (rs_Votes cs) r = Some rvs" "maj23 (rvs_Prevotes rvs) = Some b"
    using assms(3) by (auto simp: TwoThirdsMajority_def Prevotes_def split: option.splits)
  have w: "working S cs" and c: "\<forall>v \<in> seen (cs_out cs). clean v" using assms(1,2) by (auto simp: node_inv_def)
  have "slot_ok (se_ext S) (rs_Votes cs) r PrevoteType (rvs_Prevotes rvs)"
    using w rvs(1) hvs_invD(4) by (auto simp: working_def)
  moreover have "rvs_Prevotes rvs \<in> slots (rs_Votes cs)" using rvs(1) by (auto simp: slots_def)
  then have "tallied (rvs_Prevotes rvs) \<subseteq> seen (cs_out cs)" "b \<in> vote_BlockID ` tallied (rvs_Prevotes rvs)"
    using w rvs(2) by (auto simp: working_def votes_within_def)
  ultimately have "quorum_for (se_ext S) (hvs_chainID (rs_Votes cs)) (hvs_valSet (rs_Votes cs)) (seen (cs_out cs))
      (hvs_height (rs_Votes cs)) r PrevoteType (bid_Hash b)"
    using seen_maj23_quorum [OF _ rvs(2) _ _ c] by blast
  then show ?thesis using w by (simp add: working_def)
qed

lemma reported_precommits:
  assumes "node_inv S cs" and "rs_Height cs = se_height S" and "TwoThirdsMajority (Precommits (rs_Votes cs) r) = (b, True)"
  shows "precommitted S (seen (cs_out cs)) r (bid_Hash b)"
proof -
  obtain rvs where rvs: "roundVoteSets (rs_Votes cs) r = Some rvs" "maj23 (rvs_Precommits rvs) = Some b"
    using assms(3) by (auto simp: TwoThirdsMajority_def Precommits_def split: option.splits)
  have w: "working S cs" and c: "\<forall>v \<in> seen (cs_out cs). clean v" using assms(1,2) by (auto simp: node_inv_def)
  have "slot_ok (se_ext S) (rs_Votes cs) r PrecommitType (rvs_Precommits rvs)"
    using w rvs(1) hvs_invD(4) by (auto simp: working_def)
  moreover have "rvs_Precommits rvs \<in> slots (rs_Votes cs)" using rvs(1) by (auto simp: slots_def)
  then have "tallied (rvs_Precommits rvs) \<subseteq> seen (cs_out cs)" "b \<in> vote_BlockID ` tallied (rvs_Precommits rvs)"
    using w rvs(2) by (auto simp: working_def votes_within_def)
  ultimately have "quorum_for (se_ext S) (hvs_chainID (rs_Votes cs)) (hvs_valSet (rs_Votes cs)) (seen (cs_out cs))
      (hvs_height (rs_Votes cs)) r PrecommitType (bid_Hash b)"
    using seen_maj23_quorum [OF _ rvs(2) _ _ c] by blast
  then show ?thesis using w by (simp add: working_def)
qed

text \<open>Own precommits for a block while the node has not yet precommitted in its round.\<close>

lemma precommits_before:
  assumes "node_inv S cs" and "rs_Height cs = se_height S" and "rs_Step cs < RoundStepPrecommit"
    and "u \<in> own S (cs_out cs)" and "vote_Type u = PrecommitType"
  shows "vote_Round u < rs_Round cs"
  using assms by (auto simp: node_inv_def working_def vote_step_def)

lemma node_inv_relock:
  assumes "node_inv S cs"
    and "rs_Height cs = se_height S \<Longrightarrow> \<forall>u \<in> own S (cs_out cs). vote_Type u = PrecommitType \<and> vhash u \<noteq> [] \<longrightarrow>
        (\<exists>blk. b = Some blk \<and> Block_Hash (se_ext S) (se_hash S) (se_evidence S) (Some blk) = Some (vhash u)) \<and> vote_Round u \<le> r \<or>
        released S (seen (cs_out cs)) u (rs_Round cs)"
  shows "node_inv S (cs\<lparr>rs_LockedRound := r, rs_LockedBlock := b, rs_LockedBlockParts := ps\<rparr>)"
  using assms by (auto simp: node_defs)

section \<open>Voting\<close>

lemma SignAndCheckVote_vote:
  assumes "SignAndCheckVote pe pv disk chain vote ext = Some (pv', disk', v, recov, err)"
  shows "vote_Type v = vote_Type vote \<and> vote_Height v = vote_Height vote \<and> vote_Round v = vote_Round vote \<and>
    vote_BlockID v = vote_BlockID vote"
  using assms by (auto simp: SignAndCheckVote_def Let_def split: bind_splits if_splits)

lemma cs_signVote_cases:
  assumes "cs_signVote en t hash psh block cs = Some (cs', r)"
  shows "cs' = cs\<lparr>privValidator := privValidator cs'\<rparr> \<and>
    (\<forall>v. r = Some v \<longrightarrow> vote_Type v = t \<and> vote_Height v = rs_Height cs \<and> vote_Round v = rs_Round cs \<and>
       vote_BlockID v = \<lparr>bid_Hash = hash, bid_PartSetHeader = psh\<rparr>)"
  using assms
  by (auto simp: cs_signVote_def Let_def dest!: SignAndCheckVote_vote split: bind_splits if_splits option.splits)

lemma signAddVote_cases:
  assumes "signAddVote en t hash psh block cs = Some cs'"
  shows "cs' = cs\<lparr>privValidator := privValidator cs', cs_out := cs_out cs'\<rparr> \<and> (cs_out cs' = cs_out cs \<or>
    (\<exists>v. cs_out cs' = cs_out cs @ [SendInternal (VoteMessage v)] \<and> vote_Type v = t \<and> vote_Height v = rs_Height cs \<and>
       vote_Round v = rs_Round cs \<and> vote_BlockID v = \<lparr>bid_Hash = hash, bid_PartSetHeader = psh\<rparr>))"
proof (cases "cs' = cs")
  case False
  then obtain cs1 r where c: "cs_signVote en t hash psh block cs = Some (cs1, r)"
    "cs' = cs1 \<or> (\<exists>v. r = Some v \<and> cs' = sendInternalMessage (VoteMessage v) cs1)"
    using assms by (auto simp: signAddVote_def Let_def split: bind_splits if_splits option.splits)
  note p = cs_signVote_cases [OF c(1)]
  have "cs_out cs1 = cs_out cs" by (subst p [THEN conjunct1]) simp
  moreover have "cs1 = cs\<lparr>privValidator := privValidator cs1\<rparr>" using p by simp
  ultimately show ?thesis using c(2) p by (auto simp: sendInternalMessage_def emit_def)
qed simp

text \<open>Casting a vote and moving to its step.\<close>

lemma node_inv_vote:
  assumes inv: "node_inv S cs" and t: "t = PrevoteType \<or> t = PrecommitType" and step: "rs_Step cs < vote_step t"
    and sign: "signAddVote en t hash psh block cs = Some cs'"
    and pv: "t = PrevoteType \<Longrightarrow> rs_Height cs = se_height S \<Longrightarrow> \<forall>x. locked_on S cs x \<longrightarrow> hash = x"
    and pc: "t = PrecommitType \<Longrightarrow> rs_Height cs = se_height S \<Longrightarrow> hash \<noteq> [] \<Longrightarrow>
      prevoted S (seen (cs_out cs)) (rs_Round cs) hash \<and> locked_on S cs hash \<and> rs_LockedRound cs = rs_Round cs"
  shows "node_inv S (updateRoundStep (rs_Round cs) (vote_step t) cs')"
proof -
  obtain p outs where cs': "cs' = cs\<lparr>privValidator := p, cs_out := cs_out cs @ outs\<rparr>"
    and outs: "outs = [] \<or> (\<exists>v. outs = [SendInternal (VoteMessage v)] \<and> vote_Type v = t \<and> vote_Height v = rs_Height cs \<and>
       vote_Round v = rs_Round cs \<and> vote_BlockID v = \<lparr>bid_Hash = hash, bid_PartSetHeader = psh\<rparr>)"
    using signAddVote_cases [OF sign] by (metis append_Nil2)
  show ?thesis
  proof (cases "outs = []")
    case True
    then have "cs' = cs\<lparr>privValidator := p\<rparr>" using cs' by simp
    then have "node_inv S cs'" "rs_Round cs' = rs_Round cs" "rs_Step cs' = rs_Step cs" using inv by auto
    then show ?thesis using step inv by (intro node_inv_step) (auto simp: node_inv_def)
  next
    case False
    then obtain v where v: "outs = [SendInternal (VoteMessage v)]" "vote_Type v = t" "vote_Height v = rs_Height cs"
      "vote_Round v = rs_Round cs" "vhash v = hash" using outs by auto
    let ?tr = "cs_out cs @ [SendInternal (VoteMessage v)]"
    let ?cs = "updateRoundStep (rs_Round cs) (vote_step t) cs'"
    have sel: "cs_out ?cs = ?tr" "rs_Height ?cs = rs_Height cs" "rs_Round ?cs = rs_Round cs" "rs_Step ?cs = vote_step t"
      "rs_Votes ?cs = rs_Votes cs" "rs_LockedRound ?cs = rs_LockedRound cs" "rs_LockedBlock ?cs = rs_LockedBlock cs"
      by (simp_all add: updateRoundStep_def cs' v(1))
    have seen: "seen ?tr = seen (cs_out cs)" by (auto simp: seen_snoc)
    have w: "working S cs" if "rs_Height cs = se_height S" using inv that by (simp add: node_inv_def)
    have law: "vote_law S (cs_out cs) v"
    proof -
      have "in64 (rs_Height cs)" "in32 (rs_Round cs)" using inv by (auto simp: node_inv_def height_ok_def in64_def in32_def)
      moreover have "earlier u v" if "rs_Height cs = se_height S" "u \<in> own S (cs_out cs)" for u
        using w [OF that(1)] that(2) step t v by (auto simp: working_def earlier_def vote_step_def split: if_splits)
      moreover have "released S (seen (cs_out cs)) u (rs_Round cs)"
        if "rs_Height cs = se_height S" "t = PrevoteType" "u \<in> own S (cs_out cs)" "vote_Type u = PrecommitType" "vhash u \<noteq> []" "vhash u \<noteq> hash" for u
        using w [OF that(1)] pv [OF that(2,1)] that(3-) by (auto simp: working_def)
      ultimately show ?thesis using v t pc by (auto simp: vote_law_def)
    qed
    have "working S ?cs" if h: "rs_Height cs = se_height S"
    proof -
      have "vote_Round u < rs_Round cs \<or> vote_Round u = rs_Round cs \<and> vote_step (vote_Type u) \<le> vote_step t" if "u \<in> own S ?tr" for u
        using w [OF h] that step v by (auto simp: working_def own_snoc)
      moreover have "locked_on S ?cs (vhash u) \<and> vote_Round u \<le> rs_LockedRound cs \<or> released S (seen (cs_out cs)) u (rs_Round cs)"
        if "u \<in> own S ?tr" "vote_Type u = PrecommitType" "vhash u \<noteq> []" for u
        using w [OF h] that v pc h by (auto simp: working_def own_snoc locked_on_def sel)
      ultimately show ?thesis using w [OF h] by (simp add: working_def sel seen)
    qed
    moreover have "store_ok S ?cs" "timeouts_ok ?cs" "height_ok ?cs"
      using inv by (auto simp: node_inv_def store_ok_def timeouts_ok_def height_ok_def updateRoundStep_def cs' v(1) seen)
    ultimately show ?thesis using inv law by (simp add: node_inv_def sel seen laws_snoc)
  qed
qed

section \<open>The steps of a round keep the discipline\<close>

text \<open>A handler adds to the outputs, takes no vote into account and moves forward.\<close>

definition onward :: "'ev ConsensusState \<Rightarrow> 'ev ConsensusState \<Rightarrow> bool" where
  "onward cs cs' \<longleftrightarrow> (\<exists>outs. cs_out cs' = cs_out cs @ outs \<and> seen outs = {}) \<and>
     (rs_Height cs < rs_Height cs' \<or> rs_Height cs = rs_Height cs' \<and>
       (rs_Round cs < rs_Round cs' \<or> rs_Round cs = rs_Round cs' \<and> rs_Step cs \<le> rs_Step cs'))"

definition stays :: "'ev ConsensusState \<Rightarrow> 'ev ConsensusState \<Rightarrow> bool" where
  "stays cs cs' \<longleftrightarrow> onward cs cs' \<and> rs_Height cs' = rs_Height cs"

lemma onward_refl [simp]: "onward cs cs"
  by (simp add: onward_def)

lemma onward_trans: "onward a b \<Longrightarrow> onward b c \<Longrightarrow> onward a c"
  unfolding onward_def by (elim conjE exE) (intro conjI, simp, linarith)

lemma stays_refl [simp]: "stays cs cs"
  by (simp add: stays_def)

lemma stays_trans: "stays a b \<Longrightarrow> stays b c \<Longrightarrow> stays a c"
  unfolding stays_def using onward_trans by (metis)

text \<open>Nothing but outputs and fields without bearing on the position.\<close>

definition in_place :: "'ev ConsensusState \<Rightarrow> 'ev ConsensusState \<Rightarrow> bool" where
  "in_place cs cs' \<longleftrightarrow> (\<exists>outs. cs_out cs' = cs_out cs @ outs \<and> seen outs = {}) \<and> rs_Height cs' = rs_Height cs \<and> rs_Round cs' = rs_Round cs \<and>
     rs_Step cs' = rs_Step cs"

lemma in_place_refl [simp]: "in_place cs cs"
  by (simp add: in_place_def)

lemma in_place_trans: "in_place a b \<Longrightarrow> in_place b c \<Longrightarrow> in_place a c"
  by (auto simp: in_place_def)

lemma in_place_stays: "in_place cs cs' \<Longrightarrow> stays cs cs'"
  by (auto simp: in_place_def stays_def onward_def)

lemma in_place_emit [simp]: "in_place cs (newStep cs)" "in_place cs (scheduleTimeout d h r s cs)" "in_place cs (sendInternalMessage m cs)"
  by (simp_all add: in_place_def emit_def newStep_def scheduleTimeout_def sendInternalMessage_def)

lemma in_place_sel: "in_place cs cs' \<Longrightarrow> rs_Height cs' = rs_Height cs \<and> rs_Round cs' = rs_Round cs \<and> rs_Step cs' = rs_Step cs"
  by (simp add: in_place_def)

lemma signAddVote_in_place:
  assumes "signAddVote en t hash psh block cs = Some cs'"
  shows "in_place cs cs'"
proof -
  obtain p outs where "cs' = cs\<lparr>privValidator := p, cs_out := cs_out cs @ outs\<rparr>"
    and "outs = [] \<or> (\<exists>v. outs = [SendInternal (VoteMessage v)])"
    using signAddVote_cases [OF assms] by (metis append_Nil2)
  then show ?thesis by (auto simp: in_place_def)
qed

lemma step_stays:
  assumes "in_place cs cs'" and "rs_Round cs < r \<or> rs_Round cs = r \<and> rs_Step cs \<le> s"
  shows "stays cs (newStep (updateRoundStep r s cs'))"
  using assms by (auto simp: in_place_def stays_def onward_def newStep_def emit_def updateRoundStep_def)

lemma vote_step_simps [simp]: "vote_step PrevoteType = RoundStepPrevote" "vote_step PrecommitType = RoundStepPrecommit"
  by (simp_all add: vote_step_def)

lemma en_Hash_setting: "en_ok S en \<Longrightarrow> en_Hash en = Block_Hash (se_ext S) (se_hash S) (se_evidence S)"
  by (simp add: en_ok_def)

lemma en_HashesTo_iff:
  assumes "en_ok S en" and "en_HashesTo en p x = Some b"
  shows "b \<longleftrightarrow> x \<noteq> [] \<and> (\<exists>blk. p = Some blk \<and> Block_Hash (se_ext S) (se_hash S) (se_evidence S) (Some blk) = Some x)"
  using assms by (auto simp: en_ok_def HashesTo_def split: if_splits option.splits bind_splits)

lemma defaultDoPrevote_cases:
  assumes "defaultDoPrevote en cs = Some cs'"
  obtains hash psh where "signAddVote en PrevoteType hash psh None cs = Some cs'"
    "\<forall>b. rs_LockedBlock cs = Some b \<longrightarrow> en_Hash en (Some b) = Some hash"
  using assms by (auto simp: defaultDoPrevote_def split: if_splits option.splits bind_splits)

lemma enterPrevote_inv:
  assumes inv: "node_inv S cs" and en: "en_ok S en" and run: "enterPrevote en h r cs = Some cs'"
    and r: "rs_Height cs = h \<Longrightarrow> r \<le> rs_Round cs"
  shows "node_inv S cs' \<and> stays cs cs'"
proof (cases "behind h r RoundStepPrevote cs")
  case False
  then have pos: "rs_Height cs = h" "r = rs_Round cs" "rs_Step cs < RoundStepPrevote" using r by (auto simp: behind_def)
  obtain cs1 where cs1: "defaultDoPrevote en cs = Some cs1" "cs' = newStep (updateRoundStep r RoundStepPrevote cs1)"
    using run False by (auto simp: enterPrevote_def split: bind_splits)
  obtain hash psh where sign: "signAddVote en PrevoteType hash psh None cs = Some cs1"
    and locked: "\<forall>b. rs_LockedBlock cs = Some b \<longrightarrow> en_Hash en (Some b) = Some hash"
    using defaultDoPrevote_cases [OF cs1(1)] .
  have "node_inv S (updateRoundStep (rs_Round cs) (vote_step PrevoteType) cs1)"
    using locked en_Hash_setting [OF en] pos(3)
    by (intro node_inv_vote [OF inv _ _ sign]) (auto simp: locked_on_def)
  moreover have "stays cs cs'" unfolding cs1(2) using signAddVote_in_place [OF sign] pos by (intro step_stays) auto
  ultimately show ?thesis using pos(2) cs1(2) by simp
qed (use run inv in \<open>simp add: enterPrevote_def\<close>)

text \<open>The state in which \<open>precommit_polka\<close> votes.\<close>

lemma node_inv_unlock:
  assumes inv: "node_inv S cs" and polka: "rs_Height cs = se_height S \<Longrightarrow> prevoted S (seen (cs_out cs)) r x" and r: "r \<le> rs_Round cs"
    and u: "\<And>u. rs_Height cs = se_height S \<Longrightarrow> u \<in> own S (cs_out cs) \<Longrightarrow> vote_Type u = PrecommitType \<Longrightarrow> vhash u \<noteq> [] \<Longrightarrow>
      locked_on S cs (vhash u) \<Longrightarrow> vote_Round u \<le> rs_LockedRound cs \<Longrightarrow> vhash u \<noteq> x \<and> vote_Round u < r"
  shows "node_inv S (unlock cs)"
  unfolding unlock_def
proof (rule node_inv_relock [OF inv], intro ballI impI disjI2, elim conjE)
  fix v assume v: "rs_Height cs = se_height S" "v \<in> own S (cs_out cs)" "vote_Type v = PrecommitType" "vhash v \<noteq> []"
  then consider "locked_on S cs (vhash v)" "vote_Round v \<le> rs_LockedRound cs" | "released S (seen (cs_out cs)) v (rs_Round cs)"
    using inv by (auto simp: node_inv_def working_def)
  then show "released S (seen (cs_out cs)) v (rs_Round cs)"
    using u [OF v] releasedI [OF polka [OF v(1)] _ r] by cases auto
qed

lemma node_inv_lock:
  assumes inv: "node_inv S cs" and polka: "rs_Height cs = se_height S \<Longrightarrow> prevoted S (seen (cs_out cs)) (rs_Round cs) x"
    and b: "Block_Hash (se_ext S) (se_hash S) (se_evidence S) (Some blk) = Some x" and step: "rs_Step cs < RoundStepPrecommit"
  shows "node_inv S (cs\<lparr>rs_LockedRound := rs_Round cs, rs_LockedBlock := Some blk, rs_LockedBlockParts := ps\<rparr>)"
proof (rule node_inv_relock [OF inv], intro ballI impI, elim conjE)
  fix u assume u: "rs_Height cs = se_height S" "u \<in> own S (cs_out cs)" "vote_Type u = PrecommitType" "vhash u \<noteq> []"
  have "vote_Round u < rs_Round cs" using precommits_before [OF inv u(1) step u(2,3)] .
  then show "(\<exists>b. Some blk = Some b \<and> Block_Hash (se_ext S) (se_hash S) (se_evidence S) (Some b) = Some (vhash u)) \<and>
      vote_Round u \<le> rs_Round cs \<or> released S (seen (cs_out cs)) u (rs_Round cs)"
    using b releasedI [OF polka [OF u(1)] _ order_refl] by (cases "vhash u = x") auto
qed

lemma precommit_polka_cases:
  assumes "en_ok S en" and "precommit_polka en r blockID cs = Some cs'"
  obtains
    (nil) "bid_Hash blockID = []" "signAddNil en PrecommitType (if rs_LockedBlock cs = None then cs else unlock cs) = Some cs'"
  | (relock) b where "bid_Hash blockID \<noteq> []" "rs_LockedBlock cs = Some b"
      "Block_Hash (se_ext S) (se_hash S) (se_evidence S) (Some b) = Some (bid_Hash blockID)"
      "signAddVote en PrecommitType (bid_Hash blockID) (bid_PartSetHeader blockID) (rs_LockedBlock cs) (cs\<lparr>rs_LockedRound := r\<rparr>) = Some cs'"
  | (lock) b where "bid_Hash blockID \<noteq> []" "rs_ProposalBlock cs = Some b"
      "Block_Hash (se_ext S) (se_hash S) (se_evidence S) (Some b) = Some (bid_Hash blockID)"
      "signAddVote en PrecommitType (bid_Hash blockID) (bid_PartSetHeader blockID) (Some b) (cs\<lparr>rs_LockedRound := r,
         rs_LockedBlock := rs_ProposalBlock cs, rs_LockedBlockParts := rs_ProposalBlockParts cs\<rparr>) = Some cs'"
  | (other) c where "bid_Hash blockID \<noteq> []" "\<not> locked_on S cs (bid_Hash blockID)"
      "c = unlock cs \<or> (\<exists>p ps. c = (unlock cs)\<lparr>rs_ProposalBlock := p, rs_ProposalBlockParts := ps\<rparr>)"
      "signAddNil en PrecommitType c = Some cs'"
proof (cases "bid_Hash blockID = []")
  case True
  then show ?thesis using assms(2) that(1) by (simp add: precommit_polka_def)
next
  case False
  then obtain locked where locked: "en_HashesTo en (rs_LockedBlock cs) (bid_Hash blockID) = Some locked"
    using assms(2) by (auto simp: precommit_polka_def split: bind_splits)
  note l = en_HashesTo_iff [OF assms(1) locked]
  show ?thesis
  proof (cases locked)
    case True
    then show ?thesis using assms(2) False l locked that(2) by (auto simp: precommit_polka_def)
  next
    case nl: False
    then obtain match where match: "en_HashesTo en (rs_ProposalBlock cs) (bid_Hash blockID) = Some match"
      using assms(2) False locked by (auto simp: precommit_polka_def split: bind_splits)
    note p = en_HashesTo_iff [OF assms(1) match]
    show ?thesis
    proof (cases match)
      case True
      then show ?thesis using assms(2) False nl p locked match that(3) by (auto simp: precommit_polka_def split: bind_splits if_splits)
    next
      case np: False
      let ?c = "unlock cs" and ?ps = "Some (NewPartSetFromHeader (bid_PartSetHeader blockID))"
      have "\<not> locked_on S cs (bid_Hash blockID)" using l nl False by (auto simp: locked_on_def)
      moreover have "signAddNil en PrecommitType (if HasHeader (rs_ProposalBlockParts ?c) (bid_PartSetHeader blockID) then ?c
          else ?c\<lparr>rs_ProposalBlock := None, rs_ProposalBlockParts := ?ps\<rparr>) = Some cs'"
        using assms(2) False nl np locked match by (simp add: precommit_polka_def Let_def)
      ultimately show ?thesis using False that(4) by (cases "HasHeader (rs_ProposalBlockParts ?c) (bid_PartSetHeader blockID)") auto
    qed
  qed
qed

lemma precommit_polka_inv:
  assumes inv: "node_inv S cs" and en: "en_ok S en" and run: "precommit_polka en (rs_Round cs) blockID cs = Some cs'"
    and polka: "rs_Height cs = se_height S \<Longrightarrow> prevoted S (seen (cs_out cs)) (rs_Round cs) (bid_Hash blockID)"
    and step: "rs_Step cs < RoundStepPrecommit"
  shows "node_inv S (updateRoundStep (rs_Round cs) RoundStepPrecommit cs') \<and> in_place cs cs'"
proof -
  let ?x = "bid_Hash blockID" and ?BH = "\<lambda>b. Block_Hash (se_ext S) (se_hash S) (se_evidence S) (Some b)"
  have before: "vote_Round u < rs_Round cs" if "rs_Height cs = se_height S" "u \<in> own S (cs_out cs)" "vote_Type u = PrecommitType" for u
    using precommits_before [OF inv that(1) step that(2,3)] .
  have cast: ?thesis
    if c: "node_inv S c" "in_place cs c" "signAddVote en PrecommitType y psh blk c = Some cs'"
      and law: "y \<noteq> [] \<Longrightarrow> locked_on S c y \<and> rs_LockedRound c = rs_Round cs \<and> y = ?x \<and> cs_out c = cs_out cs" for c y psh blk
  proof -
    have sel: "rs_Round c = rs_Round cs" "rs_Step c = rs_Step cs" "rs_Height c = rs_Height cs" using in_place_sel [OF c(2)] by auto
    have "node_inv S (updateRoundStep (rs_Round c) (vote_step PrecommitType) cs')"
      using step law polka by (intro node_inv_vote [OF c(1) _ _ c(3)]) (auto simp: sel)
    then show ?thesis using in_place_trans [OF c(2) signAddVote_in_place [OF c(3)]] by (simp add: sel)
  qed
  show ?thesis
  proof (rule precommit_polka_cases [OF en run], goal_cases nil relock lock other)
    case nil
    have "node_inv S (unlock cs)"
      using before nil(1) by (intro node_inv_unlock [OF inv polka order_refl]) auto
    then show ?thesis using inv by (intro cast [OF _ _ nil(2)]) (auto simp: unlock_def in_place_def)
  next
    case (relock b)
    have "cs\<lparr>rs_LockedRound := rs_Round cs\<rparr> = cs\<lparr>rs_LockedRound := rs_Round cs, rs_LockedBlock := Some b, rs_LockedBlockParts := rs_LockedBlockParts cs\<rparr>"
      using relock(2) by simp
    then have "node_inv S (cs\<lparr>rs_LockedRound := rs_Round cs\<rparr>)" using node_inv_lock [OF inv polka relock(3) step] by metis
    then show ?thesis by (rule cast [OF _ _ relock(4)]) (use relock in \<open>auto simp: in_place_def locked_on_def\<close>)
  next
    case (lock b)
    then have "node_inv S (cs\<lparr>rs_LockedRound := rs_Round cs, rs_LockedBlock := rs_ProposalBlock cs, rs_LockedBlockParts := rs_ProposalBlockParts cs\<rparr>)"
      using node_inv_lock [OF inv polka lock(3) step] by simp
    then show ?thesis by (rule cast [OF _ _ lock(4)]) (use lock in \<open>auto simp: in_place_def locked_on_def\<close>)
  next
    case (other c)
    have "node_inv S (unlock cs)"
      using before other(2) by (intro node_inv_unlock [OF inv polka order_refl]) auto
    then have "node_inv S c" using other(3) by auto
    then show ?thesis by (rule cast [OF _ _ other(4)]) (use other(3) in \<open>auto simp: in_place_def unlock_def\<close>)
  qed
qed

end
