(* ===== verification/Consensus_Safety.thy ===== *)
theory Consensus_Safety
  imports Consensus_Discipline
begin

text \<open>
  Every event keeps the discipline of a node, and what follows for one node: it moves forward only, it
  votes at most once per step, it precommits and prevotes against an earlier precommit only after
  majorities of prevotes, and it stores a block only after a majority of precommits.
\<close>

section \<open>The steps of a round\<close>

lemma enterPrecommit_inv:
  assumes inv: "node_inv S cs" and en: "en_ok S en" and run: "enterPrecommit en h r cs = Some cs'"
    and r: "rs_Height cs = h \<Longrightarrow> r \<le> rs_Round cs"
  shows "node_inv S cs' \<and> stays cs cs'"
proof (cases "behind h r RoundStepPrecommit cs")
  case False
  then have pos: "rs_Height cs = h" "r = rs_Round cs" "rs_Step cs < RoundStepPrecommit" using r by (auto simp: behind_def)
  obtain b ok where maj: "TwoThirdsMajority (Prevotes (rs_Votes cs) r) = (b, ok)" by fastforce
  obtain cs1 where cs1: "(if \<not> ok then signAddNil en PrecommitType cs
       else if fst (POLInfo (rs_Votes cs)) < r then None else precommit_polka en r b cs) = Some cs1"
    "cs' = newStep (updateRoundStep r RoundStepPrecommit cs1)"
    using run False maj by (auto simp: enterPrecommit_def split: bind_splits)
  have "node_inv S (updateRoundStep (rs_Round cs) RoundStepPrecommit cs1) \<and> in_place cs cs1"
  proof (cases ok)
    case True
    then have "precommit_polka en (rs_Round cs) b cs = Some cs1" using cs1(1) pos(2) by (auto split: if_splits)
    then show ?thesis using reported_prevotes [OF inv] maj True pos by (intro precommit_polka_inv [OF inv en]) auto
  next
    case nok: False
    then have sign: "signAddNil en PrecommitType cs = Some cs1" using cs1(1) by simp
    have "node_inv S (updateRoundStep (rs_Round cs) (vote_step PrecommitType) cs1)"
      using pos(3) by (intro node_inv_vote [OF inv _ _ sign]) auto
    then show ?thesis using signAddVote_in_place [OF sign] by simp
  qed
  then show ?thesis using pos cs1(2) step_stays [of cs cs1 r RoundStepPrecommit] by simp
qed (use run inv in \<open>simp add: enterPrecommit_def\<close>)

lemma node_inv_send: "node_inv S cs \<Longrightarrow> (\<forall>v. m \<noteq> VoteMessage v) \<Longrightarrow> node_inv S (sendInternalMessage m cs)"
  unfolding sendInternalMessage_def by (rule node_inv_emit) auto

lemma send_parts_inv:
  "send_parts h r ps is cs = Some cs' \<Longrightarrow> node_inv S cs \<Longrightarrow> node_inv S cs' \<and> in_place cs cs'"
proof (induction h r ps "is" cs rule: send_parts.induct)
  case (2 h r ps i "is" cs)
  then obtain part where part: "GetPart ps (int i) = Some part"
      "send_parts h r ps is (sendInternalMessage (BlockPartMessage h r part) cs) = Some cs'"
    by (auto split: bind_splits)
  then show ?case
    using "2.IH" [OF part node_inv_send [OF "2.prems"(2)]] in_place_trans [OF in_place_emit(3)] by auto
qed simp

lemma in_place_quiet [simp]:
  "in_place cs (cs\<lparr>privValidator := p\<rparr>)" "in_place cs (cs\<lparr>rs_Validators := v\<rparr>)"
  by (simp_all add: in_place_def)

lemma announce_inv:
  assumes "node_inv S cs"
  shows "node_inv S (sendInternalMessage (ProposalMessage p) (cs\<lparr>privValidator := q\<rparr>)) \<and>
    in_place cs (sendInternalMessage (ProposalMessage p) (cs\<lparr>privValidator := q\<rparr>))"
  using assms by (auto intro!: node_inv_send in_place_trans [OF in_place_quiet(1) in_place_emit(3)])

lemma announce_parts_inv:
  assumes "send_parts h r ps is (sendInternalMessage (ProposalMessage p) (cs\<lparr>privValidator := q\<rparr>)) = Some cs'" and "node_inv S cs"
  shows "node_inv S cs' \<and> in_place cs cs'"
  using send_parts_inv [OF assms(1)] announce_inv [OF assms(2)] in_place_trans by blast

lemma defaultDecideProposal_inv:
  assumes "defaultDecideProposal en h r cs = Some cs'" and "node_inv S cs"
  shows "node_inv S cs' \<and> in_place cs cs'"
proof -
  obtain bp where bp: "proposal_parts en cs = Some bp" using assms(1) by (auto simp: defaultDecideProposal_def split: bind_splits)
  show ?thesis
  proof (cases bp)
    case None
    then show ?thesis using assms bp by (simp add: defaultDecideProposal_def)
  next
    case (Some x)
    obtain block parts where x: "x = (block, parts)" by (cases x)
    have run: "defaultDecideProposal en h r cs = Some cs'" "proposal_parts en cs = Some (Some (block, parts))"
      using assms(1) bp Some x by auto
    show ?thesis
      using run assms(2) announce_inv [OF assms(2)] announce_parts_inv [OF _ assms(2)]
      by (cases parts) (auto simp: defaultDecideProposal_def Let_def split: bind_splits if_splits)
  qed
qed

lemma maybe_propose_inv:
  assumes "maybe_propose en h r cs = Some cs'" and "node_inv S cs"
  shows "node_inv S cs' \<and> in_place cs cs'"
proof (cases "cs' = cs")
  case False
  then have "\<exists>vals. cs' = cs\<lparr>rs_Validators := vals\<rparr> \<or> defaultDecideProposal en h r (cs\<lparr>rs_Validators := vals\<rparr>) = Some cs'"
    using assms(1) by (auto simp: maybe_propose_def isProposer_def Let_def split: bind_splits if_splits option.splits; blast)
  then obtain vals c where c: "c = cs\<lparr>rs_Validators := vals\<rparr>" "cs' = c \<or> defaultDecideProposal en h r c = Some cs'" by blast
  have inv: "node_inv S c" "in_place cs c" using c(1) assms(2) by simp_all
  from c(2) show ?thesis
  proof
    assume run: "defaultDecideProposal en h r c = Some cs'"
    show ?thesis using defaultDecideProposal_inv [OF run inv(1)] in_place_trans [OF inv(2)] by blast
  qed (use inv in simp)
qed (use assms(2) in simp)

lemma enterPropose_inv:
  assumes inv: "node_inv S cs" and en: "en_ok S en" and run: "enterPropose en h r cs = Some cs'"
    and r: "rs_Height cs = h \<Longrightarrow> r \<le> rs_Round cs"
  shows "node_inv S cs' \<and> stays cs cs'"
proof (cases "behind h r RoundStepPropose cs")
  case False
  then have pos: "rs_Height cs = h" "r = rs_Round cs" "rs_Step cs < RoundStepPropose" using r by (auto simp: behind_def)
  let ?c0 = "scheduleTimeout (cfg_Propose (en_config en) r) h r RoundStepPropose cs"
  obtain c where c: "maybe_propose en h r ?c0 = Some c"
    using run False by (auto simp: enterPropose_def split: bind_splits)
  let ?c1 = "newStep (updateRoundStep r RoundStepPropose c)"
  have run': "(if isProposalComplete ?c1 then enterPrevote en h (rs_Round ?c1) ?c1 else Some ?c1) = Some cs'"
    using run False c by (simp add: enterPropose_def Let_def)
  have "node_inv S ?c0" using inv pos by (intro node_inv_timeout) auto
  then have ci: "node_inv S c" "in_place cs c"
    using maybe_propose_inv [OF c] in_place_trans [OF in_place_emit(2)] by blast+
  have c1: "node_inv S ?c1"
    using in_place_sel [OF ci(2)] pos inv by (intro node_inv_newStep node_inv_step [OF ci(1)]) (auto simp: node_inv_def)
  have st: "stays cs ?c1" using pos by (intro step_stays [OF ci(2)]) auto
  show ?thesis
  proof (cases "isProposalComplete ?c1")
    case True
    then have "enterPrevote en h (rs_Round ?c1) ?c1 = Some cs'" using run' by simp
    then show ?thesis using enterPrevote_inv [OF c1 en] stays_trans [OF st] by blast
  next
    case False
    then have "cs' = ?c1" using run' by simp
    then show ?thesis using c1 st by blast
  qed
qed (use run inv in \<open>simp add: enterPropose_def\<close>)

text \<open>Setting up a round.\<close>

lemma setup_round_inv:
  assumes inv: "node_inv S cs" and run: "setup_round r cs = Some cs'" and r: "in32 r"
    and pos: "rs_Round cs < r \<or> rs_Round cs = r \<and> rs_Step cs = RoundStepNewHeight"
  shows "node_inv S cs' \<and> stays cs cs' \<and> rs_Round cs' = r"
proof -
  obtain vals hvs r1 where c: "SafeAddInt32 r 1 = Some r1" "SetRound (rs_Votes cs) r1 = Some hvs"
    "cs' = (let c = (updateRoundStep r RoundStepNewRound cs)\<lparr>rs_Validators := vals\<rparr>;
            c = (if r \<noteq> 0 then c\<lparr>rs_Proposal := None, rs_ProposalBlock := None, rs_ProposalBlockParts := None\<rparr> else c)
        in c\<lparr>rs_Votes := hvs, rs_TriggeredTimeoutPrecommit := False\<rparr>)"
    using run by (auto simp: setup_round_def Let_def updateRoundStep_def split: bind_splits if_splits)
  have "in32 (r + 1)" using c(1) r by (auto simp: SafeAddInt32_def in32_def split: if_splits)
  then have r1: "r1 = r + 1" "in32 r1" using c(1) by (auto simp: SafeAddInt32_def split: if_splits)
  let ?c = "updateRoundStep r RoundStepNewRound cs"
  have step: "node_inv S ?c" using pos r by (intro node_inv_step [OF inv]) (auto simp: in32_def)
  have "node_inv S (?c\<lparr>rs_Votes := hvs\<rparr>)"
  proof (rule node_inv_votes [OF step])
    assume "rs_Height ?c = se_height S"
    then have w: "working S ?c" "working S cs" using step inv by (auto simp: node_inv_def updateRoundStep_def)
    have "hvs_round (rs_Votes cs) \<le> r1" using w(2) pos r1 by (auto simp: working_def)
    then have "hvs_inv (se_ext S) hvs" using w(2) SetRound_inv [OF _ c(2) _ r1(2)] by (auto simp: working_def)
    then show "hvs_inv (se_ext S) hvs \<and> same_height hvs (rs_Votes ?c) \<and> hvs_round hvs \<le> rs_Round ?c + 1 \<and>
        votes_within (seen (cs_out ?c)) hvs"
      using SetRound_within [OF c(2)] w(1) r1(1) by (auto simp: working_def updateRoundStep_def)
  qed
  moreover have "node_inv S cs' = node_inv S (?c\<lparr>rs_Votes := hvs\<rparr>)" unfolding c(3) by (simp add: Let_def node_defs)
  moreover have "stays cs cs' \<and> rs_Round cs' = r"
    using pos unfolding c(3) by (auto simp: Let_def stays_def onward_def updateRoundStep_def)
  ultimately show ?thesis by simp
qed

lemma out_sel [simp]:
  "rs_Height (scheduleTimeout d h r s cs) = rs_Height cs" "rs_Round (scheduleTimeout d h r s cs) = rs_Round cs"
  "rs_Step (scheduleTimeout d h r s cs) = rs_Step cs" "rs_Height (newStep cs) = rs_Height cs" "rs_Round (newStep cs) = rs_Round cs"
  "rs_Step (newStep cs) = rs_Step cs"
  by (simp_all add: scheduleTimeout_def newStep_def emit_def)

lemma enterNewRound_inv:
  assumes inv: "node_inv S cs" and en: "en_ok S en" and run: "enterNewRound en h r cs = Some cs'" and r: "in32 r"
  shows "node_inv S cs' \<and> stays cs cs' \<and> (rs_Height cs = h \<longrightarrow> r \<le> rs_Round cs')"
proof (cases "rs_Height cs \<noteq> h \<or> r < rs_Round cs \<or> (rs_Round cs = r \<and> rs_Step cs \<noteq> RoundStepNewHeight)")
  case True
  then have "cs' = cs" using run by (auto simp: enterNewRound_def)
  then show ?thesis using inv True by auto
next
  case False
  then have pos: "rs_Height cs = h" "rs_Round cs < r \<or> rs_Round cs = r \<and> rs_Step cs = RoundStepNewHeight" by auto
  obtain c w where c: "setup_round r cs = Some c"
    and w: "(if w then Some (if CreateEmptyBlocksInterval (en_config en) > 0
        then scheduleTimeout (CreateEmptyBlocksInterval (en_config en)) h r RoundStepNewRound c else c) else enterPropose en h r c) = Some cs'"
    using run False by (auto simp: enterNewRound_def split: bind_splits)
  have ci: "node_inv S c" "stays cs c" "rs_Round c = r" using setup_round_inv [OF inv c r pos(2)] by auto
  have hc: "rs_Height c = h" using ci(2) pos(1) by (simp add: stays_def)
  have "node_inv S cs' \<and> stays c cs'"
  proof (cases w)
    case True
    then show ?thesis
      using w ci hc node_inv_timeout [OF ci(1)] in_place_stays [OF in_place_emit(2)] by (auto split: if_splits)
  next
    case False
    then have "enterPropose en h r c = Some cs'" using w by simp
    then show ?thesis using enterPropose_inv [OF ci(1) en] ci(3) by simp
  qed
  moreover have "rs_Height cs' = rs_Height c \<Longrightarrow> onward c cs' \<Longrightarrow> r \<le> rs_Round cs'" using ci(3) by (auto simp: onward_def)
  ultimately show ?thesis using stays_trans [OF ci(2)] by (auto simp: stays_def)
qed

lemma enterPrevoteWait_inv:
  assumes inv: "node_inv S cs" and run: "enterPrevoteWait en h r cs = Some cs'" and r: "rs_Height cs = h \<Longrightarrow> r \<le> rs_Round cs"
  shows "node_inv S cs' \<and> stays cs cs'"
proof (cases "behind h r RoundStepPrevoteWait cs")
  case False
  then have pos: "rs_Height cs = h" "r = rs_Round cs" "rs_Step cs < RoundStepPrevoteWait" using r by (auto simp: behind_def)
  let ?c = "scheduleTimeout (cfg_Prevote (en_config en) r) h r RoundStepPrevoteWait cs"
  have cs': "cs' = newStep (updateRoundStep r RoundStepPrevoteWait ?c)"
    using run False by (auto simp: enterPrevoteWait_def split: bind_splits if_splits)
  have "node_inv S ?c" using pos by (intro node_inv_timeout [OF inv]) auto
  then have "node_inv S (updateRoundStep r RoundStepPrevoteWait ?c)"
    using pos inv by (intro node_inv_step) (auto simp: node_inv_def)
  then show ?thesis using pos unfolding cs' by (auto intro!: step_stays)
qed (use run inv in \<open>simp add: enterPrevoteWait_def\<close>)

lemma enterPrecommitWait_inv:
  assumes inv: "node_inv S cs" and run: "enterPrecommitWait en h r cs = Some cs'" and r: "rs_Height cs = h \<Longrightarrow> r \<le> rs_Round cs"
  shows "node_inv S cs' \<and> stays cs cs'"
proof (cases "cs' = cs")
  case False
  let ?c = "scheduleTimeout (cfg_Precommit (en_config en) r) h r RoundStepPrecommitWait cs"
  have h: "rs_Height cs = h" and cs': "cs' = newStep (?c\<lparr>rs_TriggeredTimeoutPrecommit := True\<rparr>)"
    using run False by (auto simp: enterPrecommitWait_def Let_def split: bind_splits if_splits)
  have "node_inv S ?c" using h r by (intro node_inv_timeout [OF inv]) auto
  moreover have "in_place cs (?c\<lparr>rs_TriggeredTimeoutPrecommit := True\<rparr>)"
    using in_place_emit(2) [of cs] by (simp add: in_place_def)
  ultimately show ?thesis unfolding cs' using in_place_stays [OF in_place_trans [OF _ in_place_emit(1)]] by simp
qed (use inv in simp)

section \<open>Committing\<close>

lemma ValidateBlock_height:
  assumes "ValidateBlock en state block = Some True" and "0 \<le> st_LastBlockHeight state"
  shows "hdr_Height (blk_Header block) =
    (if st_LastBlockHeight state = 0 then st_InitialHeight state else wrap64 (st_LastBlockHeight state + 1))"
  using assms
  by (auto simp: ValidateBlock_def validateBlock_def check_header_def Let_def split: bind_splits option.splits if_splits)

lemma applyBlock_heights:
  assumes "applyBlock ce H ex state blockID block = Some (Inr state')"
  shows "st_LastBlockHeight state' = hdr_Height (blk_Header block)"
  using assms
  by (auto simp: applyBlock_def updateState_def Let_def split: bind_splits option.splits if_splits sum.splits)

lemma save_committed_store:
  assumes en: "en_ok S en" and run: "save_committed en block parts cs = Some bs" and store: "store_ok S cs"
    and x: "Block_Hash (se_ext S) (se_hash S) (se_evidence S) (Some block) = Some x" "x \<noteq> []"
    and maj: "hdr_Height (blk_Header block) = se_height S \<Longrightarrow> precommitted S (seen (cs_out cs)) r x"
  shows "store_ok S (cs\<lparr>blockStore := bs\<rparr>)"
proof (cases "bs = blockStore cs")
  case False
  have e: "en_ext en = se_ext S" "en_hash en = se_hash S" "en_evidence en = se_evidence S" using en by (auto simp: en_ok_def)
  obtain ec where "SaveBlockWithExtendedCommit (se_ext S) (se_hash S) (se_evidence S) (en_bsize en) (en_dbWrite en) (blockStore cs) (Some block) parts ec = Some bs
      \<or> SaveBlock (se_ext S) (se_hash S) (se_evidence S) (en_bsize en) (en_dbWrite en) (blockStore cs) (Some block) parts (ToCommit ec) = Some bs"
    using run False e by (auto simp: save_committed_def Let_def split: bind_splits if_splits)
  then have "\<exists>meta. Block_Hash (se_ext S) (se_hash S) (se_evidence S) (Some block) = Some (bid_Hash (bm_BlockID meta)) \<and>
    bs_db bs (calcBlockMetaKey (se_height S)) =
      (if se_height S = hdr_Height (blk_Header block) then Some (VMeta meta) else bs_db (blockStore cs) (calcBlockMetaKey (se_height S)))"
    by (elim disjE) (erule SaveBlockWithExtendedCommit_meta, erule SaveBlock_meta)
  then obtain meta where m: "Block_Hash (se_ext S) (se_hash S) (se_evidence S) (Some block) = Some (bid_Hash (bm_BlockID meta))"
    "bs_db bs (calcBlockMetaKey (se_height S)) =
      (if se_height S = hdr_Height (blk_Header block) then Some (VMeta meta) else bs_db (blockStore cs) (calcBlockMetaKey (se_height S)))"
    by blast
  show ?thesis
  proof (cases "hdr_Height (blk_Header block) = se_height S")
    case True
    then show ?thesis using m x maj [OF True] by (auto simp: store_ok_def)
  next
    case other: False
    then have "bs_db bs (calcBlockMetaKey (se_height S)) = bs_db (blockStore cs) (calcBlockMetaKey (se_height S))" using m(2) by auto
    then show ?thesis using store by (simp add: store_ok_def)
  qed
qed (use store in simp)

text \<open>A new height.\<close>

lemma reset_to_height_inv:
  assumes inv: "node_inv S cs" and store: "store_ok S (cs\<lparr>blockStore := bs\<rparr>)" and last: "st_LastBlockHeight state = rs_Height cs"
    and run: "reset_to_height en state lc (cs\<lparr>blockStore := bs\<rparr>) = Some cs'"
  shows "node_inv S cs' \<and> rs_Height cs' = rs_Height cs + 1 \<and> rs_Round cs' = 0 \<and>
    cs_out cs' = cs_out cs @ [EventNewRoundStep (rs_Height cs + 1) 0 RoundStepNewHeight]"
proof -
  let ?h = "rs_Height cs + 1"
  have pos: "0 < rs_Height cs" "rs_Height cs \<le> MaxInt64" using inv by (auto simp: node_inv_def height_ok_def)
  have h: "wrap64 ?h = ?h"
  proof (cases "rs_Height cs = MaxInt64")
    case True
    then have "wrap64 ?h < 1" by (simp add: wrap64_def)
    then show ?thesis using run last by (simp add: reset_to_height_def Let_def VoteExtensionsEnabled_def)
  next
    case False
    then show ?thesis using pos by (intro wrap64_id) (simp add: in64_def)
  qed
  obtain c where c: "cs' = newStep c" "rs_Height c = ?h" "rs_Round c = 0" "rs_Step c = RoundStepNewHeight" "cs_out c = cs_out cs"
    "blockStore c = bs" "cs_state c = state" "cs_started c"
    using run last pos by (auto simp: reset_to_height_def Let_def h split: bind_splits if_splits)
  have "?h \<le> MaxInt64" using h in64_wrap64 [of ?h] by (simp add: in64_def)
  then have "height_ok c" using c last pos by (simp add: height_ok_def)
  moreover have "timeouts_ok c" using inv c(2,5) by (fastforce simp: node_inv_def timeouts_ok_def)
  moreover have "store_ok S c" using store c by (simp add: store_ok_def)
  ultimately have "node_inv S c" using inv c by (simp add: node_inv_def)
  then have "node_inv S cs'" unfolding c(1) by (rule node_inv_newStep)
  then show ?thesis using c by (simp add: newStep_def emit_def)
qed

lemma updateToState_inv:
  assumes inv: "node_inv S cs" and store: "store_ok S (cs\<lparr>blockStore := bs\<rparr>)" and last: "st_LastBlockHeight state = rs_Height cs"
    and run: "updateToState en state (cs\<lparr>blockStore := bs\<rparr>) = Some cs'"
  shows "node_inv S cs' \<and> rs_Height cs' = rs_Height cs + 1 \<and> rs_Round cs' = 0 \<and>
    cs_out cs' = cs_out cs @ [EventNewRoundStep (rs_Height cs + 1) 0 RoundStepNewHeight]"
proof -
  have "\<not> st_LastBlockHeight state \<le> st_LastBlockHeight (cs_state cs)"
    using inv last by (auto simp: node_inv_def height_ok_def split: if_splits)
  then obtain lc where "reset_to_height en state lc (cs\<lparr>blockStore := bs\<rparr>) = Some cs'"
    using run by (auto simp: updateToState_def split: if_splits bind_splits)
  then show ?thesis by (rule reset_to_height_inv [OF inv store last])
qed

lemma updatePrivValidatorPubKey_sel [simp]:
  "node_inv S (updatePrivValidatorPubKey cs) = node_inv S cs" "rs_Height (updatePrivValidatorPubKey cs) = rs_Height cs"
  "rs_Round (updatePrivValidatorPubKey cs) = rs_Round cs" "cs_out (updatePrivValidatorPubKey cs) = cs_out cs"
  by (auto simp: updatePrivValidatorPubKey_def split: option.splits)

lemma finalizeCommit_inv:
  assumes inv: "node_inv S cs" and en: "en_ok S en" and run: "finalizeCommit en h cs = Some cs'"
  shows "node_inv S cs' \<and> onward cs cs'"
proof (cases "rs_Height cs \<noteq> h \<or> rs_Step cs \<noteq> RoundStepCommit")
  case True
  then show ?thesis using run inv by (auto simp: finalizeCommit_def)
next
  case False
  obtain b ok where maj: "TwoThirdsMajority (Precommits (rs_Votes cs) (rs_CommitRound cs)) = (b, ok)" by fastforce
  obtain parts block bs state c where r: "ok" "en_HashesTo en (Some block) (bid_Hash b) = Some True"
    "ValidateBlock en (cs_state cs) block = Some True" "save_committed en block parts cs = Some bs"
    "applyBlock (en_ext en) (en_hash en) (en_exec en) (cs_state cs) \<lparr>bid_Hash = the (en_Hash en (Some block)),
       bid_PartSetHeader = PartSet_Header (Some parts)\<rparr> block = Some (Inr state)"
    "updateToState en state (cs\<lparr>blockStore := bs\<rparr>) = Some c" "cs' = scheduleRound0 en (updatePrivValidatorPubKey c)"
    using run False maj by (auto simp: finalizeCommit_def Let_def split: bind_splits if_splits sum.splits)
  have x: "Block_Hash (se_ext S) (se_hash S) (se_evidence S) (Some block) = Some (bid_Hash b)" "bid_Hash b \<noteq> []"
    using en_HashesTo_iff [OF en r(2)] by auto
  have ok: "height_ok cs" "store_ok S cs" using inv by (auto simp: node_inv_def)
  have hd: "hdr_Height (blk_Header block) = rs_Height cs"
    using ValidateBlock_height [OF r(3)] ok(1) by (auto simp: height_ok_def in64_def split: if_splits)
  have maj': "precommitted S (seen (cs_out cs)) (rs_CommitRound cs) (bid_Hash b)" if "hdr_Height (blk_Header block) = se_height S"
    using reported_precommits [OF inv] that hd maj r(1) by simp
  have store: "store_ok S (cs\<lparr>blockStore := bs\<rparr>)" by (rule save_committed_store [OF en r(4) ok(2) x maj'])
  have last: "st_LastBlockHeight state = rs_Height cs" using applyBlock_heights [OF r(5)] hd by simp
  have c: "node_inv S c" "rs_Height c = rs_Height cs + 1" "rs_Round c = 0"
    "cs_out c = cs_out cs @ [EventNewRoundStep (rs_Height cs + 1) 0 RoundStepNewHeight]"
    using updateToState_inv [OF inv store last r(6)] by auto
  then have "node_inv S cs'" unfolding r(7) scheduleRound0_def by (intro node_inv_timeout) auto
  moreover have "onward cs cs'" using c unfolding r(7) by (simp add: onward_def scheduleRound0_def scheduleTimeout_def emit_def seen_def)
  ultimately show ?thesis by simp
qed

lemma tryFinalizeCommit_inv:
  assumes inv: "node_inv S cs" and en: "en_ok S en" and run: "tryFinalizeCommit en h cs = Some cs'"
  shows "node_inv S cs' \<and> onward cs cs'"
proof (cases "cs' = cs")
  case False
  then have "finalizeCommit en h cs = Some cs'" using run by (auto simp: tryFinalizeCommit_def split: if_splits prod.splits bind_splits)
  then show ?thesis by (rule finalizeCommit_inv [OF inv en])
qed (use inv in simp)

lemma take_commit_block_cases:
  assumes "take_commit_block en b cs = Some c"
  obtains p ps where "c = cs\<lparr>rs_ProposalBlock := p, rs_ProposalBlockParts := ps\<rparr>"
proof -
  have "c = cs\<lparr>rs_ProposalBlock := rs_ProposalBlock c, rs_ProposalBlockParts := rs_ProposalBlockParts c\<rparr>"
    using assms by (auto simp: take_commit_block_def Let_def split: bind_splits if_splits)
  then show ?thesis by (rule that)
qed

lemma enterCommit_inv:
  assumes inv: "node_inv S cs" and en: "en_ok S en" and run: "enterCommit en h r cs = Some cs'"
  shows "node_inv S cs' \<and> onward cs cs'"
proof (cases "rs_Height cs \<noteq> h \<or> RoundStepCommit \<le> rs_Step cs")
  case True
  then show ?thesis using run inv by (auto simp: enterCommit_def)
next
  case False
  obtain b c where c: "take_commit_block en b cs = Some c"
    "tryFinalizeCommit en h (newStep ((updateRoundStep (rs_Round c) RoundStepCommit c)\<lparr>rs_CommitRound := r, rs_CommitTime := en_now en\<rparr>)) = Some cs'"
    using run False by (auto simp: enterCommit_def split: bind_splits if_splits prod.splits)
  let ?c = "newStep ((updateRoundStep (rs_Round c) RoundStepCommit c)\<lparr>rs_CommitRound := r, rs_CommitTime := en_now en\<rparr>)"
  obtain p ps where pp: "c = cs\<lparr>rs_ProposalBlock := p, rs_ProposalBlockParts := ps\<rparr>" using take_commit_block_cases [OF c(1)] .
  have ci: "node_inv S c" "in_place cs c" using inv by (auto simp: pp in_place_def)
  have "node_inv S (updateRoundStep (rs_Round c) RoundStepCommit c)"
    using False inv in_place_sel [OF ci(2)] by (intro node_inv_step [OF ci(1)]) (auto simp: node_inv_def)
  then have "node_inv S ?c" by (intro node_inv_newStep) simp
  moreover have "onward cs ?c"
    using False by (auto simp: pp onward_def newStep_def emit_def updateRoundStep_def)
  ultimately show ?thesis using tryFinalizeCommit_inv [OF _ en c(2)] onward_trans by blast
qed

end
