(* ===== verification/Spec2Isabelle.thy ===== *)
theory Spec2Isabelle
  imports Commit_Verify Part_Set Privval Height_Vote_Set Block Chain_State Consensus_Safety
begin

text \<open>
  Verification of the consensus core of hetu-cometbft (\<open>src/hetu-cometbft\<close>), a Go implementation
  of Byzantine fault tolerant state machine replication.

  \<^bold>\<open>The program.\<close> Validators with voting power take turns in proposing blocks and vote on them in
  rounds. A validator set (\<open>types/validator_set.go\<close>) holds the validators, elects the proposer by
  weighted rotation and is changed by the application through change sets. Votes
  (\<open>types/vote.go\<close>) are signed over a canonical encoding (\<open>types/canonical.go\<close>, the generated
  marshallers in \<open>proto/tendermint/types/canonical.pb.go\<close>, \<open>libs/protoio/writer.go\<close>). A vote set
  (\<open>types/vote_set.go\<close>) collects the votes of one height, round and type, detects two-thirds
  majorities and conflicting votes, and is turned into a commit (\<open>types/block.go\<close>). Bit arrays
  (\<open>libs/bits/bit_array.go\<close>) say which votes are present.

  \<^bold>\<open>Conventions.\<close> A Go integer is an \<open>int\<close>; every operation of the source that can leave the range
  of its width is followed by \<open>wrap64\<close> or \<open>wrap32\<close>. A panic is the value \<open>None\<close> of an option type, a
  Go error is a constructor of the error type of its component, a nil pointer is \<open>None\<close>. Byte slices
  are lists of 8-bit words. Code outside the repository (signature schemes, the address of a key,
  the encoding of timestamps by the protobuf library) is a field of the record \<open>ext_env\<close>.

  \<^bold>\<open>Theories.\<close>
  \<^item> \<open>Prelude\<close>: widths, wrap-around, slices with their bounds checks, comparison of byte strings.
  \<^item> \<open>External\<close>: the parameters that stand for code outside the repository.
  \<^item> \<open>Safe_Math\<close>: checked and clipping arithmetic (\<open>libs/math\<close>, end of \<open>types/validator_set.go\<close>) and
    fractions; exactness, saturation, the parse/print round trip.
  \<^item> \<open>Bit_Array\<close>: the packed words and all operations; they implement the boolean operations, the
    random choice returns a set bit, the JSON text reads back.
  \<^item> \<open>Validator_Set\<close>, \<open>Validator_Priority\<close>, \<open>Validator_Update\<close>: the model of the set, the rotation
    (no panic, bounded priorities, proportional and starvation-free election) and the change sets
    (refinement of a finite map from addresses to powers).
  \<^item> \<open>Proto_Wire\<close>, \<open>Vote\<close>: wire format, canonical messages, sign bytes, votes, proposals and commits;
    sign bytes determine what was signed and separate the kinds of messages.
  \<^item> \<open>Vote_Set\<close>: the vote set as a step relation; its invariant, the effect of \<open>AddVote\<close> on every
    branch, soundness of a reported majority, accountable safety of one round.
  \<^item> \<open>Proto_Decode\<close>: the generated unmarshallers of the canonical messages with their treatment of
    unknown fields, and the delimited reader; marshalled messages read back, and decoding ends on
    every input.
  \<^item> \<open>Commit_Verify\<close>: verification of commits (\<open>types/validation.go\<close>), in a batch and one by one; the
    two agree, the full check is characterised, the light check with a trust level is sound, and the
    commit made from a vote set is accepted.
  \<^item> \<open>Sha256\<close>, \<open>Merkle\<close>: the hash of \<open>crypto/tmhash\<close> and Merkle trees with proofs
    (\<open>crypto/merkle\<close>); the two ways of computing a root agree, generated proofs verify and
    verified proofs are sound. The hash function is an argument of the tree functions, and a
    theorem that needs the absence of collisions says so for the strings hashed.
  \<^item> \<open>Block\<close>: headers, blocks, transactions and their hashes (\<open>types/block.go\<close>, \<open>types/tx.go\<close>); the hash
    of a block binds its contents, and the size reserved for a commit is enough.
  \<^item> \<open>Chain_State\<close>: consensus parameters, genesis, the state of the chain, making, validating and
    executing blocks (\<open>state\<close>, \<open>types/params.go\<close>, \<open>types/genesis.go\<close>); the state keeps its invariant, the
    block a proposer makes is accepted, and the block time is a median of correct clocks.
  \<^item> \<open>Privval\<close>: the private validator with its files (\<open>privval/file.go\<close>), as a step relation with
    crashes and restarts; it never signs two messages for one step, and signs again what it signed.
  \<^item> \<open>Height_Vote_Set\<close>: the vote sets of one height (\<open>consensus/types/height_vote_set.go\<close>) as a step
    relation; its invariant, the bound on the rounds that peers open, and the proof-of-lock round.
  \<^item> \<open>Part_Set\<close>: block data cut into parts, collected and read back (\<open>types/part_set.go\<close>).
  \<^item> \<open>Block_Store\<close>: the store of committed blocks over a key-value database (\<open>store/store.go\<close>): keys,
    batches, saving, loading, pruning and deleting; keys of different kinds and heights differ.
  \<^item> \<open>Consensus_State\<close>: the consensus state machine (\<open>consensus/state.go\<close>), one definition per handler
    over the record \<open>ConsensusState\<close>, with the signer of \<open>Privval\<close>, the vote sets of \<open>Height_Vote_Set\<close>,
    the executor of \<open>Chain_State\<close> and the store of \<open>Block_Store\<close>; what the node sends and schedules is
    appended to \<open>cs_out\<close>, and one turn of \<open>receiveRoutine\<close> is \<open>receive\<close>.
  \<^item> \<open>Consensus_Votes\<close>, \<open>Consensus_Discipline\<close>, \<open>Consensus_Safety\<close>: which votes a node has seen and how
    they grow, the invariant that ties the votes a node sends to its lock and to the majorities it has
    seen, and that the steps of a round keep it.

  \<^bold>\<open>Bounds.\<close> Loops over lists are structural recursions; loops on numbers are \<open>function\<close>s with a
  termination proof. Only the loop over the fields of a message has fuel: the number of bytes left,
  of which every turn consumes at least one, so that it is never used up (\<open>unmarshal_total\<close>).

  \<^bold>\<open>Not modelled.\<close> Networking, RPC, the socket transport of the application interface and the assembly
  of a node are input and output without state the rules above depend on. The write-ahead log of the
  consensus engine is reduced to whether a write succeeds; its replay, the reactor that gossips
  messages, the mempool, the evidence pool, the light client, block and state sync are not modelled,
  nor is the Rust DAG consensus in \<open>src/hetu-consensus\<close>. Conversions between the Go types and the
  generated protobuf types, printers and metrics are left out throughout.
\<close>

end
